(* ===== verification/Prelude.thy ===== *)
theory Prelude
  imports Main "HOL-Library.Word" "HOL-Library.Multiset"
begin

unbundle bit_operations_syntax

text \<open>
  The shared part of the development: the two collections of facts the component theories
  extend, a bind for computations that may fail (\<open>Inl\<close> is the failure), the arithmetic of
  the C type \<open>size_t\<close> on an LP64 platform with its wrap-around written out, and the generic
  lemmas on lists and multisets that the table, stash and pool proofs share.
\<close>

named_theorems res_simps "rewriting of computations that may fail"
named_theorems frame_simps "fields an operation leaves alone"

section \<open>Computations that may fail\<close>

definition bind_res :: "'e + 'a \<Rightarrow> ('a \<Rightarrow> 'e + 'b) \<Rightarrow> 'e + 'b" where
  "bind_res r f = (case r of Inl e \<Rightarrow> Inl e | Inr x \<Rightarrow> f x)"

definition assert_res :: "bool \<Rightarrow> 'e \<Rightarrow> 'e + unit" where
  "assert_res b e = (if b then Inr () else Inl e)"

lemma bind_res_simps [simp, res_simps]:
  "bind_res (Inr x) f = f x"
  "bind_res (Inl e) f = Inl e"
  by (simp_all add: bind_res_def)

lemma assert_res_simps [simp, res_simps]:
  "assert_res True e = Inr ()"
  "assert_res False e = Inl e"
  by (simp_all add: assert_res_def)

lemma bind_res_cong [fundef_cong]:
  "r = r' \<Longrightarrow> (\<And>x. r' = Inr x \<Longrightarrow> f x = f' x) \<Longrightarrow> bind_res r f = bind_res r' f'"
  by (cases r') (auto simp: bind_res_def)

lemma bind_res_eq_Inr:
  "bind_res r f = Inr y \<longleftrightarrow> (\<exists>x. r = Inr x \<and> f x = Inr y)"
  by (cases r) auto

lemma bind_res_eq_Inl:
  "bind_res r f = Inl e \<longleftrightarrow> r = Inl e \<or> (\<exists>x. r = Inr x \<and> f x = Inl e)"
  by (cases r) auto

lemma assert_res_eq_Inr [simp]: "assert_res b e = Inr u \<longleftrightarrow> b"
  by (auto simp: assert_res_def)

lemma assert_res_eq_Inl [simp]: "assert_res b e = Inl e' \<longleftrightarrow> \<not> b \<and> e' = e"
  by (auto simp: assert_res_def)

lemma bind_assert [simp]:
  "bind_res (assert_res b e) f = (if b then f () else Inl e)"
  by (simp add: assert_res_def)

section \<open>The type size_t\<close>

text \<open>
  Sizes and indices are natural numbers below \<open>2 ^ 64\<close>. Where an operation of the code can
  leave that range, the model uses these operations, which wrap as \<open>size_t\<close> does.
\<close>

type_synonym byte = "8 word"
type_synonym u32 = "32 word"
type_synonym u64 = "64 word"

definition size_max :: nat where
  "size_max = 2 ^ 64 - 1"

definition size_add :: "nat \<Rightarrow> nat \<Rightarrow> nat" where
  "size_add a b = (a + b) mod 2 ^ 64"

definition size_sub :: "nat \<Rightarrow> nat \<Rightarrow> nat" where
  "size_sub a b = (a + 2 ^ 64 - b) mod 2 ^ 64"

definition size_mul :: "nat \<Rightarrow> nat \<Rightarrow> nat" where
  "size_mul a b = (a * b) mod 2 ^ 64"

text \<open>The largest object \<open>malloc\<close> and \<open>realloc\<close> may return (\<open>PTRDIFF_MAX\<close>).\<close>

definition ptrdiff_max :: nat where
  "ptrdiff_max = 2 ^ 63 - 1"

lemma size_add_exact [simp]: "a + b < 2 ^ 64 \<Longrightarrow> size_add a b = a + b"
  by (simp add: size_add_def)

lemma size_sub_exact [simp]: "b \<le> a \<Longrightarrow> a < 2 ^ 64 \<Longrightarrow> size_sub a b = a - b"
  by (simp add: size_sub_def mod_if)

lemma size_mul_exact [simp]: "a * b < 2 ^ 64 \<Longrightarrow> size_mul a b = a * b"
  by (simp add: size_mul_def)

lemma size_add_less [simp]: "size_add a b < 2 ^ 64"
  by (simp add: size_add_def)

section \<open>Lists and multisets\<close>

lemma mset_list_update:
  "i < length xs \<Longrightarrow> mset (xs[i := x]) = add_mset x (mset xs - {#xs ! i#})"
  by (simp add: mset_update)

lemma filter_mset_update:
  assumes "i < length xs"
  shows "filter_mset P (mset (xs[i := x])) + (if P (xs ! i) then {#xs ! i#} else {#}) =
         filter_mset P (mset xs) + (if P x then {#x#} else {#})"
proof -
  have "xs ! i \<in># mset xs" using assms by simp
  then obtain M where M: "mset xs = add_mset (xs ! i) M" by (metis mset_add)
  show ?thesis by (simp add: mset_list_update [OF assms] M)
qed

lemma filter_mset_update_new:
  assumes "i < length xs" and "\<not> P (xs ! i)" and "P x"
  shows "filter_mset P (mset (xs[i := x])) = add_mset x (filter_mset P (mset xs))"
  using filter_mset_update [OF assms(1), of P x] assms(2,3) by simp

lemma filter_mset_update_del:
  assumes "i < length xs" and "P (xs ! i)" and "\<not> P x"
  shows "filter_mset P (mset xs) = add_mset (xs ! i) (filter_mset P (mset (xs[i := x])))"
  using filter_mset_update [OF assms(1), of P x] assms(2,3) by simp

lemma filter_mset_update_swap:
  assumes "i < length xs" and "P (xs ! i)" and "P x"
  shows "add_mset (xs ! i) (filter_mset P (mset (xs[i := x]))) =
         add_mset x (filter_mset P (mset xs))"
  using filter_mset_update [OF assms(1), of P x] assms(2,3) by simp

lemma take_Suc_update_beyond [simp]:
  "n \<le> i \<Longrightarrow> take n (xs[i := x]) = take n xs"
  by simp

section \<open>A relation between the distinct occurrences of a multiset\<close>

definition pairwise_mset :: "('a \<Rightarrow> 'a \<Rightarrow> bool) \<Rightarrow> 'a multiset \<Rightarrow> bool" where
  "pairwise_mset R M \<longleftrightarrow> (\<forall>x \<in># M. \<forall>y \<in># M - {#x#}. R x y)"

lemma pairwise_mset_empty [simp]: "pairwise_mset R {#}"
  by (simp add: pairwise_mset_def)

lemma pairwise_mset_add:
  assumes sym: "\<And>a b. R a b \<Longrightarrow> R b a"
  shows "pairwise_mset R (add_mset x M) \<longleftrightarrow> pairwise_mset R M \<and> (\<forall>y \<in># M. R x y)"
proof
  assume L: "pairwise_mset R (add_mset x M)"
  have "R a b" if "a \<in># M" "b \<in># M - {#a#}" for a b
    using L that by (auto simp: pairwise_mset_def)
  then show "pairwise_mset R M \<and> (\<forall>y \<in># M. R x y)"
    using L by (auto simp: pairwise_mset_def)
next
  assume R: "pairwise_mset R M \<and> (\<forall>y \<in># M. R x y)"
  have "R a b" if "a \<in># add_mset x M" "b \<in># add_mset x M - {#a#}" for a b
  proof (cases "a = x")
    case True
    then show ?thesis using R that by simp
  next
    case False
    then have "a \<in># M" "b = x \<or> b \<in># M - {#a#}" using that by auto
    then show ?thesis using R sym by (auto simp: pairwise_mset_def)
  qed
  then show "pairwise_mset R (add_mset x M)" by (simp add: pairwise_mset_def)
qed

lemma pairwise_mset_union:
  assumes sym: "\<And>a b. R a b \<Longrightarrow> R b a"
  shows "pairwise_mset R (M + N) \<longleftrightarrow>
    pairwise_mset R M \<and> pairwise_mset R N \<and> (\<forall>x \<in># M. \<forall>y \<in># N. R x y)"
proof (induction M)
  case (add x M)
  then show ?case by (auto simp: pairwise_mset_add [of R, OF sym])
qed simp

lemma pairwise_mset_cong:
  assumes "\<And>x y. x \<in># M \<Longrightarrow> y \<in># M \<Longrightarrow> R x y = S x y"
  shows "pairwise_mset R M = pairwise_mset S M"
proof -
  have "R x y = S x y" if "x \<in># M" "y \<in># M - {#x#}" for x y
    using assms that by (blast dest: in_diffD)
  then show ?thesis by (simp add: pairwise_mset_def)
qed

lemma pairwise_mset_image:
  assumes sym: "\<And>a b. R a b \<Longrightarrow> R b a"
  shows "pairwise_mset R (image_mset f M) \<longleftrightarrow> pairwise_mset (\<lambda>x y. R (f x) (f y)) M"
proof (induction M)
  case (add x M)
  have sym': "\<And>a b. R (f a) (f b) \<Longrightarrow> R (f b) (f a)" by (rule sym)
  show ?case using add.IH
    by (auto simp: pairwise_mset_add [of R, OF sym]
        pairwise_mset_add [of "\<lambda>x y. R (f x) (f y)", OF sym'])
qed simp

lemma pairwise_msetD:
  "pairwise_mset R (add_mset x M) \<Longrightarrow> y \<in># M \<Longrightarrow> R x y"
  by (auto simp: pairwise_mset_def)

end
