(* ===== verification/Murmur.thy ===== *)
theory Murmur
  imports Prelude
begin

text \<open>
  MurmurHash3 for x86, 128 bits (\<open>src/murmurhash3.h\<close>), on 32-bit words, for a little-endian
  host: \<open>getblock32\<close> copies four bytes of the key into a 32-bit integer.
\<close>

definition rotl32 :: "u32 \<Rightarrow> nat \<Rightarrow> u32" where
  "rotl32 x r = push_bit r x OR drop_bit (32 - r) x"

definition getblock32 :: "byte list \<Rightarrow> nat \<Rightarrow> u32" where
  "getblock32 p i =
     ucast (p ! (i * 4)) OR push_bit 8 (ucast (p ! (i * 4 + 1)))
     OR push_bit 16 (ucast (p ! (i * 4 + 2))) OR push_bit 24 (ucast (p ! (i * 4 + 3)))"

definition fmix32 :: "u32 \<Rightarrow> u32" where
  "fmix32 h0 =
     (let h = h0 XOR drop_bit 16 h0;
          h = h * 0x85ebca6b;
          h = h XOR drop_bit 13 h;
          h = h * 0xc2b2ae35
      in h XOR drop_bit 16 h)"

definition murmur_c1 :: u32 where "murmur_c1 = 0x239b961b"
definition murmur_c2 :: u32 where "murmur_c2 = 0xab0e9789"
definition murmur_c3 :: u32 where "murmur_c3 = 0x38b34ae5"
definition murmur_c4 :: u32 where "murmur_c4 = 0xa1e38b93"

record murmur_state =
  mh1 :: u32
  mh2 :: u32
  mh3 :: u32
  mh4 :: u32

text \<open>The body of the block loop; \<open>j\<close> is \<open>nblocks + i\<close>, the block's index from the start.\<close>

definition murmur_block :: "byte list \<Rightarrow> murmur_state \<Rightarrow> nat \<Rightarrow> murmur_state" where
  "murmur_block data s j =
     (let h1 = mh1 s; h2 = mh2 s; h3 = mh3 s; h4 = mh4 s;
          k1 = getblock32 data (j * 4 + 0);
          k2 = getblock32 data (j * 4 + 1);
          k3 = getblock32 data (j * 4 + 2);
          k4 = getblock32 data (j * 4 + 3);
          k1 = k1 * murmur_c1; k1 = rotl32 k1 15; k1 = k1 * murmur_c2; h1 = h1 XOR k1;
          h1 = rotl32 h1 19; h1 = h1 + h2; h1 = h1 * 5 + 0x561ccd1b;
          k2 = k2 * murmur_c2; k2 = rotl32 k2 16; k2 = k2 * murmur_c3; h2 = h2 XOR k2;
          h2 = rotl32 h2 17; h2 = h2 + h3; h2 = h2 * 5 + 0x0bcaa747;
          k3 = k3 * murmur_c3; k3 = rotl32 k3 17; k3 = k3 * murmur_c4; h3 = h3 XOR k3;
          h3 = rotl32 h3 15; h3 = h3 + h4; h3 = h3 * 5 + 0x96cd1c35;
          k4 = k4 * murmur_c4; k4 = rotl32 k4 18; k4 = k4 * murmur_c1; h4 = h4 XOR k4;
          h4 = rotl32 h4 13; h4 = h4 + h1; h4 = h4 * 5 + 0x32ac3b17
      in \<lparr>mh1 = h1, mh2 = h2, mh3 = h3, mh4 = h4\<rparr>)"

text \<open>
  One statement \<open>case n: k ^= (uint32_t) tail[n - 1] << sh\<close> of the fall-through switch: the
  control flow passes it when \<open>len & 15\<close> is at least \<open>n\<close>.
\<close>

definition tail_byte :: "byte list \<Rightarrow> nat \<Rightarrow> nat \<Rightarrow> nat \<Rightarrow> u32 \<Rightarrow> u32" where
  "tail_byte tail rem n sh k = (if n \<le> rem then k XOR push_bit sh (ucast (tail ! (n - 1))) else k)"

definition murmur_tail :: "byte list \<Rightarrow> nat \<Rightarrow> murmur_state \<Rightarrow> murmur_state" where
  "murmur_tail tail rem s =
     (let h1 = mh1 s; h2 = mh2 s; h3 = mh3 s; h4 = mh4 s;
          k4 = tail_byte tail rem 15 16 0;
          k4 = tail_byte tail rem 14 8 k4;
          k4 = tail_byte tail rem 13 0 k4;
          h4 = (if 13 \<le> rem then h4 XOR rotl32 (k4 * murmur_c4) 18 * murmur_c1 else h4);
          k3 = tail_byte tail rem 12 24 0;
          k3 = tail_byte tail rem 11 16 k3;
          k3 = tail_byte tail rem 10 8 k3;
          k3 = tail_byte tail rem 9 0 k3;
          h3 = (if 9 \<le> rem then h3 XOR rotl32 (k3 * murmur_c3) 17 * murmur_c4 else h3);
          k2 = tail_byte tail rem 8 24 0;
          k2 = tail_byte tail rem 7 16 k2;
          k2 = tail_byte tail rem 6 8 k2;
          k2 = tail_byte tail rem 5 0 k2;
          h2 = (if 5 \<le> rem then h2 XOR rotl32 (k2 * murmur_c2) 16 * murmur_c3 else h2);
          k1 = tail_byte tail rem 4 24 0;
          k1 = tail_byte tail rem 3 16 k1;
          k1 = tail_byte tail rem 2 8 k1;
          k1 = tail_byte tail rem 1 0 k1;
          h1 = (if 1 \<le> rem then h1 XOR rotl32 (k1 * murmur_c1) 15 * murmur_c2 else h1)
      in \<lparr>mh1 = h1, mh2 = h2, mh3 = h3, mh4 = h4\<rparr>)"

definition murmur_cross_add :: "murmur_state \<Rightarrow> murmur_state" where
  "murmur_cross_add s =
     (let h1 = mh1 s + mh2 s; h1 = h1 + mh3 s; h1 = h1 + mh4 s
      in \<lparr>mh1 = h1, mh2 = mh2 s + h1, mh3 = mh3 s + h1, mh4 = mh4 s + h1\<rparr>)"

definition murmur_xor_len :: "nat \<Rightarrow> murmur_state \<Rightarrow> murmur_state" where
  "murmur_xor_len len s =
     (let l = (of_nat len :: u32)
      in \<lparr>mh1 = mh1 s XOR l, mh2 = mh2 s XOR l, mh3 = mh3 s XOR l, mh4 = mh4 s XOR l\<rparr>)"

definition murmur_fmix :: "murmur_state \<Rightarrow> murmur_state" where
  "murmur_fmix s =
     \<lparr>mh1 = fmix32 (mh1 s), mh2 = fmix32 (mh2 s), mh3 = fmix32 (mh3 s), mh4 = fmix32 (mh4 s)\<rparr>"

definition murmur_final :: "nat \<Rightarrow> murmur_state \<Rightarrow> murmur_state" where
  "murmur_final len s = murmur_cross_add (murmur_fmix (murmur_cross_add (murmur_xor_len len s)))"

definition MurmurHash3_x86_128 :: "byte list \<Rightarrow> u32 \<Rightarrow> murmur_state" where
  "MurmurHash3_x86_128 key seed =
     (let len = length key;
          nblocks = len div 16;
          s = \<lparr>mh1 = seed, mh2 = seed, mh3 = seed, mh4 = seed\<rparr>;
          s = foldl (murmur_block key) s [0..<nblocks]
      in murmur_final len (murmur_tail (drop (nblocks * 16) key) (len mod 16) s))"

end
