(* ===== verification/HashData.thy ===== *)
theory HashData
  imports Murmur
begin

text \<open>
  \<open>coucal_hash_data()\<close> (\<open>src/coucal.c\<close>) with \<open>COUCAL_HASH_SIZE\<close> 32, for the two self-contained
  back ends: \<open>HTS_INTHASH_USES_MURMUR\<close>, the default, and \<open>HTS_INTHASH_USES_FNV1\<close>. The lemmas
  show that the two hashes of a key always differ, that the FNV-1 loop is a left fold, and that
  the Murmur back end gives every key of at most four bytes the same second hash.
\<close>

type_synonym coucal_hashkey = u32

record coucal_hashkeys =
  hash1 :: coucal_hashkey
  hash2 :: coucal_hashkey

abbreviation null_hashkeys :: coucal_hashkeys where
  "null_hashkeys \<equiv> \<lparr>hash1 = 0, hash2 = 0\<rparr>"

text \<open>The tail all back ends share: "do not keep identical hashes".\<close>

definition distinct_hashkeys :: "coucal_hashkeys \<Rightarrow> coucal_hashkeys" where
  "distinct_hashkeys k = (if hash1 k = hash2 k then k\<lparr>hash2 := NOT (hash2 k)\<rparr> else k)"

section \<open>The Murmur back end\<close>

definition coucal_hash_data :: "byte list \<Rightarrow> coucal_hashkeys" where
  "coucal_hash_data data =
     (let r = MurmurHash3_x86_128 data 42
      in distinct_hashkeys \<lparr>hash1 = mh1 r XOR mh3 r, hash2 = mh2 r XOR mh4 r\<rparr>)"

definition coucal_hash_string :: "byte list \<Rightarrow> coucal_hashkeys" where
  "coucal_hash_string name = coucal_hash_data name"

section \<open>The FNV-1 back end\<close>

definition fnv1_prime :: u64 where "fnv1_prime = 1099511628211"
definition fnv1_offset_basis :: u64 where "fnv1_offset_basis = 14695981039346656037"

definition fnv1_step :: "u64 \<times> u64 \<Rightarrow> byte \<Rightarrow> u64 \<times> u64" where
  "fnv1_step h c1 =
     (let c2 = NOT c1
      in ((fst h * fnv1_prime) XOR ucast c1, (snd h * fnv1_prime) XOR ucast c2))"

text \<open>The loop \<open>for(i = 0 ; i < size ; i++)\<close>, by the number of bytes left.\<close>

fun fnv1_loop :: "byte list \<Rightarrow> nat \<Rightarrow> nat \<Rightarrow> u64 \<times> u64 \<Rightarrow> u64 \<times> u64" where
  "fnv1_loop data i 0 h = h"
| "fnv1_loop data i (Suc left) h = fnv1_loop data (Suc i) left (fnv1_step h (data ! i))"

definition fnv1_fold32 :: "u64 \<Rightarrow> u32" where
  "fnv1_fold32 h = ucast h XOR ucast (drop_bit 32 h)"

definition coucal_hash_data_fnv1 :: "byte list \<Rightarrow> coucal_hashkeys" where
  "coucal_hash_data_fnv1 data =
     (let h = fnv1_loop data 0 (length data) (fnv1_offset_basis, NOT fnv1_offset_basis)
      in distinct_hashkeys \<lparr>hash1 = fnv1_fold32 (fst h), hash2 = fnv1_fold32 (snd h)\<rparr>)"

section \<open>The two hashes differ\<close>

lemma word_not_neq [simp]: "NOT w \<noteq> (w :: 'a::len word)" "w \<noteq> NOT w"
proof -
  show "NOT w \<noteq> w"
  proof
    assume eq: "NOT w = w"
    have "bit w 0 \<longleftrightarrow> \<not> bit w 0"
      using arg_cong [OF eq, of "\<lambda>v. bit v 0"] by (simp add: bit_not_iff)
    then show False by simp
  qed
  then show "w \<noteq> NOT w" by metis
qed

lemma distinct_hashkeys_neq: "hash1 (distinct_hashkeys k) \<noteq> hash2 (distinct_hashkeys k)"
  by (simp add: distinct_hashkeys_def)

lemma distinct_hashkeys_hash1 [simp]: "hash1 (distinct_hashkeys k) = hash1 k"
  by (simp add: distinct_hashkeys_def)

section \<open>FNV-1 as a fold\<close>

lemma fnv1_loop_foldl:
  "i + left = length data \<Longrightarrow> fnv1_loop data i left h = foldl fnv1_step h (drop i data)"
proof (induction left arbitrary: i h)
  case 0
  then show ?case by simp
next
  case (Suc left)
  then have "i < length data" by simp
  then have "drop i data = data ! i # drop (Suc i) data"
    by (simp add: Cons_nth_drop_Suc)
  with Suc show ?case by simp
qed

text \<open>
  The FNV-1 loop, by index over the key's bytes, is the left fold of its step over the key.
\<close>

lemma fnv1_loop_is_fold:
  "fnv1_loop data 0 (length data) h = foldl fnv1_step h data"
  using fnv1_loop_foldl [of 0 "length data" data h] by simp

section \<open>Short keys under the Murmur back end\<close>

text \<open>
  A key of at most four bytes reaches only the \<open>k1\<close> lane of the tail, so the lanes two, three
  and four leave it with the seed and stay equal through the final mix.
\<close>

lemma cross_add_equal_lanes:
  "mh2 s = mh4 s \<Longrightarrow> mh2 (murmur_cross_add s) = mh4 (murmur_cross_add s)"
  by (simp only: murmur_cross_add_def Let_def murmur_state.select_convs)

lemma murmur_final_equal_lanes:
  "mh2 s = mh4 s \<Longrightarrow> mh2 (murmur_final len s) = mh4 (murmur_final len s)"
  unfolding murmur_final_def
  by (intro cross_add_equal_lanes)
     (simp only: murmur_fmix_def murmur_state.select_convs cross_add_equal_lanes
        murmur_xor_len_def Let_def)

lemma tail_lanes_short:
  assumes "rem \<le> 4"
  shows "mh2 (murmur_tail tail rem s) = mh2 s" and "mh4 (murmur_tail tail rem s) = mh4 s"
proof -
  have "\<not> 5 \<le> rem" and "\<not> 13 \<le> rem" using assms by simp_all
  then show "mh2 (murmur_tail tail rem s) = mh2 s" and "mh4 (murmur_tail tail rem s) = mh4 s"
    by (simp_all only: murmur_tail_def Let_def murmur_state.select_convs if_False)
qed

lemma murmur_short_lanes:
  assumes "length key \<le> 4"
  shows "mh2 (MurmurHash3_x86_128 key seed) = mh4 (MurmurHash3_x86_128 key seed)"
proof -
  have "length key div 16 = 0" and "length key mod 16 = length key" using assms by simp_all
  then show ?thesis
    using tail_lanes_short [OF assms, of key "\<lparr>mh1 = seed, mh2 = seed, mh3 = seed, mh4 = seed\<rparr>"]
    by (simp add: MurmurHash3_x86_128_def Let_def murmur_final_equal_lanes)
qed

end
