(* ===== verification/State.thy ===== *)
theory State
  imports HashData
begin

text \<open>
  The data of \<open>src/coucal.h\<close> and \<open>src/coucal.c\<close>: keys and values, items, the hashtable structure
  with its stash, pool, statistics and settings, and the C heap the pool lives in. Two ghost
  fields record what lies outside the structure: \<open>heap\<close>, the allocator, and \<open>calls\<close>, the calls
  the library has made to the client's handlers.
\<close>

section \<open>Values and keys\<close>

text \<open>
  \<open>union coucal_value\<close>: one 64-bit word; \<open>uintg\<close> is the word, \<open>intg\<close> its signed reading, and
  the \<open>ptr\<close> member is \<open>NULL\<close> when the word is zero.
\<close>

type_synonym coucal_value = u64
type_synonym coucal_opaque = u64

text \<open>
  \<open>coucal_key\<close>, a pointer: \<open>NULL\<close>; the address of \<open>the_empty_string\<close>; an address inside a block
  of the C heap that is or was the string pool's (block and offset); or the address of an object
  the pool does not own (the caller's, or one a \<open>dup\<close> handler returned), with the bytes of the
  object. The bytes of a C string are those before its NUL.
\<close>

datatype coucal_key = KNull | KEmpty | KPool nat nat | KExt nat "byte list"

record coucal_item =
  name :: coucal_key
  "value" :: coucal_value
  hashes :: coucal_hashkeys

text \<open>An item after \<open>memset(item, 0, sizeof(*item))\<close> or \<open>calloc\<close>.\<close>

definition null_item :: coucal_item where
  "null_item = \<lparr>name = KNull, value = 0, hashes = null_hashkeys\<rparr>"

section \<open>The C heap\<close>

text \<open>
  The allocator: \<open>hp_next\<close> numbers the requests, and the block a request returns has its number;
  \<open>hp_ok r n\<close> says whether request \<open>r\<close> for \<open>n\<close> bytes succeeds, \<open>hp_move r\<close> whether request \<open>r\<close>,
  a \<open>realloc\<close>, moves the block. No request above \<open>PTRDIFF_MAX\<close> succeeds.
\<close>

record c_heap =
  hp_next :: nat
  hp_ok :: "nat \<Rightarrow> nat \<Rightarrow> bool"
  hp_move :: "nat \<Rightarrow> bool"

definition c_malloc :: "c_heap \<Rightarrow> nat \<Rightarrow> nat option \<times> c_heap" where
  "c_malloc hp n =
     (if n \<le> ptrdiff_max \<and> hp_ok hp (hp_next hp) n then Some (hp_next hp) else None,
      hp\<lparr>hp_next := Suc (hp_next hp)\<rparr>)"

definition c_realloc :: "c_heap \<Rightarrow> nat option \<Rightarrow> nat \<Rightarrow> nat option \<times> c_heap" where
  "c_realloc hp old n =
     (if n \<le> ptrdiff_max \<and> hp_ok hp (hp_next hp) n
      then Some (case old of
                   None \<Rightarrow> hp_next hp
                 | Some b \<Rightarrow> if hp_move hp (hp_next hp) then hp_next hp else b)
      else None,
      hp\<lparr>hp_next := Suc (hp_next hp)\<rparr>)"

section \<open>The hashtable structure\<close>

text \<open>
  The pool's buffer: its block and the bytes written so far, from the start of the block;
  reading beyond them is reading uninitialised memory.
\<close>

record coucal_pool =
  buffer :: "(nat \<times> byte list) option"
  pool_size :: nat
  capacity :: nat
  pool_used :: nat

record coucal_stash =
  stash_items :: "coucal_item list"
  stash_size :: nat
  extent :: nat

record coucal_stats =
  max_stash_size :: nat
  write_count :: u64
  add_count :: u64
  cuckoo_moved :: u64
  stash_added :: u64
  rehash_count :: u64
  pool_compact_count :: u64
  pool_realloc_count :: u64

text \<open>
  A handler that only has an effect on the client (\<open>free\<close>, logging, printing) is known by a
  number; a call of it is recorded in \<open>calls\<close>. A handler whose result the library uses is a
  function: \<open>hash\<close> and \<open>equals\<close> of their opaque argument and the bytes of the keys; \<open>dup\<close> also
  of the calls made so far, on which the client's state may depend.
\<close>

datatype value_free_handler = DefaultFree | UserFree nat

datatype handler_call =
    CallDup coucal_opaque "byte list" coucal_key
  | CallKeyFree nat coucal_opaque coucal_key
  | CallValueFree value_free_handler coucal_opaque coucal_value

type_synonym t_coucal_key_freehandler = nat
type_synonym t_coucal_value_freehandler = value_free_handler
type_synonym t_coucal_duphandler = "coucal_opaque \<Rightarrow> handler_call list \<Rightarrow> byte list \<Rightarrow> coucal_key"
type_synonym t_coucal_hasheshandler = "coucal_opaque \<Rightarrow> byte list \<Rightarrow> coucal_hashkeys"
type_synonym t_coucal_loghandler = nat
type_synonym t_coucal_asserthandler = nat
type_synonym t_coucal_printkeyhandler = nat
type_synonym t_coucal_printvaluehandler = nat
type_synonym t_coucal_cmphandler = "coucal_opaque \<Rightarrow> byte list \<Rightarrow> byte list \<Rightarrow> bool"

record coucal_custom =
  value_free :: "t_coucal_value_freehandler option"
  value_arg :: coucal_opaque
  key_dup :: "t_coucal_duphandler option"
  key_free :: "t_coucal_key_freehandler option"
  key_hash :: "t_coucal_hasheshandler option"
  key_equals :: "t_coucal_cmphandler option"
  key_arg :: coucal_opaque
  error_log :: "t_coucal_loghandler option"
  error_fatal :: "t_coucal_asserthandler option"
  error_arg :: coucal_opaque
  error_name :: "byte list option"
  print_key :: "t_coucal_printkeyhandler option"
  print_value :: "t_coucal_printvaluehandler option"
  print_arg :: coucal_opaque

record struct_coucal =
  items :: "coucal_item list"
  lg_size :: nat
  used :: nat
  stash :: coucal_stash
  pool :: coucal_pool
  stats :: coucal_stats
  custom :: coucal_custom
  heap :: c_heap
  calls :: "handler_call list"

section \<open>Failures\<close>

text \<open>
  \<open>coucal_assert_failed()\<close> ends in \<open>abort()\<close> whatever the handlers do, so a failed assertion is a
  result; each constructor names the assertion by its text. A read or write through a pointer
  that is not to a live object, and a loop that does not end, are results too.
\<close>

datatype assertion =
    A_no_dup_handler            \<comment> \<open>hashtable->custom.key.dup == NULL\<close>
  | A_pool_compaction_error
  | A_dest_lt_max_dest          \<comment> \<open>dest < max_dest\<close>
  | A_pool_size_le_capacity
  | A_pool_allocation_error
  | A_offset_lt_capacity
  | A_pool_size_lt_capacity
  | A_key_staging_error
  | A_pool_room                 \<comment> \<open>len + pool.size <= pool.capacity\<close>
  | A_duplicate_or_bad_release
  | A_pool_used_lt_capacity
  | A_unexpected_position
  | A_cuckoo_stash_collision
  | A_acceptable_pow2
  | A_size_overflow
  | A_hashtable_allocation_error
  | A_pos_ge_prev_size
  | A_bad_position
  | A_duplicate_merging_stash
  | A_stash_size_le_old_size
  | A_inc_ret
  | A_used_nonzero
  | A_dup_free_consistent

datatype coucal_error = AssertFailed assertion | BadPointer | Diverges

type_synonym 'a res = "coucal_error + 'a"

section \<open>Constants and addresses\<close>

definition STASH_SIZE :: nat where "STASH_SIZE = 16"
definition MIN_LG_SIZE :: nat where "MIN_LG_SIZE = 4"
definition MIN_POOL_CAPACITY :: nat where "MIN_POOL_CAPACITY = 256"
definition COUCAL_HASH_SIZE :: nat where "COUCAL_HASH_SIZE = 32"

definition POW2 :: "nat \<Rightarrow> nat" where
  "POW2 x = unat (push_bit x (1 :: u64))"

lemma POW2_eq [simp]:
  assumes "x < 64"
  shows "POW2 x = 2 ^ x"
proof -
  have "(2::nat) ^ x < 2 ^ 64" using assms by (intro power_strict_increasing) simp_all
  then show ?thesis
    unfolding POW2_def unsigned_push_bit_eq by (simp add: take_bit_eq_mod push_bit_eq_mult)
qed

text \<open>The C string at an offset of a block: up to the next NUL, which has to be there.\<close>

definition c_string_at :: "byte list \<Rightarrow> nat \<Rightarrow> byte list option" where
  "c_string_at bs off =
     (if 0 \<in> set (drop off bs) then Some (takeWhile (\<lambda>c. c \<noteq> 0) (drop off bs)) else None)"

definition deref :: "coucal_pool \<Rightarrow> coucal_key \<Rightarrow> byte list option" where
  "deref p k =
     (case k of
        KNull \<Rightarrow> None
      | KEmpty \<Rightarrow> Some []
      | KPool b off \<Rightarrow>
          (case buffer p of
             None \<Rightarrow> None
           | Some (b', bs) \<Rightarrow> if b' = b then c_string_at bs off else None)
      | KExt a s \<Rightarrow> Some s)"

definition read_key :: "struct_coucal \<Rightarrow> coucal_key \<Rightarrow> byte list res" where
  "read_key h k = (case deref (pool h) k of None \<Rightarrow> Inl BadPointer | Some s \<Rightarrow> Inr s)"

section \<open>Hashing and comparing keys\<close>

definition hash_of :: "coucal_custom \<Rightarrow> byte list \<Rightarrow> coucal_hashkeys" where
  "hash_of c s = (case key_hash c of None \<Rightarrow> coucal_hash_string s | Some f \<Rightarrow> f (key_arg c) s)"

text \<open>The default comparison is \<open>strcmp(a, b) == 0\<close>.\<close>

definition equals_of :: "coucal_custom \<Rightarrow> byte list \<Rightarrow> byte list \<Rightarrow> bool" where
  "equals_of c a b = (case key_equals c of None \<Rightarrow> a = b | Some f \<Rightarrow> f (key_arg c) a b)"

definition coucal_calc_hashes :: "struct_coucal \<Rightarrow> coucal_key \<Rightarrow> coucal_hashkeys res" where
  "coucal_calc_hashes h k = bind_res (read_key h k) (\<lambda>s. Inr (hash_of (custom h) s))"

definition coucal_equals :: "struct_coucal \<Rightarrow> coucal_key \<Rightarrow> coucal_key \<Rightarrow> bool res" where
  "coucal_equals h a b =
     bind_res (read_key h a) (\<lambda>s. bind_res (read_key h b) (\<lambda>t. Inr (equals_of (custom h) s t)))"

end
