(* ===== verification/Table.thy ===== *)
theory Table
  imports State
begin

text \<open>
  The table proper of \<open>src/coucal.c\<close>: the slot a hash selects, testing and matching slots, placing
  an item by cuckoo moves with the stash as the last resort (\<open>coucal_add_item_()\<close>), and moving
  stashed items back (\<open>coucal_drain_stash()\<close>). The lemmas state the structural invariant of table
  and stash, and that each operation keeps it and keeps the multiset of live items.
\<close>

section \<open>Positions\<close>

definition coucal_hash_to_pos_i :: "nat \<Rightarrow> u32 \<Rightarrow> nat" where
  "coucal_hash_to_pos_i lg hash =
     (let mask = (ucast (push_bit lg (1 :: u64) - 1) :: u32) in unat (hash AND mask))"

definition coucal_hash_to_pos :: "struct_coucal \<Rightarrow> u32 \<Rightarrow> nat" where
  "coucal_hash_to_pos h hash = coucal_hash_to_pos_i (lg_size h) hash"

lemma ucast_mask: "lg \<le> 32 \<Longrightarrow> (ucast (push_bit lg (1 :: u64) - 1) :: u32) = mask lg"
  by (rule bit_word_eqI) (simp add: bit_simps flip: mask_eq_exp_minus_1)

lemma coucal_hash_to_pos_mod:
  assumes "lg \<le> 32"
  shows "coucal_hash_to_pos_i lg hash = unat hash mod 2 ^ lg"
proof -
  have "coucal_hash_to_pos_i lg hash = unat (take_bit lg hash)"
    using assms by (simp only: coucal_hash_to_pos_def ucast_mask Let_def coucal_hash_to_pos_i_def
        take_bit_eq_mask)
  then show ?thesis by (simp only: unsigned_take_bit_eq) (simp only: take_bit_eq_mod)
qed

lemma coucal_hash_to_pos_less [simp]: "lg \<le> 32 \<Longrightarrow> coucal_hash_to_pos_i lg hash < 2 ^ lg"
  by (simp add: coucal_hash_to_pos_mod)

text \<open>Doubling the table keeps a hash's position or moves it up by the old size.\<close>

lemma coucal_hash_to_pos_Suc:
  assumes "Suc lg \<le> 32"
  shows "coucal_hash_to_pos_i (Suc lg) hash = coucal_hash_to_pos_i lg hash
       \<or> coucal_hash_to_pos_i (Suc lg) hash = coucal_hash_to_pos_i lg hash + 2 ^ lg"
proof -
  have "unat hash mod (2 ^ lg * 2)
      = 2 ^ lg * (unat hash div 2 ^ lg mod 2) + unat hash mod 2 ^ lg"
    by (rule mod_mult2_eq)
  moreover have "unat hash div 2 ^ lg mod 2 = 0 \<or> unat hash div 2 ^ lg mod 2 = 1" by linarith
  ultimately show ?thesis using assms by (auto simp: coucal_hash_to_pos_mod mult.commute)
qed

section \<open>Slots\<close>

definition coucal_is_free :: "struct_coucal \<Rightarrow> nat \<Rightarrow> bool" where
  "coucal_is_free h pos \<longleftrightarrow> name (items h ! pos) = KNull"

definition coucal_matches_i ::
  "struct_coucal \<Rightarrow> coucal_item \<Rightarrow> coucal_key \<Rightarrow> coucal_hashkeys \<Rightarrow> bool res" where
  "coucal_matches_i h item nm hk =
     (if name item \<noteq> KNull \<and> hash1 (hashes item) = hash1 hk \<and> hash2 (hashes item) = hash2 hk
      then coucal_equals h (name item) nm
      else Inr False)"

definition coucal_matches ::
  "struct_coucal \<Rightarrow> nat \<Rightarrow> coucal_key \<Rightarrow> coucal_hashkeys \<Rightarrow> bool res" where
  "coucal_matches h pos nm hk = coucal_matches_i h (items h ! pos) nm hk"

definition set_item :: "struct_coucal \<Rightarrow> nat \<Rightarrow> coucal_item \<Rightarrow> struct_coucal" where
  "set_item h pos item = h\<lparr>items := (items h)[pos := item]\<rparr>"

definition set_stash_item :: "struct_coucal \<Rightarrow> nat \<Rightarrow> coucal_item \<Rightarrow> struct_coucal" where
  "set_stash_item h i item =
     h\<lparr>stash := (stash h)\<lparr>stash_items := (stash_items (stash h))[i := item]\<rparr>\<rparr>"

definition set_stash_size :: "struct_coucal \<Rightarrow> nat \<Rightarrow> struct_coucal" where
  "set_stash_size h n = h\<lparr>stash := (stash h)\<lparr>stash_size := n\<rparr>\<rparr>"

definition set_extent :: "struct_coucal \<Rightarrow> nat \<Rightarrow> struct_coucal" where
  "set_extent h n = h\<lparr>stash := (stash h)\<lparr>extent := n\<rparr>\<rparr>"

section \<open>Adding an item\<close>

definition count_move :: "struct_coucal \<Rightarrow> struct_coucal" where
  "count_move h = h\<lparr>stats := (stats h)\<lparr>cuckoo_moved := cuckoo_moved (stats h) + 1\<rparr>\<rparr>"

text \<open>The hash under which an item just kicked from \<open>pos\<close> is placed on the next run.\<close>

definition next_cuckoo_hash :: "struct_coucal \<Rightarrow> nat \<Rightarrow> coucal_item \<Rightarrow> u32 res" where
  "next_cuckoo_hash h pos item =
     (if pos = coucal_hash_to_pos h (hash1 (hashes item)) then Inr (hash2 (hashes item))
      else if pos = coucal_hash_to_pos h (hash2 (hashes item)) then Inr (hash1 (hashes item))
      else Inl (AssertFailed A_unexpected_position))"

text \<open>
  The loop \<open>for(loops = POW2(lg_size) ; loops != 0 ; --loops)\<close>. The second component of the
  result is the item still in hand when the loop ends without a free slot.
\<close>

fun cuckoo_loop ::
  "nat \<Rightarrow> struct_coucal \<Rightarrow> coucal_item \<Rightarrow> u32 \<Rightarrow> u32 \<Rightarrow> (struct_coucal \<times> coucal_item option) res"
where
  "cuckoo_loop 0 h item cuckoo_hash initial_cuckoo_hash = Inr (h, Some item)"
| "cuckoo_loop (Suc loops) h item cuckoo_hash initial_cuckoo_hash =
     (let pos = coucal_hash_to_pos h cuckoo_hash in
      if coucal_is_free h pos then Inr (set_item h pos item, None)
      else
        let backup_item = items h ! pos;
            h = count_move (set_item h pos item);
            item = backup_item
        in bind_res (next_cuckoo_hash h pos item) (\<lambda>cuckoo_hash.
             if cuckoo_hash = initial_cuckoo_hash then Inr (h, Some item)
             else cuckoo_loop loops h item cuckoo_hash initial_cuckoo_hash))"

text \<open>\<open>for (i = 0; i < extent && items[i].name != NULL; i++)\<close>, by the slots left.\<close>

fun first_hole :: "coucal_item list \<Rightarrow> nat \<Rightarrow> nat \<Rightarrow> nat" where
  "first_hole xs i 0 = i"
| "first_hole xs i (Suc n) = (if name (xs ! i) \<noteq> KNull then first_hole xs (Suc i) n else i)"

definition count_stashed :: "struct_coucal \<Rightarrow> struct_coucal" where
  "count_stashed h =
     (let st = (stats h)\<lparr>stash_added := stash_added (stats h) + 1\<rparr>
      in h\<lparr>stats := (if max_stash_size st < stash_size (stash h)
                    then st\<lparr>max_stash_size := stash_size (stash h)\<rparr> else st)\<rparr>)"

definition emergency_stash :: "struct_coucal \<Rightarrow> coucal_item \<Rightarrow> (struct_coucal \<times> int) res" where
  "emergency_stash h item =
     (if stash_size (stash h) < STASH_SIZE then
        let i = first_hole (stash_items (stash h)) 0 (extent (stash h));
            h = (if i = extent (stash h) then set_extent h (size_add (extent (stash h)) 1) else h);
            h = set_stash_item h i item;
            h = set_stash_size h (size_add (stash_size (stash h)) 1)
        in Inr (count_stashed h, 1)
      else Inl (AssertFailed A_cuckoo_stash_collision))"

definition coucal_add_item_i :: "struct_coucal \<Rightarrow> coucal_item \<Rightarrow> (struct_coucal \<times> int) res" where
  "coucal_add_item_i h item =
     (let pos = coucal_hash_to_pos h (hash1 (hashes item)) in
      if coucal_is_free h pos then Inr (set_item h pos item, 1)
      else
        let pos = coucal_hash_to_pos h (hash2 (hashes item)) in
        if coucal_is_free h pos then Inr (set_item h pos item, 1)
        else
          bind_res
            (cuckoo_loop (POW2 (lg_size h)) h item (hash1 (hashes item)) (hash1 (hashes item)))
            (\<lambda>r. case r of
               (h, None) \<Rightarrow> Inr (h, 1)
             | (h, Some item) \<Rightarrow> emergency_stash h item))"

section \<open>Draining the stash\<close>

definition drain_slot :: "struct_coucal \<Rightarrow> nat \<Rightarrow> struct_coucal" where
  "drain_slot h i =
     (let item = stash_items (stash h) ! i in
      if name item \<noteq> KNull then
        let pos1 = coucal_hash_to_pos h (hash1 (hashes item));
            pos2 = coucal_hash_to_pos h (hash2 (hashes item));
            pos = (if coucal_is_free h pos1 then Some pos1
                   else if coucal_is_free h pos2 then Some pos2 else None)
        in case pos of
             None \<Rightarrow> h
           | Some p \<Rightarrow>
               let h = set_item h p item;
                   h = set_stash_item h i null_item
               in set_stash_size h (size_sub (stash_size (stash h)) 1)
      else h)"

text \<open>\<open>while (extent != 0 && items[extent - 1].name == NULL) extent--\<close>\<close>

fun trim_extent :: "coucal_item list \<Rightarrow> nat \<Rightarrow> nat" where
  "trim_extent xs 0 = 0"
| "trim_extent xs (Suc n) = (if name (xs ! n) = KNull then trim_extent xs n else Suc n)"

definition coucal_drain_stash :: "struct_coucal \<Rightarrow> struct_coucal" where
  "coucal_drain_stash h =
     (let h = foldl drain_slot h [0..<extent (stash h)]
      in set_extent h (trim_extent (stash_items (stash h)) (extent (stash h))))"

section \<open>Live items and the structural invariant\<close>

definition live_of :: "coucal_item list \<Rightarrow> coucal_item multiset" where
  "live_of xs = filter_mset (\<lambda>it. name it \<noteq> KNull) (mset xs)"

definition live :: "struct_coucal \<Rightarrow> coucal_item multiset" where
  "live h = live_of (items h) + live_of (stash_items (stash h))"

text \<open>Every item of the table is at the position of one of its two hashes.\<close>

definition well_placed :: "nat \<Rightarrow> nat \<Rightarrow> coucal_item \<Rightarrow> bool" where
  "well_placed lg i it \<longleftrightarrow>
     i = coucal_hash_to_pos_i lg (hash1 (hashes it)) \<or> i = coucal_hash_to_pos_i lg (hash2 (hashes it))"

definition placed :: "nat \<Rightarrow> coucal_item list \<Rightarrow> bool" where
  "placed lg xs \<longleftrightarrow> (\<forall>i < length xs. name (xs ! i) \<noteq> KNull \<longrightarrow> well_placed lg i (xs ! i))"

definition table_inv :: "struct_coucal \<Rightarrow> bool" where
  "table_inv h \<longleftrightarrow>
     MIN_LG_SIZE \<le> lg_size h \<and> lg_size h \<le> COUCAL_HASH_SIZE \<and>
     length (items h) = 2 ^ lg_size h \<and> placed (lg_size h) (items h)"

text \<open>
  The stash: \<open>size\<close> counts the live entries, all of them below \<open>extent\<close> (\<open>stash_core\<close>), and
  between operations the entry just below \<open>extent\<close> is live.
\<close>

definition stash_core :: "coucal_stash \<Rightarrow> bool" where
  "stash_core st \<longleftrightarrow>
     length (stash_items st) = STASH_SIZE \<and> extent st \<le> STASH_SIZE \<and>
     stash_size st = size (live_of (stash_items st)) \<and>
     (\<forall>i. extent st \<le> i \<and> i < STASH_SIZE \<longrightarrow> name (stash_items st ! i) = KNull)"

definition stash_inv :: "coucal_stash \<Rightarrow> bool" where
  "stash_inv st \<longleftrightarrow>
     stash_core st \<and> (extent st \<noteq> 0 \<longrightarrow> name (stash_items st ! (extent st - 1)) \<noteq> KNull)"

lemma live_of_simps [simp]:
  "live_of [] = {#}"
  "live_of (x # xs) = (if name x = KNull then live_of xs else add_mset x (live_of xs))"
  "live_of (xs @ ys) = live_of xs + live_of ys"
  by (simp_all add: live_of_def)

lemma live_of_replicate [simp]: "name x = KNull \<Longrightarrow> live_of (replicate n x) = {#}"
  by (induction n) simp_all

lemma null_item_simps [simp]:
  "name null_item = KNull" "value null_item = 0" "hashes null_item = null_hashkeys"
  by (simp_all add: null_item_def)

lemma in_live_of: "it \<in># live_of xs \<longleftrightarrow> it \<in> set xs \<and> name it \<noteq> KNull"
  by (auto simp: live_of_def)

lemma live_of_set_new:
  "i < length xs \<Longrightarrow> name (xs ! i) = KNull \<Longrightarrow> name it \<noteq> KNull \<Longrightarrow>
   live_of (xs[i := it]) = add_mset it (live_of xs)"
  by (simp add: live_of_def filter_mset_update_new)

lemma live_of_set_free:
  "i < length xs \<Longrightarrow> name (xs ! i) \<noteq> KNull \<Longrightarrow> name it = KNull \<Longrightarrow>
   live_of xs = add_mset (xs ! i) (live_of (xs[i := it]))"
  by (simp add: live_of_def filter_mset_update_del)

lemma live_of_set_swap:
  "i < length xs \<Longrightarrow> name (xs ! i) \<noteq> KNull \<Longrightarrow> name it \<noteq> KNull \<Longrightarrow>
   add_mset (xs ! i) (live_of (xs[i := it])) = add_mset it (live_of xs)"
  by (simp add: live_of_def filter_mset_update_swap)

lemma nth_in_live_of: "i < length xs \<Longrightarrow> name (xs ! i) \<noteq> KNull \<Longrightarrow> xs ! i \<in># live_of xs"
  by (simp add: in_live_of)

lemma placed_update:
  "placed lg xs \<Longrightarrow> name it = KNull \<or> well_placed lg i it \<Longrightarrow> placed lg (xs[i := it])"
  by (cases "i < length xs") (auto simp: placed_def nth_list_update list_update_beyond)

lemma well_placed_hash_to_pos [simp, intro]:
  "well_placed lg (coucal_hash_to_pos_i lg (hash1 (hashes it))) it"
  "well_placed lg (coucal_hash_to_pos_i lg (hash2 (hashes it))) it"
  by (simp_all add: well_placed_def)

lemma table_invD:
  assumes "table_inv h"
  shows "lg_size h \<le> 32" and "4 \<le> lg_size h" and "length (items h) = 2 ^ lg_size h"
    and "placed (lg_size h) (items h)"
  using assms by (auto simp: table_inv_def MIN_LG_SIZE_def COUCAL_HASH_SIZE_def)

lemma hash_to_pos_in_items:
  "table_inv h \<Longrightarrow> coucal_hash_to_pos h hash < length (items h)"
  by (simp add: coucal_hash_to_pos_def table_invD)

lemma table_inv_set_item:
  assumes "table_inv h" and "name it = KNull \<or> well_placed (lg_size h) i it"
  shows "table_inv (set_item h i it)"
  using assms by (auto simp: table_inv_def set_item_def intro: placed_update)

section \<open>The cuckoo loop\<close>

text \<open>
  The loop only changes the items and the statistics, keeps the structural invariant, and loses
  no item: the live items and the one still in hand are the old live items and the new one.
\<close>

lemma next_cuckoo_hash_ok:
  assumes "table_inv h" and "pos < length (items h)" and "name (items h ! pos) \<noteq> KNull"
    and "lg_size h' = lg_size h"
  shows "\<exists>ch. next_cuckoo_hash h' pos (items h ! pos) = Inr ch
            \<and> ch \<in> {hash1 (hashes (items h ! pos)), hash2 (hashes (items h ! pos))}"
proof -
  have "well_placed (lg_size h) pos (items h ! pos)"
    using assms(2,3) table_invD(4) [OF assms(1)] by (simp add: placed_def)
  then show ?thesis
    by (auto simp: next_cuckoo_hash_def well_placed_def coucal_hash_to_pos_def assms(4))
qed

lemma well_placed_at_hash:
  "ch \<in> {hash1 (hashes it), hash2 (hashes it)} \<Longrightarrow> well_placed lg (coucal_hash_to_pos_i lg ch) it"
  by auto

abbreviation in_hand :: "coucal_item option \<Rightarrow> coucal_item multiset" where
  "in_hand r \<equiv> (case r of None \<Rightarrow> {#} | Some it \<Rightarrow> {#it#})"

text \<open>One displacement: \<open>item\<close> takes an occupied slot and the item that was there is in hand.\<close>

lemma displace_correct:
  assumes inv: "table_inv h" and "name item \<noteq> KNull" and ch: "ch \<in> {hash1 (hashes item), hash2 (hashes item)}"
  defines "pos \<equiv> coucal_hash_to_pos h ch" and "h' \<equiv> count_move (set_item h (coucal_hash_to_pos h ch) item)"
  assumes taken: "name (items h ! pos) \<noteq> KNull"
  shows "table_inv h'" and "lg_size h' = lg_size h"
    and "\<exists>ch'. next_cuckoo_hash h' pos (items h ! pos) = Inr ch' \<and>
      ch' \<in> {hash1 (hashes (items h ! pos)), hash2 (hashes (items h ! pos))}"
    and "add_mset (items h ! pos) (live_of (items h')) = add_mset item (live_of (items h))"
    and "h'\<lparr>items := xs, stats := st\<rparr> = h\<lparr>items := xs, stats := st\<rparr>"
proof -
  have pos: "pos < length (items h)" unfolding pos_def by (rule hash_to_pos_in_items [OF inv])
  have "well_placed (lg_size h) pos item"
    using ch unfolding pos_def coucal_hash_to_pos_def by (rule well_placed_at_hash)
  then have "table_inv (set_item h pos item)" using inv by (intro table_inv_set_item) simp_all
  then show "table_inv h'" by (simp add: h'_def pos_def count_move_def set_item_def table_inv_def)
  show lg: "lg_size h' = lg_size h" and "h'\<lparr>items := xs, stats := st\<rparr> = h\<lparr>items := xs, stats := st\<rparr>"
    by (simp_all add: h'_def count_move_def set_item_def)
  show "\<exists>ch'. next_cuckoo_hash h' pos (items h ! pos) = Inr ch' \<and>
      ch' \<in> {hash1 (hashes (items h ! pos)), hash2 (hashes (items h ! pos))}"
    using next_cuckoo_hash_ok [OF inv pos taken lg] by blast
  have "items h' = (items h)[pos := item]" by (simp add: h'_def pos_def count_move_def set_item_def)
  then show "add_mset (items h ! pos) (live_of (items h')) = add_mset item (live_of (items h))"
    using live_of_set_swap [OF pos taken assms(2)] by simp
qed

text \<open>What a walk from \<open>h\<close> with \<open>item\<close> in hand may end with.\<close>

definition walk_ok :: "struct_coucal \<Rightarrow> coucal_item \<Rightarrow> (struct_coucal \<times> coucal_item option) res \<Rightarrow> bool" where
  "walk_ok h item result \<longleftrightarrow>
     (\<exists>xs st r. result = Inr (h\<lparr>items := xs, stats := st\<rparr>, r)
           \<and> table_inv (h\<lparr>items := xs, stats := st\<rparr>)
           \<and> live_of xs + in_hand r = add_mset item (live_of (items h))
           \<and> (\<forall>it. r = Some it \<longrightarrow> name it \<noteq> KNull))"

lemma walk_ok_free:
  assumes "table_inv (set_item h pos item)" and "pos < length (items h)"
    and "name (items h ! pos) = KNull" and "name item \<noteq> KNull"
  shows "walk_ok h item (Inr (set_item h pos item, None))"
  unfolding walk_ok_def using assms(1) live_of_set_new [OF assms(2-4)]
  by (intro exI [of _ "(items h)[pos := item]"] exI [of _ "stats h"] exI [of _ None])
    (simp add: set_item_def)

lemma walk_ok_stop:
  assumes "table_inv h" and "name item \<noteq> KNull"
  shows "walk_ok h item (Inr (h, Some item))"
  unfolding walk_ok_def using assms
  by (intro exI [of _ "items h"] exI [of _ "stats h"] exI [of _ "Some item"]) simp

text \<open>A walk that goes on from the displaced item is one from the item that displaced it.\<close>

lemma walk_ok_displaced:
  assumes "add_mset it' (live_of (items h')) = add_mset item (live_of (items h))"
    and "\<And>xs st. h'\<lparr>items := xs, stats := st\<rparr> = h\<lparr>items := xs, stats := st\<rparr>"
  shows "walk_ok h' it' result \<longleftrightarrow> walk_ok h item result"
  by (simp add: walk_ok_def assms)

lemma cuckoo_loop_correct:
  assumes "table_inv h" and "name item \<noteq> KNull"
    and "ch \<in> {hash1 (hashes item), hash2 (hashes item)}"
  shows "walk_ok h item (cuckoo_loop loops h item ch ch0)"
  using assms
proof (induction loops arbitrary: h item ch)
  case 0
  then show ?case by (simp add: walk_ok_stop)
next
  case (Suc loops)
  define pos where "pos = coucal_hash_to_pos h ch"
  have pos: "pos < length (items h)"
    unfolding pos_def by (rule hash_to_pos_in_items) (rule Suc.prems)
  have "well_placed (lg_size h) pos item"
    using Suc.prems(3) unfolding pos_def coucal_hash_to_pos_def by (rule well_placed_at_hash)
  then have inv: "table_inv (set_item h pos item)"
    using Suc.prems(1) by (intro table_inv_set_item) simp_all
  show ?case
  proof (cases "name (items h ! pos) = KNull")
    case True
    then show ?thesis using walk_ok_free [OF inv pos True Suc.prems(2)]
      by (simp add: coucal_is_free_def flip: pos_def)
  next
    case False
    define h' where "h' = count_move (set_item h pos item)"
    define it' where "it' = items h ! pos"
    have live': "name it' \<noteq> KNull" using False by (simp add: it'_def)
    note move = displace_correct [OF Suc.prems False [unfolded pos_def], folded pos_def, folded h'_def it'_def]
    obtain ch' where ch': "next_cuckoo_hash h' pos it' = Inr ch'"
        "ch' \<in> {hash1 (hashes it'), hash2 (hashes it')}"
      using move(3) by blast
    have "cuckoo_loop (Suc loops) h item ch ch0 =
        (if ch' = ch0 then Inr (h', Some it') else cuckoo_loop loops h' it' ch' ch0)"
      using False ch'(1) by (simp add: coucal_is_free_def h'_def it'_def flip: pos_def)
    moreover have "walk_ok h' it' (Inr (h', Some it'))" by (rule walk_ok_stop [OF move(1) live'])
    ultimately show ?thesis
      using Suc.IH [OF move(1) live' ch'(2)] walk_ok_displaced [OF move(4,5)] by simp
  qed
qed

section \<open>The stash\<close>

lemma first_hole_bounds: "i \<le> first_hole xs i n \<and> first_hole xs i n \<le> i + n"
  by (induction xs i n rule: first_hole.induct) auto

lemma first_hole_free: "first_hole xs i n < i + n \<Longrightarrow> name (xs ! first_hole xs i n) = KNull"
  by (induction xs i n rule: first_hole.induct) (auto split: if_splits)

lemma first_hole_before: "i \<le> j \<Longrightarrow> j < first_hole xs i n \<Longrightarrow> name (xs ! j) \<noteq> KNull"
proof (induction xs i n rule: first_hole.induct)
  case (2 xs i n)
  then show ?case by (cases "j = i") (auto split: if_splits)
qed simp

lemma live_of_all:
  assumes "\<And>i. i < length xs \<Longrightarrow> name (xs ! i) \<noteq> KNull"
  shows "live_of xs = mset xs"
proof -
  have "\<forall>it \<in> set xs. name it \<noteq> KNull" using assms by (auto simp: in_set_conv_nth)
  then show ?thesis by (simp add: live_of_def filter_mset_eq_conv)
qed

lemma live_of_none: "(\<And>i. i < length xs \<Longrightarrow> name (xs ! i) = KNull) \<Longrightarrow> live_of xs = {#}"
  by (auto simp: live_of_def filter_mset_eq_mempty_iff in_set_conv_nth)

lemma size_live_of_le: "size (live_of xs) \<le> length xs"
  by (metis live_of_def size_filter_mset_lesseq size_mset)

lemma stash_coreD:
  assumes "stash_core st"
  shows "length (stash_items st) = 16" and "extent st \<le> 16"
    and "stash_size st = size (live_of (stash_items st))" and "stash_size st \<le> 16"
    and "extent st \<le> i \<Longrightarrow> i < 16 \<Longrightarrow> name (stash_items st ! i) = KNull"
  using assms size_live_of_le [of "stash_items st"] by (auto simp: stash_core_def STASH_SIZE_def)

lemma stash_invD:
  assumes "stash_inv st"
  shows "length (stash_items st) = 16" and "extent st \<le> 16"
    and "stash_size st = size (live_of (stash_items st))" and "stash_size st \<le> 16"
    and "extent st \<le> i \<Longrightarrow> i < 16 \<Longrightarrow> name (stash_items st ! i) = KNull"
    and "extent st \<noteq> 0 \<Longrightarrow> name (stash_items st ! (extent st - 1)) \<noteq> KNull"
  using assms stash_coreD [of st] by (simp_all add: stash_inv_def)

lemma live_of_stash_zero:
  "stash_inv st \<Longrightarrow> stash_size st = 0 \<Longrightarrow> live_of (stash_items st) = {#}"
  by (metis size_eq_0_iff_empty stash_invD(3))

text \<open>A hole exists while the stash is not full, so the slot the search ends at is in range.\<close>

lemma first_hole_in_stash:
  assumes "stash_inv st" and "stash_size st < 16"
  defines "i \<equiv> first_hole (stash_items st) 0 (extent st)"
  shows "i < 16" and "name (stash_items st ! i) = KNull" and "i \<le> extent st"
proof -
  have le: "i \<le> extent st" using first_hole_bounds [of 0 "stash_items st" "extent st"]
    by (simp add: i_def)
  show lt: "i < 16"
  proof (rule ccontr)
    assume "\<not> i < 16"
    with le stash_invD(1,2) [OF assms(1)] have "length (stash_items st) = i" by simp
    then have "live_of (stash_items st) = mset (stash_items st)"
      unfolding i_def by (intro live_of_all) (metis first_hole_before le0)
    then show False using assms(2) stash_invD(1,3) [OF assms(1)] by simp
  qed
  show "name (stash_items st ! i) = KNull"
  proof (cases "i < extent st")
    case True
    then show ?thesis unfolding i_def by (intro first_hole_free) simp
  next
    case False
    then show ?thesis using stash_invD(5) [OF assms(1)] lt by simp
  qed
  show "i \<le> extent st" by (rule le)
qed

text \<open>What an operation on the slots leaves alone.\<close>

definition slots_frame :: "struct_coucal \<Rightarrow> struct_coucal \<Rightarrow> bool" where
  "slots_frame h h' \<longleftrightarrow>
     lg_size h' = lg_size h \<and> used h' = used h \<and> pool h' = pool h \<and> custom h' = custom h \<and>
     heap h' = heap h \<and> calls h' = calls h"

definition slots_inv :: "struct_coucal \<Rightarrow> bool" where
  "slots_inv h \<longleftrightarrow> table_inv h \<and> stash_inv (stash h)"

lemma slots_frame_refl [simp]: "slots_frame h h"
  by (simp add: slots_frame_def)

lemma slots_frame_trans: "slots_frame h h' \<Longrightarrow> slots_frame h' h'' \<Longrightarrow> slots_frame h h''"
  by (simp add: slots_frame_def)

lemma slots_frameD:
  assumes "slots_frame h h'"
  shows "lg_size h' = lg_size h" "used h' = used h" "pool h' = pool h" "custom h' = custom h"
    "heap h' = heap h" "calls h' = calls h"
  using assms by (simp_all add: slots_frame_def)

lemma emergency_stash_correct:
  assumes "slots_inv h" and "name item \<noteq> KNull" and "stash_size (stash h) < 16"
  shows "\<exists>h'. emergency_stash h item = Inr (h', 1) \<and> slots_frame h h' \<and> slots_inv h'
    \<and> live h' = add_mset item (live h) \<and> items h' = items h
    \<and> stash_size (stash h') = Suc (stash_size (stash h))"
proof -
  define st where "st = stash h"
  define i where "i = first_hole (stash_items st) 0 (extent st)"
  have inv: "stash_inv st" using assms(1) by (simp add: slots_inv_def st_def)
  note hole = first_hole_in_stash [OF inv, folded i_def]
  note stD = stash_invD [OF inv]
  define st' where "st' = st\<lparr>extent := (if i = extent st then Suc (extent st) else extent st),
    stash_items := (stash_items st)[i := item], stash_size := Suc (stash_size st)\<rparr>"
  have lt: "stash_size st < 16" using assms(3) by (simp add: st_def)
  have live: "live_of (stash_items st') = add_mset item (live_of (stash_items st))"
    using hole(1,2) [OF lt] assms(2) stD(1) by (simp add: st'_def live_of_set_new)
  have "stash_inv st'"
    unfolding stash_inv_def stash_core_def
  proof (intro conjI allI impI)
    show "length (stash_items st') = STASH_SIZE" using stD(1) by (simp add: st'_def STASH_SIZE_def)
    show "extent st' \<le> STASH_SIZE" using stD(2) hole(1) [OF lt]
      by (simp add: st'_def STASH_SIZE_def)
    show "stash_size st' = size (live_of (stash_items st'))" using stD(3) live
      by (simp add: st'_def)
    show "name (stash_items st' ! j) = KNull" if "extent st' \<le> j \<and> j < STASH_SIZE" for j
      using that stD(5) hole(3) [OF lt]
      by (auto simp: st'_def STASH_SIZE_def nth_list_update split: if_splits)
    show "name (stash_items st' ! (extent st' - 1)) \<noteq> KNull" if "extent st' \<noteq> 0"
      using that stD(1,6) hole(1) [OF lt] assms(2)
      by (auto simp: st'_def nth_list_update split: if_splits)
  qed
  then have inv': "slots_inv (h\<lparr>stash := st', stats := stt\<rparr>)" for stt
    using assms(1) by (simp add: slots_inv_def table_inv_def)
  have sizes: "size_add (extent st) (Suc 0) = Suc (extent st)"
      "size_add (stash_size st) (Suc 0) = Suc (stash_size st)"
    using stD(2,4) by simp_all
  have "emergency_stash h item = Inr (count_stashed (h\<lparr>stash := st'\<rparr>), 1)"
    using lt by (cases "i = extent st")
      (simp_all add: emergency_stash_def Let_def STASH_SIZE_def set_stash_item_def
        set_stash_size_def set_extent_def st'_def sizes flip: st_def i_def)
  then obtain stt where "emergency_stash h item = Inr (h\<lparr>stash := st', stats := stt\<rparr>, 1)"
    by (simp add: count_stashed_def Let_def)
  then show ?thesis
    using inv' [of stt] live
    by (intro exI [of _ "h\<lparr>stash := st', stats := stt\<rparr>"])
      (simp add: slots_frame_def live_def st'_def flip: st_def)
qed

lemma emergency_stash_full:
  "stash_size (stash h) = 16 \<Longrightarrow>
   emergency_stash h item = Inl (AssertFailed A_cuckoo_stash_collision)"
  by (simp add: emergency_stash_def STASH_SIZE_def)

section \<open>Adding an item keeps the invariant and loses nothing\<close>

lemma add_to_free_slot:
  assumes "slots_inv h" and "name item \<noteq> KNull" and "coucal_is_free h pos"
    and "pos = coucal_hash_to_pos h (hash1 (hashes item))
       \<or> pos = coucal_hash_to_pos h (hash2 (hashes item))"
  shows "slots_frame h (set_item h pos item)" and "slots_inv (set_item h pos item)"
    and "live (set_item h pos item) = add_mset item (live h)"
    and "stash (set_item h pos item) = stash h"
proof -
  have inv: "table_inv h" using assms(1) by (simp add: slots_inv_def)
  have pos: "pos < length (items h)" using assms(4) hash_to_pos_in_items [OF inv] by blast
  have "well_placed (lg_size h) pos item"
    using assms(4) by (auto simp: well_placed_def coucal_hash_to_pos_def)
  then show "slots_inv (set_item h pos item)"
    using assms(1) by (simp add: slots_inv_def table_inv_set_item) (simp add: set_item_def)
  show "slots_frame h (set_item h pos item)" and "stash (set_item h pos item) = stash h"
    by (simp_all add: slots_frame_def set_item_def)
  show "live (set_item h pos item) = add_mset item (live h)"
    using pos assms(2,3) by (simp add: live_def set_item_def coucal_is_free_def live_of_set_new)
qed

text \<open>The cuckoo moves of a table: at most one item is left in hand.\<close>

lemma cuckoo_moves_correct:
  assumes "slots_inv h" and "name item \<noteq> KNull"
  obtains h1 r where "cuckoo_loop (POW2 (lg_size h)) h item (hash1 (hashes item)) (hash1 (hashes item)) = Inr (h1, r)"
    and "slots_inv h1" and "slots_frame h h1" and "stash h1 = stash h"
    and "live h1 + in_hand r = add_mset item (live h)" and "\<forall>it. r = Some it \<longrightarrow> name it \<noteq> KNull"
proof -
  have inv: "table_inv h" and sinv: "stash_inv (stash h)"
    using assms(1) by (simp_all add: slots_inv_def)
  from cuckoo_loop_correct [where loops = "POW2 (lg_size h)", OF inv assms(2), of "hash1 (hashes item)"
      "hash1 (hashes item)"]
  obtain xs stt r where "cuckoo_loop (POW2 (lg_size h)) h item (hash1 (hashes item))
        (hash1 (hashes item)) = Inr (h\<lparr>items := xs, stats := stt\<rparr>, r)"
      "table_inv (h\<lparr>items := xs, stats := stt\<rparr>)"
      "live_of xs + in_hand r = add_mset item (live_of (items h))"
      "\<forall>it. r = Some it \<longrightarrow> name it \<noteq> KNull" by (auto simp: walk_ok_def)
  then show ?thesis using sinv
    by (intro that [of "h\<lparr>items := xs, stats := stt\<rparr>" r])
      (simp_all add: slots_inv_def slots_frame_def live_def
        union_assoc union_commute [of "in_hand r"] flip: union_assoc)
qed

text \<open>Both positions taken: the item that is left in hand after the moves goes to the stash.\<close>

lemma add_after_moves:
  assumes "slots_inv h" and "name item \<noteq> KNull"
    and "\<not> coucal_is_free h (coucal_hash_to_pos h (hash1 (hashes item)))"
    and "\<not> coucal_is_free h (coucal_hash_to_pos h (hash2 (hashes item)))"
  shows "(\<exists>h'. coucal_add_item_i h item = Inr (h', 1) \<and> slots_frame h h' \<and> slots_inv h'
            \<and> live h' = add_mset item (live h)
            \<and> stash_size (stash h') \<le> Suc (stash_size (stash h)))
       \<or> (coucal_add_item_i h item = Inl (AssertFailed A_cuckoo_stash_collision)
            \<and> stash_size (stash h) = 16)"
proof -
  obtain h1 r where loop: "cuckoo_loop (POW2 (lg_size h)) h item (hash1 (hashes item))
        (hash1 (hashes item)) = Inr (h1, r)"
    and h1: "slots_inv h1" "slots_frame h h1" "stash h1 = stash h"
      "live h1 + in_hand r = add_mset item (live h)"
    and hand: "\<forall>it. r = Some it \<longrightarrow> name it \<noteq> KNull"
    using cuckoo_moves_correct [OF assms(1,2)] .
  have add: "coucal_add_item_i h item =
      (case r of None \<Rightarrow> Inr (h1, 1) | Some it \<Rightarrow> emergency_stash h1 it)"
    using assms(3,4) loop by (simp add: coucal_add_item_i_def Let_def split: option.split)
  have "stash_size (stash h) \<le> 16"
    using assms(1) stash_invD(4) by (simp add: slots_inv_def)
  then consider (free) "r = None" | (stashed) it where "r = Some it" "stash_size (stash h) < 16"
    | (full) it where "r = Some it" "stash_size (stash h) = 16"
    by (cases r) (auto simp: le_less)
  then show ?thesis
  proof cases
    case free
    then show ?thesis using add h1 by simp
  next
    case (stashed it)
    then have "name it \<noteq> KNull" using hand by blast
    from emergency_stash_correct [OF h1(1) this] stashed(2) h1(3)
    obtain h' where "emergency_stash h1 it = Inr (h', 1)" "slots_frame h1 h'" "slots_inv h'"
      "live h' = add_mset it (live h1)" "stash_size (stash h') = Suc (stash_size (stash h))"
      by auto
    then show ?thesis using add stashed(1) h1(2,4) slots_frame_trans [OF h1(2)] by auto
  next
    case (full it)
    then show ?thesis using add h1(3) emergency_stash_full [of h1 it] by simp
  qed
qed

lemma coucal_add_item_correct:
  assumes "slots_inv h" and "name item \<noteq> KNull"
  shows "(\<exists>h'. coucal_add_item_i h item = Inr (h', 1) \<and> slots_frame h h' \<and> slots_inv h'
            \<and> live h' = add_mset item (live h)
            \<and> stash_size (stash h') \<le> Suc (stash_size (stash h)))
       \<or> (coucal_add_item_i h item = Inl (AssertFailed A_cuckoo_stash_collision)
            \<and> stash_size (stash h) = 16)"
proof -
  let ?p1 = "coucal_hash_to_pos h (hash1 (hashes item))"
  let ?p2 = "coucal_hash_to_pos h (hash2 (hashes item))"
  consider "coucal_is_free h ?p1" | "\<not> coucal_is_free h ?p1" "coucal_is_free h ?p2"
    | "\<not> coucal_is_free h ?p1" "\<not> coucal_is_free h ?p2" by blast
  then show ?thesis
  proof cases
    case 1
    with add_to_free_slot [OF assms 1] show ?thesis by (simp add: coucal_add_item_i_def Let_def)
  next
    case 2
    with add_to_free_slot [OF assms 2(2)] show ?thesis
      by (simp add: coucal_add_item_i_def Let_def)
  next
    case 3
    then show ?thesis by (rule add_after_moves [OF assms])
  qed
qed

section \<open>Draining keeps the invariant and the live items\<close>

lemma trim_extent_le: "trim_extent xs n \<le> n"
  by (induction xs n rule: trim_extent.induct) auto

lemma trim_extent_free: "trim_extent xs n \<le> i \<Longrightarrow> i < n \<Longrightarrow> name (xs ! i) = KNull"
  by (induction xs n rule: trim_extent.induct) (auto simp: less_Suc_eq split: if_splits)

lemma trim_extent_live: "trim_extent xs n \<noteq> 0 \<Longrightarrow> name (xs ! (trim_extent xs n - 1)) \<noteq> KNull"
  by (induction xs n rule: trim_extent.induct) (auto split: if_splits)

lemma stash_inv_trim:
  assumes "stash_core st"
  shows "stash_inv (st\<lparr>extent := trim_extent (stash_items st) (extent st)\<rparr>)"
  using assms trim_extent_le [of "stash_items st" "extent st"]
    trim_extent_free [of "stash_items st" "extent st"]
    trim_extent_live [of "stash_items st" "extent st"]
  by (auto simp: stash_inv_def stash_core_def not_less [symmetric])

lemma stash_core_free_slot:
  assumes "stash_core st" and "i < extent st" and "name (stash_items st ! i) \<noteq> KNull"
    and "name it = KNull"
  shows "stash_core (st\<lparr>stash_items := (stash_items st)[i := it],
           stash_size := size_sub (stash_size st) 1\<rparr>)"
    and "live_of (stash_items st) = add_mset (stash_items st ! i) (live_of ((stash_items st)[i := it]))"
    and "size_sub (stash_size st) 1 < stash_size st"
proof -
  note stD = stash_coreD [OF assms(1)]
  have i: "i < length (stash_items st)" using assms(2) stD(1,2) by simp
  show live: "live_of (stash_items st)
      = add_mset (stash_items st ! i) (live_of ((stash_items st)[i := it]))"
    by (rule live_of_set_free) (use i assms in simp_all)
  have "stash_size st = Suc (size (live_of ((stash_items st)[i := it])))"
    using arg_cong [OF live, of size] stD(3) by simp
  then have "size_sub (stash_size st) 1 = size (live_of ((stash_items st)[i := it]))"
    using stD(4) by simp
  then show "stash_core (st\<lparr>stash_items := (stash_items st)[i := it],
           stash_size := size_sub (stash_size st) 1\<rparr>)"
    using assms(1,2) by (auto simp: stash_core_def)
  show "size_sub (stash_size st) 1 < stash_size st"
    using \<open>stash_size st = Suc _\<close> \<open>size_sub _ _ = _\<close> by simp
qed

definition drain_inv :: "struct_coucal \<Rightarrow> struct_coucal \<Rightarrow> bool" where
  "drain_inv h0 h \<longleftrightarrow>
     slots_frame h0 h \<and> stats h = stats h0 \<and> table_inv h \<and> stash_core (stash h) \<and>
     live h = live h0 \<and> extent (stash h) = extent (stash h0) \<and>
     stash_size (stash h) \<le> stash_size (stash h0)"

lemma drain_slot_inv:
  assumes "drain_inv h0 h" and "i < extent (stash h)"
  shows "drain_inv h0 (drain_slot h i)"
proof (cases "name (stash_items (stash h) ! i) = KNull")
  case True
  then show ?thesis using assms(1) by (simp add: drain_slot_def Let_def)
next
  case live: False
  define it where "it = stash_items (stash h) ! i"
  have inv: "table_inv h" and core: "stash_core (stash h)"
    using assms(1) by (simp_all add: drain_inv_def)
  have name: "name it \<noteq> KNull" using live by (simp add: it_def)
  note slot = stash_core_free_slot [OF core assms(2) live, of null_item, folded it_def, simplified]
  have move: "drain_inv h0 (set_stash_size (set_stash_item (set_item h p it) i null_item)
      (size_sub (stash_size (stash h)) 1))"
    if p: "p = coucal_hash_to_pos h (hash1 (hashes it)) \<or> p = coucal_hash_to_pos h (hash2 (hashes it))"
      and free: "coucal_is_free h p" for p
  proof -
    have "p < length (items h)" using p hash_to_pos_in_items [OF inv] by blast
    then have "live_of ((items h)[p := it]) = add_mset it (live_of (items h))"
      using free name by (simp add: coucal_is_free_def live_of_set_new)
    moreover have "table_inv (set_item h p it)"
      using inv p by (intro table_inv_set_item) (auto simp: well_placed_def coucal_hash_to_pos_def)
    ultimately show ?thesis
      using assms(1) slot
      by (simp add: drain_inv_def slots_frame_def live_def set_stash_size_def set_stash_item_def
          set_item_def table_inv_def)
  qed
  let ?p1 = "coucal_hash_to_pos h (hash1 (hashes it))"
  let ?p2 = "coucal_hash_to_pos h (hash2 (hashes it))"
  have "drain_slot h i =
      (if coucal_is_free h ?p1 then set_stash_size (set_stash_item (set_item h ?p1 it) i null_item)
         (size_sub (stash_size (stash h)) 1)
       else if coucal_is_free h ?p2 then set_stash_size (set_stash_item (set_item h ?p2 it) i null_item)
         (size_sub (stash_size (stash h)) 1)
       else h)"
    using live by (simp add: drain_slot_def Let_def set_stash_item_def set_item_def flip: it_def)
  then show ?thesis using move [of ?p1] move [of ?p2] assms(1) by simp
qed

lemma drain_slots_inv:
  "drain_inv h0 h \<Longrightarrow> \<forall>i \<in> set is. i < extent (stash h0) \<Longrightarrow> drain_inv h0 (foldl drain_slot h is)"
proof (induction "is" arbitrary: h)
  case (Cons i "is")
  then have "i < extent (stash h)" by (simp add: drain_inv_def)
  then show ?case using Cons drain_slot_inv by simp
qed simp

lemma coucal_drain_stash_correct:
  assumes "slots_inv h"
  shows "slots_inv (coucal_drain_stash h)" and "slots_frame h (coucal_drain_stash h)"
    and "live (coucal_drain_stash h) = live h"
    and "stash_size (stash (coucal_drain_stash h)) \<le> stash_size (stash h)"
    and "stats (coucal_drain_stash h) = stats h"
proof -
  define h1 where "h1 = foldl drain_slot h [0..<extent (stash h)]"
  have "drain_inv h h" using assms by (simp add: drain_inv_def slots_inv_def stash_inv_def)
  then have inv: "drain_inv h h1" unfolding h1_def by (rule drain_slots_inv) simp
  have eq: "coucal_drain_stash h = h1\<lparr>stash := (stash h1)\<lparr>extent :=
      trim_extent (stash_items (stash h1)) (extent (stash h1))\<rparr>\<rparr>"
    by (simp add: coucal_drain_stash_def set_extent_def h1_def Let_def)
  show "slots_inv (coucal_drain_stash h)"
    using inv stash_inv_trim [of "stash h1"]
    by (simp add: eq slots_inv_def drain_inv_def table_inv_def)
  show "slots_frame h (coucal_drain_stash h)" "live (coucal_drain_stash h) = live h"
    "stash_size (stash (coucal_drain_stash h)) \<le> stash_size (stash h)"
    "stats (coucal_drain_stash h) = stats h"
    using inv by (simp_all add: eq drain_inv_def slots_frame_def live_def)
qed

section \<open>Draining leaves no item that a slot of the table could take\<close>

definition settled :: "struct_coucal \<Rightarrow> coucal_item \<Rightarrow> bool" where
  "settled h it \<longleftrightarrow>
     \<not> coucal_is_free h (coucal_hash_to_pos h (hash1 (hashes it))) \<and>
     \<not> coucal_is_free h (coucal_hash_to_pos h (hash2 (hashes it)))"

lemma nth_update_cases: "xs[i := x] ! j = (if i = j \<and> i < length xs then x else xs ! j)"
  by (cases "i < length xs") (auto simp: list_update_beyond)

lemma drain_slot_frame:
  "lg_size (drain_slot h i) = lg_size h"
  "length (stash_items (stash (drain_slot h i))) = length (stash_items (stash h))"
  "\<not> coucal_is_free h p \<Longrightarrow> \<not> coucal_is_free (drain_slot h i) p"
  "j \<noteq> i \<Longrightarrow> stash_items (stash (drain_slot h i)) ! j = stash_items (stash h) ! j"
  by (auto simp: drain_slot_def set_item_def set_stash_item_def set_stash_size_def coucal_is_free_def
      nth_update_cases Let_def split: option.splits if_splits)

lemma drain_slot_settles:
  assumes "i < length (stash_items (stash h))"
    and "name (stash_items (stash (drain_slot h i)) ! i) \<noteq> KNull"
  shows "drain_slot h i = h" and "settled h (stash_items (stash h) ! i)"
  using assms
  by (auto simp: drain_slot_def set_item_def set_stash_item_def set_stash_size_def settled_def
      null_item_def Let_def split: if_splits)

lemma drain_slots_settle:
  assumes "\<forall>i \<in> set is. i < length (stash_items (stash h))"
  shows "lg_size (foldl drain_slot h is) = lg_size h
    \<and> (\<forall>p. \<not> coucal_is_free h p \<longrightarrow> \<not> coucal_is_free (foldl drain_slot h is) p)
    \<and> (\<forall>j. name (stash_items (stash (foldl drain_slot h is)) ! j) \<noteq> KNull \<longrightarrow>
         stash_items (stash (foldl drain_slot h is)) ! j = stash_items (stash h) ! j \<and>
         (j \<in> set is \<longrightarrow> settled (foldl drain_slot h is) (stash_items (stash h) ! j)))"
  using assms
proof (induction "is" arbitrary: h)
  case (Cons i "is")
  define h1 where "h1 = drain_slot h i"
  define h2 where "h2 = foldl drain_slot h1 is"
  note frame = drain_slot_frame [where h = h and i = i, folded h1_def]
  have IH: "lg_size h2 = lg_size h1" "\<not> coucal_is_free h1 p \<Longrightarrow> \<not> coucal_is_free h2 p"
    "name (stash_items (stash h2) ! j) \<noteq> KNull \<Longrightarrow>
       stash_items (stash h2) ! j = stash_items (stash h1) ! j \<and>
       (j \<in> set is \<longrightarrow> settled h2 (stash_items (stash h1) ! j))" for p j
    using Cons.IH [of h1] Cons.prems frame(2) by (auto simp: h2_def)
  have grow: "settled h it \<Longrightarrow> settled h2 it" for it
    using frame(1,3) IH(1,2) by (simp add: settled_def coucal_hash_to_pos_def)
  have "stash_items (stash h2) ! j = stash_items (stash h) ! j \<and>
      (j \<in> insert i (set is) \<longrightarrow> settled h2 (stash_items (stash h) ! j))"
    if live: "name (stash_items (stash h2) ! j) \<noteq> KNull" for j
  proof (cases "j = i")
    case True
    have "name (stash_items (stash h1) ! i) \<noteq> KNull" using IH(3) [OF live] live True by simp
    then have "h1 = h" "settled h (stash_items (stash h) ! i)"
      using drain_slot_settles [where i = i and h = h, folded h1_def] Cons.prems by simp_all
    then show ?thesis using IH(3) [OF live] grow True by simp
  next
    case False
    then show ?thesis using IH(3) [OF live] frame(4) by simp
  qed
  moreover have eq: "foldl drain_slot h (i # is) = h2" by (simp add: h1_def h2_def)
  moreover have "lg_size h2 = lg_size h" "\<forall>p. \<not> coucal_is_free h p \<longrightarrow> \<not> coucal_is_free h2 p"
    using IH(1,2) frame(1,3) by simp_all
  ultimately show ?case unfolding eq list.set by blast
qed simp

lemma coucal_drain_stash_settles:
  assumes inv: "slots_inv h" and j: "j < 16"
    and live: "name (stash_items (stash (coucal_drain_stash h)) ! j) \<noteq> KNull"
  shows "settled (coucal_drain_stash h) (stash_items (stash (coucal_drain_stash h)) ! j)"
proof -
  define h1 where "h1 = foldl drain_slot h [0..<extent (stash h)]"
  have eq: "coucal_drain_stash h = h1\<lparr>stash := (stash h1)\<lparr>extent :=
      trim_extent (stash_items (stash h1)) (extent (stash h1))\<rparr>\<rparr>"
    by (simp add: coucal_drain_stash_def set_extent_def h1_def Let_def)
  have "stash_inv (stash h)" using inv by (simp add: slots_inv_def)
  note st = stash_invD [OF this]
  have "\<forall>i \<in> set [0..<extent (stash h)]. i < length (stash_items (stash h))"
    using st(1,2) by simp
  note all = drain_slots_settle [OF this, folded h1_def]
  have live1: "name (stash_items (stash h1) ! j) \<noteq> KNull" using live by (simp add: eq)
  then have same: "stash_items (stash h1) ! j = stash_items (stash h) ! j" using all by blast
  then have "j < extent (stash h)" using live1 st(5) [of j] j by (cases "extent (stash h) \<le> j") simp_all
  then have "settled h1 (stash_items (stash h) ! j)" using all live1 by (metis atLeastLessThan_iff set_upt zero_le)
  then show ?thesis unfolding same [symmetric] by (simp add: eq settled_def coucal_hash_to_pos_def coucal_is_free_def)
qed

end
