(* ===== verification/Pool.thy ===== *)
theory Pool
  imports Table
begin

text \<open>
  The string pool of \<open>src/coucal.c\<close>: compaction into a fresh block, growth by \<open>realloc\<close>, copying
  a key in (\<open>coucal_dup_name()\<close>) and releasing one (\<open>coucal_free_key()\<close>). A pointer into the pool
  names its block, so a pointer kept across a relocation is dangling in the model as in C, and
  reading through it is the failure \<open>BadPointer\<close>.
\<close>

section \<open>Compaction\<close>

text \<open>
  A byte is written below the bytes written so far, or just behind them; the code never leaves
  a gap of uninitialised bytes, which the model could not represent.
\<close>

definition poke :: "byte list \<Rightarrow> nat \<Rightarrow> byte \<Rightarrow> byte list res" where
  "poke bs i c =
     (if i < length bs then Inr (bs[i := c])
      else if i = length bs then Inr (bs @ [c])
      else Inl BadPointer)"

fun copy_bytes :: "nat \<Rightarrow> byte list \<Rightarrow> nat \<Rightarrow> byte list \<Rightarrow> byte list res" where
  "copy_bytes cap bs dest [] = Inr bs"
| "copy_bytes cap bs dest (c # src) =
     bind_res (assert_res (dest < cap) (AssertFailed A_dest_lt_max_dest)) (\<lambda>_.
     bind_res (poke bs dest c) (\<lambda>bs. copy_bytes cap bs (Suc dest) src))"

text \<open>
  \<open>RELOCATE_STRING(S)\<close>: the string is read through the old pool and copied, NUL included, to
  the end of the new one.
\<close>

definition relocate_string ::
  "coucal_pool \<Rightarrow> coucal_pool \<Rightarrow> coucal_key \<Rightarrow> (coucal_key \<times> coucal_pool) res" where
  "relocate_string old p s =
     (if s = KNull \<or> s = KEmpty then Inr (s, p)
      else
        case (deref old s, buffer p) of
          (Some src, Some (b, bs)) \<Rightarrow>
            bind_res (copy_bytes (capacity p) bs (pool_size p) (src @ [0])) (\<lambda>bs.
              let dest = KPool b (pool_size p);
                  p = p\<lparr>buffer := Some (b, bs),
                        pool_size := size_add (pool_size p) (length src + 1)\<rparr>
              in if pool_size p \<le> capacity p then Inr (dest, p)
                 else Inl (AssertFailed A_pool_size_le_capacity))
        | _ \<Rightarrow> Inl BadPointer)"

fun relocate_items ::
  "coucal_pool \<Rightarrow> coucal_pool \<Rightarrow> coucal_item list \<Rightarrow> (coucal_item list \<times> coucal_pool) res" where
  "relocate_items old p [] = Inr ([], p)"
| "relocate_items old p (it # xs) =
     bind_res (relocate_string old p (name it)) (\<lambda>(s, p).
     bind_res (relocate_items old p xs) (\<lambda>(xs, p). Inr (it\<lparr>name := s\<rparr> # xs, p)))"

definition count_compact :: "struct_coucal \<Rightarrow> struct_coucal" where
  "count_compact h = h\<lparr>stats := (stats h)\<lparr>pool_compact_count := pool_compact_count (stats h) + 1\<rparr>\<rparr>"

definition set_names ::
  "struct_coucal \<Rightarrow> coucal_item list \<Rightarrow> coucal_item list \<Rightarrow> struct_coucal" where
  "set_names h xs ys =
     h\<lparr>items := xs @ drop (length xs) (items h),
       stash := (stash h)\<lparr>stash_items := ys @ drop (length ys) (stash_items (stash h))\<rparr>\<rparr>"

definition coucal_compact_pool :: "struct_coucal \<Rightarrow> nat \<Rightarrow> struct_coucal res" where
  "coucal_compact_pool h cap =
     (let hash_size = POW2 (lg_size h); old_pool = pool h in
      bind_res (assert_res (key_dup (custom h) = None) (AssertFailed A_no_dup_handler)) (\<lambda>_.
      let h = count_compact h;
          (r, hp) = c_malloc (heap h) cap;
          h = h\<lparr>heap := hp\<rparr>
      in case r of
           None \<Rightarrow> Inl (AssertFailed A_pool_compaction_error)
         | Some b \<Rightarrow>
             let p = \<lparr>buffer = Some (b, []), pool_size = 0, capacity = cap, pool_used = 0\<rparr> in
             bind_res (relocate_items old_pool p (take hash_size (items h))) (\<lambda>(xs, p).
             bind_res (relocate_items old_pool p
                         (take (extent (stash h)) (stash_items (stash h)))) (\<lambda>(ys, p).
             Inr ((set_names h xs ys)\<lparr>pool := p\<lparr>pool_used := pool_size p\<rparr>\<rparr>)))))"

section \<open>Growth by realloc\<close>

text \<open>
  \<open>RECOMPUTE_STRING(S)\<close>: the offset of the string from the old base is meaningful for a pointer
  into the old block only.
\<close>

definition recompute_string ::
  "nat option \<Rightarrow> nat \<Rightarrow> nat \<Rightarrow> coucal_key \<Rightarrow> coucal_key res" where
  "recompute_string oldbase b cap s =
     (case s of
        KNull \<Rightarrow> Inr KNull
      | KEmpty \<Rightarrow> Inr KEmpty
      | KPool b' offset \<Rightarrow>
          if oldbase = Some b' then
            if offset < cap then Inr (KPool b offset) else Inl (AssertFailed A_offset_lt_capacity)
          else Inl BadPointer
      | KExt a t \<Rightarrow> Inl BadPointer)"

fun recompute_items ::
  "nat option \<Rightarrow> nat \<Rightarrow> nat \<Rightarrow> coucal_item list \<Rightarrow> coucal_item list res" where
  "recompute_items oldbase b cap [] = Inr []"
| "recompute_items oldbase b cap (it # xs) =
     bind_res (recompute_string oldbase b cap (name it)) (\<lambda>s.
     bind_res (recompute_items oldbase b cap xs) (\<lambda>xs. Inr (it\<lparr>name := s\<rparr> # xs)))"

definition count_realloc :: "struct_coucal \<Rightarrow> struct_coucal" where
  "count_realloc h = h\<lparr>stats := (stats h)\<lparr>pool_realloc_count := pool_realloc_count (stats h) + 1\<rparr>\<rparr>"

definition pool_bytes :: "coucal_pool \<Rightarrow> byte list" where
  "pool_bytes p = (case buffer p of None \<Rightarrow> [] | Some (b, bs) \<Rightarrow> bs)"

definition coucal_realloc_pool :: "struct_coucal \<Rightarrow> nat \<Rightarrow> struct_coucal res" where
  "coucal_realloc_pool h cap =
     (let hash_size = POW2 (lg_size h); oldbase = map_option fst (buffer (pool h)) in
      bind_res (assert_res (key_dup (custom h) = None) (AssertFailed A_no_dup_handler)) (\<lambda>_.
      if pool_used (pool h) < size_mul (pool_size (pool h)) 3 div 4 then coucal_compact_pool h cap
      else
        let h = count_realloc h;
            (r, hp) = c_realloc (heap h) oldbase cap;
            h = h\<lparr>heap := hp\<rparr>
        in case r of
             None \<Rightarrow> Inl (AssertFailed A_pool_allocation_error)
           | Some b \<Rightarrow>
               let h = h\<lparr>pool := (pool h)\<lparr>buffer := Some (b, take cap (pool_bytes (pool h))),
                                        capacity := cap\<rparr>\<rparr>
               in if Some b \<noteq> oldbase then
                    bind_res (recompute_items oldbase b cap (take hash_size (items h))) (\<lambda>xs.
                    bind_res (recompute_items oldbase b cap
                                (take (extent (stash h)) (stash_items (stash h)))) (\<lambda>ys.
                    Inr (set_names h xs ys)))
                  else Inr h))"

section \<open>Copying a key into the pool\<close>

definition coucal_is_pooled :: "struct_coucal \<Rightarrow> coucal_key \<Rightarrow> bool" where
  "coucal_is_pooled h k =
     (case (k, buffer (pool h)) of
        (KPool b off, Some (b', bs)) \<Rightarrow> b = b' \<and> off < capacity (pool h)
      | _ \<Rightarrow> False)"

text \<open>\<open>memcpy\<close> of \<open>len\<close> bytes from a key.\<close>

definition read_bytes :: "coucal_pool \<Rightarrow> coucal_key \<Rightarrow> nat \<Rightarrow> byte list res" where
  "read_bytes p k len =
     (let bs = (case k of
                  KNull \<Rightarrow> []
                | KEmpty \<Rightarrow> [0]
                | KPool b off \<Rightarrow>
                    (case buffer p of
                       None \<Rightarrow> []
                     | Some (b', bs) \<Rightarrow> if b' = b then drop off bs else [])
                | KExt a s \<Rightarrow> s @ [0])
      in if len \<le> length bs then Inr (take len bs) else Inl BadPointer)"

text \<open>\<open>memcpy\<close> of bytes to an offset of the pool's block of \<open>cap\<close> bytes.\<close>

definition write_bytes :: "nat \<Rightarrow> byte list \<Rightarrow> nat \<Rightarrow> byte list \<Rightarrow> byte list res" where
  "write_bytes cap bs dest src =
     (if dest \<le> length bs \<and> dest + length src \<le> cap
      then Inr (take dest bs @ src @ drop (dest + length src) bs)
      else Inl BadPointer)"

text \<open>
  \<open>for(capacity = MIN_POOL_CAPACITY ; capacity < need ; capacity <<= 1)\<close>. The shift wraps, so
  the loop does not end for a need above \<open>2 ^ 63\<close>.
\<close>

partial_function (option) pool_capacity_for :: "nat \<Rightarrow> nat \<Rightarrow> nat option" where
  "pool_capacity_for cap need =
     (if cap < need then pool_capacity_for (size_mul cap 2) need else Some cap)"

declare pool_capacity_for.simps [code]

text \<open>
  The branch that makes room for \<open>len\<close> bytes; the second component is the key to copy, staged
  in a block of its own when it points into the pool, which is about to move.
\<close>

definition stage_key ::
  "struct_coucal \<Rightarrow> coucal_key \<Rightarrow> nat \<Rightarrow> (struct_coucal \<times> coucal_key) res" where
  "stage_key h nm len =
     (if coucal_is_pooled h nm then
        let (r, hp) = c_malloc (heap h) len; h = h\<lparr>heap := hp\<rparr> in
        case r of
          None \<Rightarrow> Inl (AssertFailed A_key_staging_error)
        | Some a \<Rightarrow> bind_res (read_bytes (pool h) nm len) (\<lambda>bs. Inr (h, KExt a (butlast bs)))
      else Inr (h, nm))"

definition expand_pool ::
  "struct_coucal \<Rightarrow> coucal_key \<Rightarrow> nat \<Rightarrow> (struct_coucal \<times> coucal_key) res" where
  "expand_pool h nm len =
     bind_res (stage_key h nm len) (\<lambda>(h, nm).
       case pool_capacity_for MIN_POOL_CAPACITY (size_add (pool_size (pool h)) len) of
         None \<Rightarrow> Inl Diverges
       | Some cap \<Rightarrow>
           bind_res (assert_res (pool_size (pool h) < cap) (AssertFailed A_pool_size_lt_capacity))
             (\<lambda>_. bind_res (coucal_realloc_pool h cap) (\<lambda>h. Inr (h, nm))))"

text \<open>The copy of the \<open>len\<close> bytes of a key to the end of the pool.\<close>

definition append_key ::
  "struct_coucal \<Rightarrow> coucal_key \<Rightarrow> nat \<Rightarrow> (struct_coucal \<times> coucal_key) res" where
  "append_key h nm len =
     bind_res (assert_res (size_add len (pool_size (pool h)) \<le> capacity (pool h))
                 (AssertFailed A_pool_room)) (\<lambda>_.
     bind_res (read_bytes (pool h) nm len) (\<lambda>bs.
     case buffer (pool h) of
       None \<Rightarrow> Inl BadPointer
     | Some (b, old) \<Rightarrow>
         let size = pool_size (pool h) in
         bind_res (write_bytes (capacity (pool h)) old size bs) (\<lambda>new.
         Inr (h\<lparr>pool := (pool h)\<lparr>buffer := Some (b, new),
                                pool_size := size_add size len,
                                pool_used := size_add (pool_used (pool h)) len\<rparr>\<rparr>,
              KPool b size))))"

definition coucal_dup_name_internal ::
  "struct_coucal \<Rightarrow> coucal_key \<Rightarrow> (struct_coucal \<times> coucal_key) res" where
  "coucal_dup_name_internal h nm =
     bind_res (read_key h nm) (\<lambda>s.
       let len = size_add (length s) 1 in
       if len = 1 then Inr (h, KEmpty)
       else
         bind_res (assert_res (pool_size (pool h) \<le> capacity (pool h))
                     (AssertFailed A_pool_size_le_capacity)) (\<lambda>_.
         bind_res
           (if size_sub (capacity (pool h)) (pool_size (pool h)) < len then expand_pool h nm len
            else Inr (h, nm))
           (\<lambda>(h, nm). append_key h nm len)))"

definition coucal_dup_name ::
  "struct_coucal \<Rightarrow> coucal_key \<Rightarrow> (struct_coucal \<times> coucal_key) res" where
  "coucal_dup_name h nm =
     (case key_dup (custom h) of
        None \<Rightarrow> coucal_dup_name_internal h nm
      | Some f \<Rightarrow>
          bind_res (read_key h nm) (\<lambda>s.
            let k = f (key_arg (custom h)) (calls h) s
            in Inr (h\<lparr>calls := calls h @ [CallDup (key_arg (custom h)) s k]\<rparr>, k)))"

section \<open>Releasing a key\<close>

text \<open>Compacting, and shrinking, the pool when it has too many holes.\<close>

definition compact_holes :: "struct_coucal \<Rightarrow> struct_coucal res" where
  "compact_holes h =
     (let p = pool h in
      if pool_used p \<noteq> 0 \<and> pool_used p < pool_size p div 2 then
        let cap = (if pool_used p < capacity p div 4 then capacity p div 2 else capacity p)
        in bind_res (assert_res (pool_used p < cap) (AssertFailed A_pool_used_lt_capacity))
             (\<lambda>_. coucal_compact_pool h cap)
      else Inr h)"

definition coucal_free_key_internal :: "struct_coucal \<Rightarrow> coucal_key \<Rightarrow> struct_coucal res" where
  "coucal_free_key_internal h nm =
     bind_res (read_key h nm) (\<lambda>s.
       let len = size_add (length s) 1 in
       if len = 1 \<and> nm = KEmpty then Inr h
       else
         bind_res (assert_res (s \<noteq> []) (AssertFailed A_duplicate_or_bad_release)) (\<lambda>_.
           case (nm, buffer (pool h)) of
             (KPool b off, Some (b', bs)) \<Rightarrow>
               bind_res (poke bs off 0) (\<lambda>bs.
                 compact_holes
                   (h\<lparr>pool := (pool h)\<lparr>pool_used := size_sub (pool_used (pool h)) len,
                                     buffer := Some (b', bs)\<rparr>\<rparr>))
           | _ \<Rightarrow> Inl BadPointer))"

definition coucal_free_key :: "struct_coucal \<Rightarrow> coucal_key \<Rightarrow> struct_coucal res" where
  "coucal_free_key h nm =
     (case key_free (custom h) of
        None \<Rightarrow> coucal_free_key_internal h nm
      | Some f \<Rightarrow> Inr (h\<lparr>calls := calls h @ [CallKeyFree f (key_arg (custom h)) nm]\<rparr>))"

section \<open>C strings in a block\<close>

lemma takeWhile_nonzero_append:
  "0 \<notin> set s \<Longrightarrow> takeWhile (\<lambda>c. c \<noteq> 0) (s @ 0 # rest) = (s :: byte list)"
  by (induction s) auto

lemma c_string_at_iff:
  "c_string_at bs off = Some s \<longleftrightarrow> 0 \<notin> set s \<and> (\<exists>rest. drop off bs = s @ 0 # rest)"
proof
  assume "c_string_at bs off = Some s"
  then have z: "0 \<in> set (drop off bs)" and s: "s = takeWhile (\<lambda>c. c \<noteq> 0) (drop off bs)"
    by (auto simp: c_string_at_def split: if_splits)
  obtain ys zs where split: "drop off bs = ys @ 0 # zs" "0 \<notin> set ys"
    using split_list_first [OF z] by blast
  then have "s = ys" using s by (simp add: takeWhile_nonzero_append)
  then show "0 \<notin> set s \<and> (\<exists>rest. drop off bs = s @ 0 # rest)" using split by blast
next
  assume "0 \<notin> set s \<and> (\<exists>rest. drop off bs = s @ 0 # rest)"
  then show "c_string_at bs off = Some s"
    by (auto simp: c_string_at_def takeWhile_nonzero_append)
qed

lemma c_string_at_bound:
  assumes "c_string_at bs off = Some s"
  shows "off + length s < length bs"
proof -
  obtain rest where "drop off bs = s @ 0 # rest" using assms by (auto simp: c_string_at_iff)
  then have "length (drop off bs) = length (s @ 0 # rest)" by (rule arg_cong)
  then show ?thesis by simp
qed

lemma c_string_at_append:
  assumes "c_string_at bs off = Some s"
  shows "c_string_at (bs @ cs) off = Some s"
proof -
  have "off \<le> length bs" using c_string_at_bound [OF assms] by simp
  then show ?thesis using assms by (auto simp: c_string_at_iff)
qed

lemma c_string_at_end: "0 \<notin> set s \<Longrightarrow> c_string_at (bs @ s @ 0 # rest) (length bs) = Some s"
  by (simp add: c_string_at_iff)

text \<open>A NUL written outside a string's bytes does not change it.\<close>

lemma c_string_at_poke:
  assumes "c_string_at bs off = Some s" and "i < off \<or> off + length s < i"
  shows "c_string_at (bs[i := c]) off = Some s"
proof -
  obtain rest where z: "0 \<notin> set s" and eq: "drop off bs = s @ 0 # rest"
    using assms(1) by (auto simp: c_string_at_iff)
  show ?thesis
  proof (cases "i < off")
    case True
    then show ?thesis using z eq by (auto simp: c_string_at_iff drop_update_cancel)
  next
    case False
    define m where "m = i - off - Suc (length s)"
    have i: "off \<le> i" "i - off = length s + Suc m"
      using False assms(2) by (simp_all add: m_def)
    then have "drop off (bs[i := c]) = (s @ 0 # rest)[length s + Suc m := c]"
      by (simp add: drop_update_swap eq)
    also have "\<dots> = s @ 0 # rest[m := c]" by (simp add: list_update_append)
    finally show ?thesis using z by (auto simp: c_string_at_iff)
  qed
qed

lemma read_bytes_string:
  "deref p k = Some s \<Longrightarrow> read_bytes p k (Suc (length s)) = Inr (s @ [0])"
proof (cases k)
  case (KPool b off)
  assume d: "deref p k = Some s"
  with KPool obtain bs where bs: "buffer p = Some (b, bs)" "c_string_at bs off = Some s"
    by (auto simp: deref_def split: option.splits if_splits)
  then obtain rest where "drop off bs = s @ 0 # rest" by (auto simp: c_string_at_iff)
  then show ?thesis using KPool bs(1) by (simp add: read_bytes_def)
qed (auto simp: deref_def read_bytes_def)

lemma copy_bytes_append:
  "length bs + length src \<le> cap \<Longrightarrow> copy_bytes cap bs (length bs) src = Inr (bs @ src)"
proof (induction src arbitrary: bs)
  case (Cons c src)
  then have "copy_bytes cap (bs @ [c]) (length (bs @ [c])) src = Inr ((bs @ [c]) @ src)"
    by (intro Cons.IH) simp
  then show ?case using Cons.prems by (simp add: poke_def)
qed simp

lemma write_bytes_append:
  "length bs + length src \<le> cap \<Longrightarrow> write_bytes cap bs (length bs) src = Inr (bs @ src)"
  by (simp add: write_bytes_def)

section \<open>The capacity loop ends\<close>

lemma pool_capacity_for_ge: "cap \<ge> need \<Longrightarrow> pool_capacity_for cap need = Some cap"
  by (simp add: pool_capacity_for.simps)

lemma pool_capacity_for_pow2:
  assumes "k \<le> 63" and "need \<le> 2 ^ 63" and "0 < need"
  shows "\<exists>j. k \<le> j \<and> j \<le> 63 \<and> pool_capacity_for (2 ^ k) need = Some (2 ^ j)
           \<and> need \<le> 2 ^ j \<and> (j = k \<or> 2 ^ j < 2 * need)"
  using assms(1)
proof (induction k rule: inc_induct)
  case base
  then show ?case using assms(2) by (intro exI [of _ 63]) (simp add: pool_capacity_for_ge)
next
  case (step k)
  show ?case
  proof (cases "(2::nat) ^ k < need")
    case True
    have "(2::nat) ^ Suc k < 2 ^ 64" using step.hyps by (intro power_strict_increasing) simp_all
    then have "size_mul (2 ^ k) 2 = 2 ^ Suc k" by (simp add: mult.commute)
    then have eq: "pool_capacity_for (2 ^ k) need = pool_capacity_for (2 ^ Suc k) need"
      using True by (subst pool_capacity_for.simps) simp
    obtain j where "Suc k \<le> j" "j \<le> 63" "pool_capacity_for (2 ^ Suc k) need = Some (2 ^ j)"
        "need \<le> 2 ^ j" "j = Suc k \<or> 2 ^ j < 2 * need"
      using step.IH by blast
    moreover have "j = Suc k \<Longrightarrow> 2 ^ j < 2 * need" using True by simp
    ultimately show ?thesis using eq by (intro exI [of _ j]) auto
  next
    case False
    then show ?thesis using step.hyps by (intro exI [of _ k]) (simp add: pool_capacity_for_ge)
  qed
qed

end
