(* ===== verification/PoolCorrect.thy ===== *)
theory PoolCorrect
  imports Pool
begin

text \<open>
  The pool's invariant and its proof. Keys of live items are the empty string or own a region of
  the pool's block that ends in a NUL, regions of different items are disjoint, and \<open>pool.used\<close>
  is the sum of their lengths. Compaction and growth change where a string lies and nothing a
  client can observe: every slot keeps its value, its hashes and the bytes of its key.
\<close>

section \<open>Regions\<close>

definition stored_len :: "coucal_pool \<Rightarrow> coucal_key \<Rightarrow> nat" where
  "stored_len p k = (case k of KPool b off \<Rightarrow> Suc (length (the (deref p k))) | _ \<Rightarrow> 0)"

definition region :: "coucal_pool \<Rightarrow> coucal_key \<Rightarrow> nat set" where
  "region p k = (case k of KPool b off \<Rightarrow> {off..<off + stored_len p k} | _ \<Rightarrow> {})"

definition pooled_key :: "coucal_pool \<Rightarrow> coucal_key \<Rightarrow> bool" where
  "pooled_key p k \<longleftrightarrow>
     k = KEmpty \<or> (\<exists>b off s. k = KPool b off \<and> s \<noteq> [] \<and> deref p k = Some s)"

definition apart :: "coucal_pool \<Rightarrow> coucal_key \<Rightarrow> coucal_key \<Rightarrow> bool" where
  "apart p k k' \<longleftrightarrow> region p k \<inter> region p k' = {}"

definition regions_ok :: "coucal_pool \<Rightarrow> coucal_key multiset \<Rightarrow> bool" where
  "regions_ok p N \<longleftrightarrow> (\<forall>k \<in># N. pooled_key p k) \<and> pairwise_mset (apart p) N"

text \<open>The keys fill the block from \<open>lo\<close> to \<open>hi\<close> without holes.\<close>

definition laid_out :: "coucal_pool \<Rightarrow> nat \<Rightarrow> nat \<Rightarrow> coucal_key multiset \<Rightarrow> bool" where
  "laid_out p lo hi N \<longleftrightarrow>
     regions_ok p N \<and> (\<forall>k \<in># N. region p k \<subseteq> {lo..<hi}) \<and> hi = lo + (\<Sum>k \<in># N. stored_len p k)"

definition names :: "coucal_item list \<Rightarrow> coucal_key multiset" where
  "names xs = image_mset name (live_of xs)"

definition live_names :: "struct_coucal \<Rightarrow> coucal_key multiset" where
  "live_names h = image_mset name (live h)"

lemma live_names_eq: "live_names h = names (items h) + names (stash_items (stash h))"
  by (simp add: live_names_def live_def names_def)

lemma pool_used_irrelevant [simp]:
  "deref (p\<lparr>pool_used := n\<rparr>) = deref p" "stored_len (p\<lparr>pool_used := n\<rparr>) = stored_len p"
  "region (p\<lparr>pool_used := n\<rparr>) = region p" "pooled_key (p\<lparr>pool_used := n\<rparr>) = pooled_key p"
  "apart (p\<lparr>pool_used := n\<rparr>) = apart p" "regions_ok (p\<lparr>pool_used := n\<rparr>) = regions_ok p"
proof -
  show d: "deref (p\<lparr>pool_used := n\<rparr>) = deref p"
    by (simp add: deref_def fun_eq_iff split: coucal_key.split)
  show l: "stored_len (p\<lparr>pool_used := n\<rparr>) = stored_len p"
    by (simp add: stored_len_def fun_eq_iff d split: coucal_key.split)
  show r: "region (p\<lparr>pool_used := n\<rparr>) = region p"
    by (simp add: region_def fun_eq_iff l split: coucal_key.split)
  show k: "pooled_key (p\<lparr>pool_used := n\<rparr>) = pooled_key p"
    by (simp add: pooled_key_def fun_eq_iff d)
  show a: "apart (p\<lparr>pool_used := n\<rparr>) = apart p" by (simp add: apart_def fun_eq_iff r)
  show "regions_ok (p\<lparr>pool_used := n\<rparr>) = regions_ok p" by (simp add: regions_ok_def fun_eq_iff k a)
qed

lemma apart_sym: "apart p a b \<Longrightarrow> apart p b a"
  by (auto simp: apart_def)

lemmas pairwise_apart_add = pairwise_mset_add [of "apart p" for p, OF apart_sym]
lemmas pairwise_apart_union = pairwise_mset_union [of "apart p" for p, OF apart_sym]

lemma key_simps [simp]:
  "stored_len p KNull = 0" "stored_len p KEmpty = 0" "region p KNull = {}" "region p KEmpty = {}"
  "pooled_key p KEmpty" "\<not> pooled_key p KNull" "deref p KEmpty = Some []" "deref p KNull = None"
  by (simp_all add: stored_len_def region_def pooled_key_def deref_def)

lemma pooled_key_KPool [simp]:
  "pooled_key p (KPool b off) \<longleftrightarrow> (\<exists>s. s \<noteq> [] \<and> deref p (KPool b off) = Some s)"
  by (auto simp: pooled_key_def)

lemma pooled_key_KExt [simp]: "\<not> pooled_key p (KExt a s)"
  by (simp add: pooled_key_def)

lemma pooled_keyE:
  assumes "pooled_key p k"
  obtains "k = KEmpty" | b off s where "k = KPool b off" "s \<noteq> []" "deref p k = Some s"
  using assms by (auto simp: pooled_key_def)

lemma stored_len_KPool: "deref p (KPool b off) = Some s \<Longrightarrow> stored_len p (KPool b off) = Suc (length s)"
  by (simp add: stored_len_def)

lemma regions_ok_empty [simp]: "regions_ok p {#}"
  by (simp add: regions_ok_def)

lemma regions_ok_add:
  "regions_ok p (add_mset k N) \<longleftrightarrow> pooled_key p k \<and> regions_ok p N \<and> (\<forall>k' \<in># N. apart p k k')"
  by (auto simp: regions_ok_def pairwise_apart_add)

lemma laid_out_union:
  assumes "laid_out p lo mid M" and "laid_out p mid hi N"
  shows "laid_out p lo hi (M + N)"
proof -
  have "apart p a b" if "a \<in># M" "b \<in># N" for a b
    using assms that unfolding laid_out_def apart_def by fastforce
  moreover have "lo \<le> mid" "mid \<le> hi" using assms by (simp_all add: laid_out_def)
  ultimately show ?thesis using assms
    by (fastforce simp: laid_out_def regions_ok_def pairwise_apart_union)
qed

section \<open>Appending to a block\<close>

definition pool_tight :: "coucal_pool \<Rightarrow> bool" where
  "pool_tight p \<longleftrightarrow>
     (\<exists>b bs. buffer p = Some (b, bs) \<and> length bs = pool_size p) \<and>
     pool_size p \<le> capacity p \<and> capacity p \<le> ptrdiff_max"

definition pool_ext :: "coucal_pool \<Rightarrow> coucal_pool \<Rightarrow> bool" where
  "pool_ext p p' \<longleftrightarrow>
     pool_tight p \<and> pool_tight p' \<and> capacity p' = capacity p \<and> pool_used p' = pool_used p \<and>
     pool_size p \<le> pool_size p' \<and>
     (\<exists>b bs cs. buffer p = Some (b, bs) \<and> buffer p' = Some (b, bs @ cs))"

lemma pool_ext_refl: "pool_tight p \<Longrightarrow> pool_ext p p"
  by (auto simp: pool_ext_def pool_tight_def)

lemma pool_ext_trans: "pool_ext p p' \<Longrightarrow> pool_ext p' p'' \<Longrightarrow> pool_ext p p''"
  by (auto simp: pool_ext_def)

lemma pool_ext_deref: "pool_ext p p' \<Longrightarrow> deref p k = Some s \<Longrightarrow> deref p' k = Some s"
  by (auto simp: pool_ext_def deref_def c_string_at_append split: coucal_key.splits if_splits)

lemma pool_ext_key:
  assumes "pool_ext p p'" and "pooled_key p k"
  shows "deref p' k = deref p k" and "pooled_key p' k" and "stored_len p' k = stored_len p k"
    and "region p' k = region p k"
proof -
  show d: "deref p' k = deref p k"
    using assms(2) pool_ext_deref [OF assms(1)] by (auto elim!: pooled_keyE)
  show "pooled_key p' k" using assms(2) by (simp add: pooled_key_def d)
  show s: "stored_len p' k = stored_len p k" using d by (cases k) (simp_all add: stored_len_def)
  show "region p' k = region p k" using s by (cases k) (simp_all add: region_def)
qed

lemma laid_out_ext:
  assumes "pool_ext p p'" and "laid_out p lo hi N"
  shows "laid_out p' lo hi N"
proof -
  have ok: "pooled_key p k" if "k \<in># N" for k
    using assms(2) that by (simp add: laid_out_def regions_ok_def)
  note eq = pool_ext_key [OF assms(1) ok]
  have "pairwise_mset (apart p') N = pairwise_mset (apart p) N"
    by (rule pairwise_mset_cong) (simp add: apart_def eq)
  moreover have "(\<Sum>k \<in># N. stored_len p' k) = (\<Sum>k \<in># N. stored_len p k)"
    by (intro arg_cong [of _ _ sum_mset] image_mset_cong) (simp add: eq)
  ultimately show ?thesis using assms(2) eq(2,4) by (auto simp: laid_out_def regions_ok_def)
qed

lemma relocate_string_correct:
  assumes tight: "pool_tight p" and key: "k = KNull \<or> pooled_key old k"
    and room: "pool_size p + stored_len old k \<le> capacity p"
  shows "\<exists>k' p'. relocate_string old p k = Inr (k', p') \<and> pool_ext p p' \<and>
    pool_size p' = pool_size p + stored_len old k \<and> deref p' k' = deref old k \<and>
    (k' = KNull \<longleftrightarrow> k = KNull) \<and>
    (k \<noteq> KNull \<longrightarrow> laid_out p' (pool_size p) (pool_size p') {#k'#})"
proof -
  consider "k = KNull" | "k = KEmpty" | b off s where "k = KPool b off" "s \<noteq> []" "deref old k = Some s"
    using key by (auto elim: pooled_keyE)
  then show ?thesis
  proof cases
    case 3
    obtain b' bs where buf: "buffer p = Some (b', bs)" "length bs = pool_size p"
      and cap: "capacity p \<le> ptrdiff_max" using tight by (auto simp: pool_tight_def)
    have len: "stored_len old k = Suc (length s)" using 3 by (simp add: stored_len_KPool)
    have z: "0 \<notin> set s" using 3(1,3)
      by (auto simp: deref_def c_string_at_iff split: option.splits if_splits)
    define p' where "p' = p\<lparr>buffer := Some (b', bs @ s @ [0]), pool_size := pool_size p + Suc (length s)\<rparr>"
    have copy: "copy_bytes (capacity p) bs (pool_size p) (s @ [0]) = Inr (bs @ s @ [0])"
      using copy_bytes_append [of bs "s @ [0]" "capacity p"] room len buf(2) by simp
    have "size_add (pool_size p) (Suc (length s)) = pool_size p + Suc (length s)"
      using room len cap by (simp add: ptrdiff_max_def)
    then have "relocate_string old p k = Inr (KPool b' (pool_size p), p')"
      using 3(1,3) buf(1) copy room len by (simp add: relocate_string_def p'_def)
    moreover have d: "deref p' (KPool b' (pool_size p)) = Some s"
      using c_string_at_end [OF z, of bs "[]"] buf(2) by (simp add: deref_def p'_def)
    moreover have "pool_ext p p'" using tight buf room len
      by (auto simp: pool_ext_def pool_tight_def p'_def)
    moreover have "laid_out p' (pool_size p) (pool_size p') {#KPool b' (pool_size p)#}"
      using 3(2) d
      by (simp add: laid_out_def regions_ok_add region_def stored_len_KPool p'_def)
    ultimately show ?thesis using len 3(1,3) by (auto simp: p'_def)
  qed (use tight pool_ext_refl [OF tight] in
      \<open>auto simp: relocate_string_def laid_out_def regions_ok_add\<close>)
qed

section \<open>Slots whose keys have moved\<close>

definition renamed :: "coucal_pool \<Rightarrow> coucal_pool \<Rightarrow> coucal_item \<Rightarrow> coucal_item \<Rightarrow> bool" where
  "renamed p p' it it' \<longleftrightarrow>
     value it' = value it \<and> hashes it' = hashes it \<and> (name it' = KNull \<longleftrightarrow> name it = KNull) \<and>
     deref p' (name it') = deref p (name it)"

definition entry :: "coucal_pool \<Rightarrow> coucal_item \<Rightarrow> byte list option \<times> coucal_value \<times> coucal_hashkeys"
  where "entry p it = (deref p (name it), value it, hashes it)"

definition need :: "coucal_pool \<Rightarrow> coucal_item list \<Rightarrow> nat" where
  "need p xs = (\<Sum>k \<in># names xs. stored_len p k)"

lemma names_simps [simp]:
  "names [] = {#}"
  "names (x # xs) = (if name x = KNull then names xs else add_mset (name x) (names xs))"
  by (simp_all add: names_def)

lemma need_simps [simp]: "need p [] = 0" "need p (x # xs) = stored_len p (name x) + need p xs"
  by (simp_all add: need_def)

lemma relocate_items_correct:
  assumes "pool_tight p" and "\<forall>it \<in> set xs. name it = KNull \<or> pooled_key old (name it)"
    and "pool_size p + need old xs \<le> capacity p"
  shows "\<exists>xs' p'. relocate_items old p xs = Inr (xs', p') \<and> pool_ext p p' \<and>
    pool_size p' = pool_size p + need old xs \<and> list_all2 (renamed old p') xs xs' \<and>
    laid_out p' (pool_size p) (pool_size p') (names xs')"
  using assms
proof (induction xs arbitrary: p)
  case Nil
  then show ?case by (simp add: pool_ext_refl laid_out_def)
next
  case (Cons it xs)
  then have room: "pool_size p + stored_len old (name it) \<le> capacity p" by simp
  obtain k' p1 where r1: "relocate_string old p (name it) = Inr (k', p1)" "pool_ext p p1"
      "pool_size p1 = pool_size p + stored_len old (name it)" "deref p1 k' = deref old (name it)"
      "k' = KNull \<longleftrightarrow> name it = KNull"
      "name it \<noteq> KNull \<longrightarrow> laid_out p1 (pool_size p) (pool_size p1) {#k'#}"
    using relocate_string_correct [OF Cons.prems(1) _ room] Cons.prems(2) by auto
  have "pool_tight p1" "pool_size p1 + need old xs \<le> capacity p1"
    using r1(2,3) Cons.prems(3) by (simp_all add: pool_ext_def)
  then obtain xs' p' where r2: "relocate_items old p1 xs = Inr (xs', p')" "pool_ext p1 p'"
      "pool_size p' = pool_size p1 + need old xs" "list_all2 (renamed old p') xs xs'"
      "laid_out p' (pool_size p1) (pool_size p') (names xs')"
    using Cons.IH [of p1] Cons.prems(2) by auto
  have d: "deref p' k' = deref old (name it)"
    using r1(4,5,6) pool_ext_key(1) [OF r2(2)]
    by (cases "name it = KNull") (auto simp: laid_out_def regions_ok_def)
  have "laid_out p' (pool_size p) (pool_size p') (names (it\<lparr>name := k'\<rparr> # xs'))"
  proof (cases "name it = KNull")
    case True
    then show ?thesis using r1(3,5) r2(5) by simp
  next
    case False
    then have "laid_out p' (pool_size p) (pool_size p1) {#k'#}"
      using r1(6) laid_out_ext [OF r2(2)] by blast
    from laid_out_union [OF this r2(5)] show ?thesis using False r1(5) by simp
  qed
  moreover have "renamed old p' it (it\<lparr>name := k'\<rparr>)" using r1(5) d by (simp add: renamed_def)
  ultimately show ?case using r1 r2 pool_ext_trans [OF r1(2) r2(2)] by simp
qed

definition renamed_slots :: "struct_coucal \<Rightarrow> struct_coucal \<Rightarrow> bool" where
  "renamed_slots h h' \<longleftrightarrow>
     list_all2 (renamed (pool h) (pool h')) (items h) (items h') \<and>
     list_all2 (renamed (pool h) (pool h')) (stash_items (stash h)) (stash_items (stash h')) \<and>
     extent (stash h') = extent (stash h) \<and> stash_size (stash h') = stash_size (stash h)"

text \<open>What an operation on the pool leaves alone.\<close>

definition pool_frame :: "struct_coucal \<Rightarrow> struct_coucal \<Rightarrow> bool" where
  "pool_frame h h' \<longleftrightarrow>
     lg_size h' = lg_size h \<and> used h' = used h \<and> custom h' = custom h \<and> calls h' = calls h \<and>
     hp_ok (heap h') = hp_ok (heap h) \<and> hp_move (heap h') = hp_move (heap h) \<and>
     renamed_slots h h'"

definition entries :: "struct_coucal \<Rightarrow> (byte list option \<times> coucal_value \<times> coucal_hashkeys) multiset"
  where "entries h = image_mset (entry (pool h)) (live h)"

lemma renamed_pool_used [simp]: "renamed p (p'\<lparr>pool_used := n\<rparr>) = renamed p p'"
  by (simp add: renamed_def fun_eq_iff)

lemma renamed_refl [simp]: "renamed p p it it"
  by (simp add: renamed_def)

lemma renamed_free: "name it = KNull \<Longrightarrow> renamed p p' it it"
  by (simp add: renamed_def)

lemma list_all2_refl_in: "(\<And>x. x \<in> set xs \<Longrightarrow> R x x) \<Longrightarrow> list_all2 R xs xs"
  by (simp add: list_all2_conv_all_nth)

lemma renamed_slots_refl: "renamed_slots h h"
  by (simp add: renamed_slots_def list_all2_refl)

lemma renamed_live:
  "list_all2 (renamed p p') xs ys \<Longrightarrow>
   image_mset (entry p) (live_of xs) = image_mset (entry p') (live_of ys)"
  by (induction rule: list_all2_induct) (auto simp: renamed_def entry_def)

lemma renamed_size_live: "list_all2 (renamed p p') xs ys \<Longrightarrow> size (live_of xs) = size (live_of ys)"
  using arg_cong [OF renamed_live, of p p' xs ys size] by simp

lemma renamed_placed:
  assumes "list_all2 (renamed p p') xs ys" and "placed lg xs"
  shows "placed lg ys"
  using assms by (auto simp: placed_def list_all2_conv_all_nth renamed_def well_placed_def)

lemma renamed_nth_free:
  "list_all2 (renamed p p') xs ys \<Longrightarrow> i < length xs \<Longrightarrow> name (ys ! i) = KNull \<longleftrightarrow> name (xs ! i) = KNull"
  by (auto simp: list_all2_conv_all_nth renamed_def)

lemma pool_frame_entries: "pool_frame h h' \<Longrightarrow> entries h' = entries h"
  by (auto simp: pool_frame_def renamed_slots_def entries_def live_def dest!: renamed_live)

lemma pool_frame_slots_inv:
  assumes "slots_inv h" and "pool_frame h h'"
  shows "slots_inv h'"
proof -
  have r: "list_all2 (renamed (pool h) (pool h')) (items h) (items h')"
      "list_all2 (renamed (pool h) (pool h')) (stash_items (stash h)) (stash_items (stash h'))"
    and eq: "extent (stash h') = extent (stash h)" "stash_size (stash h') = stash_size (stash h)"
      "lg_size h' = lg_size h"
    using assms(2) by (simp_all add: pool_frame_def renamed_slots_def)
  have inv: "table_inv h" "stash_inv (stash h)" using assms(1) by (simp_all add: slots_inv_def)
  have "table_inv h'" using inv(1) renamed_placed [OF r(1)] list_all2_lengthD [OF r(1)] eq
    by (simp add: table_inv_def)
  moreover have "stash_inv (stash h')"
    using inv(2) renamed_size_live [OF r(2)] list_all2_lengthD [OF r(2)]
      renamed_nth_free [OF r(2)] eq
    by (auto simp: stash_inv_def stash_core_def STASH_SIZE_def)
  ultimately show ?thesis by (simp add: slots_inv_def)
qed

section \<open>The pool's invariant\<close>

definition pool_inv :: "coucal_pool \<Rightarrow> c_heap \<Rightarrow> coucal_key multiset \<Rightarrow> bool" where
  "pool_inv p hp N \<longleftrightarrow>
     (case buffer p of
        None \<Rightarrow> capacity p = 0
      | Some (b, bs) \<Rightarrow> b < hp_next hp \<and> length bs = pool_size p) \<and>
     pool_size p \<le> capacity p \<and> capacity p \<le> ptrdiff_max \<and> pool_used p \<le> pool_size p \<and>
     pool_used p = (\<Sum>k \<in># N. stored_len p k) \<and> regions_ok p N"

lemma laid_out_pool_inv:
  assumes "pool_tight p" and "laid_out p 0 (pool_size p) N"
    and "\<forall>b bs. buffer p = Some (b, bs) \<longrightarrow> b < hp_next hp"
  shows "pool_inv (p\<lparr>pool_used := pool_size p\<rparr>) hp N"
  using assms by (auto simp: pool_inv_def pool_tight_def laid_out_def)

lemma c_malloc_cases:
  "c_malloc hp n = (r, hp') \<Longrightarrow>
   hp' = hp\<lparr>hp_next := Suc (hp_next hp)\<rparr> \<and> (r = None \<or> r = Some (hp_next hp) \<and> n \<le> ptrdiff_max)"
  by (auto simp: c_malloc_def split: if_splits)

text \<open>The allocator refuses a request it could grant.\<close>

definition heap_refuses :: "c_heap \<Rightarrow> bool" where
  "heap_refuses hp \<longleftrightarrow> (\<exists>r n. n \<le> ptrdiff_max \<and> \<not> hp_ok hp r n)"

lemma c_malloc_refused: "fst (c_malloc hp n) = None \<Longrightarrow> n \<le> ptrdiff_max \<Longrightarrow> heap_refuses hp"
  by (auto simp: c_malloc_def heap_refuses_def split: if_splits)

lemma c_realloc_refused: "fst (c_realloc hp b n) = None \<Longrightarrow> n \<le> ptrdiff_max \<Longrightarrow> heap_refuses hp"
  by (auto simp: c_realloc_def heap_refuses_def split: if_splits)

lemma c_realloc_cases:
  "c_realloc hp old n = (r, hp') \<Longrightarrow>
   hp' = hp\<lparr>hp_next := Suc (hp_next hp)\<rparr> \<and>
   (r = None \<or> (\<exists>b. r = Some b \<and> (b = hp_next hp \<or> old = Some b) \<and> n \<le> ptrdiff_max))"
  by (auto simp: c_realloc_def split: if_splits option.splits)

lemma live_names_need: "(\<Sum>k \<in># live_names h. stored_len p k) =
    need p (items h) + need p (stash_items (stash h))"
  by (simp add: live_names_eq need_def)

lemma names_mem: "it \<in> set xs \<Longrightarrow> name it \<noteq> KNull \<Longrightarrow> name it \<in># names xs"
  by (simp add: names_def in_live_of)

lemma names_none: "\<forall>it \<in> set xs. name it = KNull \<Longrightarrow> names xs = {#}"
  by (induction xs) auto

lemma names_append [simp]: "names (xs @ ys) = names xs + names ys"
  by (simp add: names_def)

text \<open>
  What relocation needs of the slots; while an item is being removed from the stash, its size
  is not yet that of the invariant.
\<close>

definition stash_shape :: "coucal_stash \<Rightarrow> bool" where
  "stash_shape st \<longleftrightarrow>
     length (stash_items st) = STASH_SIZE \<and> extent st \<le> STASH_SIZE \<and>
     (\<forall>i. extent st \<le> i \<and> i < STASH_SIZE \<longrightarrow> name (stash_items st ! i) = KNull)"

definition slots_shape :: "struct_coucal \<Rightarrow> bool" where
  "slots_shape h \<longleftrightarrow> table_inv h \<and> stash_shape (stash h)"

lemma stash_inv_shape: "stash_inv st \<Longrightarrow> stash_shape st"
  by (simp add: stash_inv_def stash_core_def stash_shape_def)

lemma slots_inv_shape: "slots_inv h \<Longrightarrow> slots_shape h"
  by (simp add: slots_inv_def slots_shape_def stash_inv_shape)

lemma stash_shapeD:
  assumes "stash_shape st"
  shows "length (stash_items st) = 16" and "extent st \<le> 16"
    and "extent st \<le> i \<Longrightarrow> i < 16 \<Longrightarrow> name (stash_items st ! i) = KNull"
  using assms by (auto simp: stash_shape_def STASH_SIZE_def)

lemma stash_above_extent:
  "stash_shape st \<Longrightarrow> it \<in> set (drop (extent st) (stash_items st)) \<Longrightarrow> name it = KNull"
  by (auto simp: in_set_conv_nth stash_shapeD)

text \<open>The entries of the stash a relocation visits, and what it relies on.\<close>

abbreviation stash_used :: "struct_coucal \<Rightarrow> coucal_item list" where
  "stash_used h \<equiv> take (extent (stash h)) (stash_items (stash h))"

abbreviation stash_rest :: "struct_coucal \<Rightarrow> coucal_item list" where
  "stash_rest h \<equiv> drop (extent (stash h)) (stash_items (stash h))"

lemma slots_shape_names:
  assumes "slots_shape h"
  shows "live_names h = names (items h) + names (stash_used h)"
    and "\<forall>it \<in> set (stash_rest h). name it = KNull"
proof -
  show rest: "\<forall>it \<in> set (stash_rest h). name it = KNull"
    using assms stash_above_extent by (auto simp: slots_shape_def)
  have "names (stash_items (stash h)) = names (stash_used h)"
    using names_append [of "stash_used h" "stash_rest h"] names_none [OF rest] by simp
  then show "live_names h = names (items h) + names (stash_used h)" by (simp add: live_names_eq)
qed

lemma slots_shape_keys:
  assumes "slots_shape h" and "regions_ok (pool h) (live_names h)"
  shows "\<forall>it \<in> set (items h) \<union> set (stash_used h). name it = KNull \<or> pooled_key (pool h) (name it)"
  using assms(2) names_mem unfolding slots_shape_names(1) [OF assms(1)]
  by (auto simp: regions_ok_def)

text \<open>Both loops of a compaction, into a fresh block \<open>b\<close>.\<close>

lemma relocate_slots_correct:
  assumes shape: "slots_shape h" and reg: "regions_ok (pool h) (live_names h)"
    and total: "(\<Sum>k \<in># live_names h. stored_len (pool h) k) \<le> cap" "cap \<le> ptrdiff_max"
    and p0: "p0 = \<lparr>buffer = Some (b, []), pool_size = 0, capacity = cap, pool_used = 0\<rparr>"
  obtains xs p1 ys p2
  where "relocate_items (pool h) p0 (items h) = Inr (xs, p1)"
    and "relocate_items (pool h) p1 (stash_used h) = Inr (ys, p2)"
    and "list_all2 (renamed (pool h) p2) (items h) xs"
    and "list_all2 (renamed (pool h) p2) (stash_used h) ys"
    and "laid_out p2 0 (pool_size p2) (names xs + names ys)"
    and "pool_size p2 = (\<Sum>k \<in># live_names h. stored_len (pool h) k)"
    and "pool_tight p2" and "capacity p2 = cap" and "map_option fst (buffer p2) = Some b"
proof -
  note keys = slots_shape_keys [OF shape reg]
  have need: "need (pool h) (items h) + need (pool h) (stash_used h) =
      (\<Sum>k \<in># live_names h. stored_len (pool h) k)"
    by (simp add: slots_shape_names(1) [OF shape] need_def)
  have tight: "pool_tight p0" using total(2) by (simp add: pool_tight_def p0)
  obtain xs p1 where r1: "relocate_items (pool h) p0 (items h) = Inr (xs, p1)" "pool_ext p0 p1"
      "pool_size p1 = need (pool h) (items h)" "list_all2 (renamed (pool h) p1) (items h) xs"
      "laid_out p1 0 (pool_size p1) (names xs)"
    using relocate_items_correct [OF tight, of "items h" "pool h"] keys need total
    by (auto simp: p0)
  have "pool_tight p1" "pool_size p1 + need (pool h) (stash_used h) \<le> capacity p1"
    using r1(2,3) need total by (simp_all add: pool_ext_def p0)
  then obtain ys p2 where r2: "relocate_items (pool h) p1 (stash_used h) = Inr (ys, p2)" "pool_ext p1 p2"
      "pool_size p2 = pool_size p1 + need (pool h) (stash_used h)"
      "list_all2 (renamed (pool h) p2) (stash_used h) ys"
      "laid_out p2 (pool_size p1) (pool_size p2) (names ys)"
    using relocate_items_correct [of p1 "stash_used h" "pool h"] keys by auto
  have "list_all2 (renamed (pool h) p2) (items h) xs"
    using r1(4,5) pool_ext_key(1) [OF r2(2)] names_mem
    by (auto simp: list_all2_conv_all_nth renamed_def laid_out_def regions_ok_def)
  moreover have "laid_out p2 0 (pool_size p2) (names xs + names ys)"
    by (rule laid_out_union [OF laid_out_ext [OF r2(2) r1(5)] r2(5)])
  moreover have "pool_tight p2" "capacity p2 = cap" "map_option fst (buffer p2) = Some b"
    using r1(2) r2(2) by (auto simp: pool_ext_def pool_tight_def p0)
  ultimately show ?thesis using that r1(1,3) r2(1,3,4) need by simp
qed

lemma compact_pool_correct:
  assumes shape: "slots_shape h" and dup: "key_dup (custom h) = None"
    and reg: "regions_ok (pool h) (live_names h)"
    and total: "(\<Sum>k \<in># live_names h. stored_len (pool h) k) \<le> cap"
  shows "coucal_compact_pool h cap = Inl (AssertFailed A_pool_compaction_error)
           \<and> (cap \<le> ptrdiff_max \<longrightarrow> heap_refuses (heap h))
    \<or> (\<exists>h'. coucal_compact_pool h cap = Inr h' \<and> pool_frame h h' \<and>
         pool_inv (pool h') (heap h') (live_names h') \<and> capacity (pool h') = cap \<and>
         pool_size (pool h') = (\<Sum>k \<in># live_names h. stored_len (pool h) k) \<and>
         pool_used (pool h') = pool_size (pool h') \<and> buffer (pool h') \<noteq> None)"
proof (cases "fst (c_malloc (heap h) cap)")
  case None
  then show ?thesis using dup c_malloc_refused [of "heap h" cap]
    by (cases "c_malloc (heap h) cap") (simp add: coucal_compact_pool_def Let_def count_compact_def)
next
  case (Some b)
  then obtain hp where m: "c_malloc (heap h) cap = (Some b, hp)" by (cases "c_malloc (heap h) cap") simp
  then have b: "b = hp_next (heap h)" "hp = (heap h)\<lparr>hp_next := Suc b\<rparr>" "cap \<le> ptrdiff_max"
    using c_malloc_cases [OF m] by simp_all
  obtain xs p1 ys p2 where r: "relocate_items (pool h)
        \<lparr>buffer = Some (b, []), pool_size = 0, capacity = cap, pool_used = 0\<rparr> (items h) = Inr (xs, p1)"
      "relocate_items (pool h) p1 (stash_used h) = Inr (ys, p2)"
      and moved: "list_all2 (renamed (pool h) p2) (items h) xs"
        "list_all2 (renamed (pool h) p2) (stash_used h) ys"
      and laid: "laid_out p2 0 (pool_size p2) (names xs + names ys)"
      and total2: "pool_size p2 = (\<Sum>k \<in># live_names h. stored_len (pool h) k)"
      and tight: "pool_tight p2" "capacity p2 = cap" "map_option fst (buffer p2) = Some b"
    using relocate_slots_correct [OF shape reg total b(3) refl] .
  define p' where "p' = p2\<lparr>pool_used := pool_size p2\<rparr>"
  define h' where "h' = (set_names (count_compact h\<lparr>heap := hp\<rparr>) xs ys)\<lparr>pool := p'\<rparr>"
  have S: "table_inv h" "stash_shape (stash h)" using shape by (simp_all add: slots_shape_def)
  have run: "coucal_compact_pool h cap = Inr h'"
    using m dup r table_invD [OF S(1)]
    by (simp add: coucal_compact_pool_def Let_def count_compact_def h'_def p'_def)
  have parts: "items h' = xs" "stash_items (stash h') = ys @ stash_rest h" "pool h' = p'" "heap h' = hp"
    using list_all2_lengthD [OF moved(1)] list_all2_lengthD [OF moved(2)] stash_shapeD(1,2) [OF S(2)]
    by (simp_all add: h'_def set_names_def count_compact_def)
  note rest = slots_shape_names(2) [OF shape]
  have "list_all2 (renamed (pool h) p2) (stash_rest h) (stash_rest h)"
    by (rule list_all2_refl_in) (use rest renamed_free in blast)
  then have "list_all2 (renamed (pool h) p2) (stash_items (stash h)) (ys @ stash_rest h)"
    using list_all2_appendI [OF moved(2)] by fastforce
  then have "renamed_slots h h'"
    using moved(1) parts by (simp add: renamed_slots_def p'_def)
      (simp add: h'_def set_names_def count_compact_def)
  then have frame: "pool_frame h h'" using b
    by (simp add: pool_frame_def) (simp add: h'_def set_names_def count_compact_def)
  have "live_names h' = names xs + names ys"
    using parts names_none [OF rest] by (simp add: live_names_eq)
  moreover have "\<forall>b' bs. buffer p2 = Some (b', bs) \<longrightarrow> b' < hp_next hp" using tight(3) b by auto
  ultimately have "pool_inv p' hp (live_names h')"
    unfolding p'_def using laid_out_pool_inv [OF tight(1)] laid by simp
  moreover have "buffer p' \<noteq> None" using tight(1) by (auto simp: p'_def pool_tight_def)
  ultimately show ?thesis using run frame tight(2) total2 parts(3,4) by (auto simp: p'_def)
qed

section \<open>Growth keeps every key\<close>

definition rebase :: "nat \<Rightarrow> coucal_key \<Rightarrow> coucal_key" where
  "rebase b k = (case k of KPool b' off \<Rightarrow> KPool b off | _ \<Rightarrow> k)"

definition rebase_item :: "nat \<Rightarrow> coucal_item \<Rightarrow> coucal_item" where
  "rebase_item b it = it\<lparr>name := rebase b (name it)\<rparr>"

lemma recompute_items_correct:
  assumes "\<forall>it \<in> set xs. name it = KNull \<or> pooled_key p (name it)"
    and "\<forall>b bs. buffer p = Some (b, bs) \<longrightarrow> length bs \<le> cap"
  shows "recompute_items (map_option fst (buffer p)) b cap xs = Inr (map (rebase_item b) xs)"
  using assms(1)
proof (induction xs)
  case (Cons it xs)
  have "recompute_string (map_option fst (buffer p)) b cap (name it) = Inr (rebase b (name it))"
  proof (cases "name it")
    case (KPool b' off)
    then obtain s where "deref p (KPool b' off) = Some s" using Cons.prems by auto
    then obtain bs where bs: "buffer p = Some (b', bs)" "c_string_at bs off = Some s"
      by (auto simp: deref_def split: option.splits if_splits)
    then have "off < cap" using c_string_at_bound [OF bs(2)] assms(2) by fastforce
    then show ?thesis using bs(1) KPool by (simp add: recompute_string_def rebase_def)
  qed (use Cons.prems in \<open>auto simp: recompute_string_def rebase_def\<close>)
  then show ?case using Cons by (simp add: rebase_item_def)
qed simp

lemma rebase_pooled:
  assumes "buffer p' = Some (b, pool_bytes p)" and "pooled_key p k"
  shows "deref p' (rebase b k) = deref p k" and "pooled_key p' (rebase b k)"
    and "stored_len p' (rebase b k) = stored_len p k" and "region p' (rebase b k) = region p k"
proof -
  show d: "deref p' (rebase b k) = deref p k"
    using assms by (cases k) (auto simp: rebase_def deref_def pool_bytes_def
        split: option.splits if_splits)
  show "pooled_key p' (rebase b k)"
    using assms(2) d by (cases k) (auto simp: rebase_def)
  show l: "stored_len p' (rebase b k) = stored_len p k"
    using d by (cases k) (simp_all add: stored_len_def rebase_def)
  show "region p' (rebase b k) = region p k"
    using l by (cases k) (simp_all add: region_def rebase_def)
qed

lemma rebase_regions:
  assumes "buffer p' = Some (b, pool_bytes p)" and "regions_ok p N"
  shows "regions_ok p' (image_mset (rebase b) N)"
    and "(\<Sum>k \<in># image_mset (rebase b) N. stored_len p' k) = (\<Sum>k \<in># N. stored_len p k)"
proof -
  have ok: "pooled_key p k" if "k \<in># N" for k using assms(2) that by (simp add: regions_ok_def)
  note eq = rebase_pooled [OF assms(1) ok]
  have "pairwise_mset (\<lambda>x y. apart p' (rebase b x) (rebase b y)) N = pairwise_mset (apart p) N"
    by (rule pairwise_mset_cong) (simp add: apart_def eq)
  then show "regions_ok p' (image_mset (rebase b) N)"
    using assms(2) eq(2)
    by (auto simp: regions_ok_def pairwise_mset_image [of "apart p'", OF apart_sym])
  show "(\<Sum>k \<in># image_mset (rebase b) N. stored_len p' k) = (\<Sum>k \<in># N. stored_len p k)"
    unfolding image_mset.compositionality comp_def
    by (intro arg_cong [of _ _ sum_mset] image_mset_cong) (simp add: eq)
qed

lemma names_rebase: "names (map (rebase_item b) xs) = image_mset (rebase b) (names xs)"
proof (induction xs)
  case (Cons x xs)
  then show ?case by (auto simp: rebase_item_def rebase_def split: coucal_key.split)
qed simp

lemma rebase_renamed:
  assumes "buffer p' = Some (b, pool_bytes p)" and "name it = KNull \<or> pooled_key p (name it)"
  shows "renamed p p' it (rebase_item b it)"
  using assms(2) rebase_pooled(1) [OF assms(1), of "name it"]
  by (auto simp: renamed_def rebase_item_def rebase_def split: coucal_key.split)

lemma rebase_item_id:
  assumes "name it = KNull \<or> pooled_key p (name it)" and "map_option fst (buffer p) = Some b"
  shows "rebase_item b it = it"
  using assms by (auto simp: rebase_item_def rebase_def deref_def split: coucal_key.splits if_splits)

definition grown :: "struct_coucal \<Rightarrow> nat \<Rightarrow> nat \<Rightarrow> c_heap \<Rightarrow> struct_coucal" where
  "grown h b cap hp = (count_realloc h)\<lparr>
     items := map (rebase_item b) (items h),
     stash := (stash h)\<lparr>stash_items := map (rebase_item b) (stash_items (stash h))\<rparr>,
     pool := (pool h)\<lparr>buffer := Some (b, pool_bytes (pool h)), capacity := cap\<rparr>, heap := hp\<rparr>"

lemma grown_correct:
  assumes inv: "slots_inv h" and pinv: "pool_inv (pool h) (heap h) (live_names h)"
    and cap: "pool_size (pool h) \<le> cap" "cap \<le> ptrdiff_max"
    and hp: "hp = (heap h)\<lparr>hp_next := Suc (hp_next (heap h))\<rparr>" and b: "b < hp_next hp"
    and keys: "\<forall>it \<in> set (items h) \<union> set (stash_items (stash h)).
      name it = KNull \<or> pooled_key (pool h) (name it)"
  shows "pool_frame h (grown h b cap hp)"
    and "pool_inv (pool (grown h b cap hp)) hp (live_names (grown h b cap hp))"
proof -
  let ?h = "grown h b cap hp"
  have buf: "buffer (pool ?h) = Some (b, pool_bytes (pool h))" by (simp add: grown_def)
  have "list_all2 (renamed (pool h) (pool ?h)) xs (map (rebase_item b) xs)"
    if "set xs \<subseteq> set (items h) \<union> set (stash_items (stash h))" for xs
    using that keys rebase_renamed [OF buf] by (auto simp: list_all2_conv_all_nth subset_iff)
  from this [of "items h"] this [of "stash_items (stash h)"]
  have "renamed_slots h ?h" unfolding renamed_slots_def by (simp add: grown_def)
  then show "pool_frame h ?h"
    by (simp add: pool_frame_def hp) (simp add: grown_def count_realloc_def)
  have N: "live_names ?h = image_mset (rebase b) (live_names h)"
    by (simp add: live_names_eq names_rebase grown_def)
  note regs = rebase_regions [OF buf, of "live_names h", folded N]
  have len: "length (pool_bytes (pool h)) = pool_size (pool h)"
    using pinv by (auto simp: pool_inv_def pool_bytes_def split: option.splits)
  have eq: "pool_size (pool ?h) = pool_size (pool h)" "capacity (pool ?h) = cap"
      "pool_used (pool ?h) = pool_used (pool h)" by (simp_all add: grown_def)
  show "pool_inv (pool ?h) hp (live_names ?h)"
    unfolding pool_inv_def eq buf using pinv regs len cap b by (simp add: pool_inv_def)
qed

text \<open>The branch that keeps the layout, with the block moved or in place.\<close>

lemma realloc_in_place:
  assumes dense: "\<not> pool_used (pool h) < size_mul (pool_size (pool h)) 3 div 4"
    and dup: "key_dup (custom h) = None" and m: "c_realloc (heap h) (map_option fst (buffer (pool h))) cap = (Some b, hp)"
    and len: "length (pool_bytes (pool h)) = pool_size (pool h)" "pool_size (pool h) \<le> cap"
    and keys: "\<forall>it \<in> set (items h) \<union> set (stash_items (stash h)).
      name it = KNull \<or> pooled_key (pool h) (name it)"
    and same: "Some b = map_option fst (buffer (pool h))"
  shows "coucal_realloc_pool h cap = Inr (grown h b cap hp)"
proof -
  have id: "rebase_item b it = it" if "it \<in> set (items h) \<union> set (stash_items (stash h))" for it
    using keys that rebase_item_id same by metis
  have "map (rebase_item b) (items h) = items h"
      "map (rebase_item b) (stash_items (stash h)) = stash_items (stash h)"
    by (rule map_idI; use id in simp)+
  then show ?thesis using dense m dup len
    by (simp add: coucal_realloc_pool_def Let_def count_realloc_def grown_def same [symmetric])
qed

lemma realloc_moved:
  assumes inv: "slots_inv h" and dense: "\<not> pool_used (pool h) < size_mul (pool_size (pool h)) 3 div 4"
    and dup: "key_dup (custom h) = None" and m: "c_realloc (heap h) (map_option fst (buffer (pool h))) cap = (Some b, hp)"
    and len: "length (pool_bytes (pool h)) = pool_size (pool h)" "pool_size (pool h) \<le> cap"
    and keys: "\<forall>it \<in> set (items h) \<union> set (stash_items (stash h)).
      name it = KNull \<or> pooled_key (pool h) (name it)"
    and old: "\<forall>b bs. buffer (pool h) = Some (b, bs) \<longrightarrow> length bs \<le> cap"
    and moved: "Some b \<noteq> map_option fst (buffer (pool h))"
  shows "coucal_realloc_pool h cap = Inr (grown h b cap hp)"
proof -
  have S: "table_inv h" "stash_shape (stash h)"
    using inv slots_inv_shape by (simp_all add: slots_shape_def)
  have rec: "recompute_items (map_option fst (buffer (pool h))) b cap xs = Inr (map (rebase_item b) xs)"
    if "set xs \<subseteq> set (items h) \<union> set (stash_items (stash h))" for xs
    by (rule recompute_items_correct) (use that keys old in auto)
  have "map (rebase_item b) (stash_rest h) = stash_rest h"
    by (rule map_idI) (use stash_above_extent [OF S(2)] in \<open>auto simp: rebase_item_def rebase_def\<close>)
  then have whole: "map (rebase_item b) (stash_used h) @ stash_rest h = map (rebase_item b) (stash_items (stash h))"
    by (metis append_take_drop_id map_append)
  have "length (stash_used h) = extent (stash h)" using stash_shapeD(1,2) [OF S(2)] by simp
  then show ?thesis
    using dense moved m dup len table_invD [OF S(1)] rec [of "items h"] rec [of "stash_used h"]
      set_take_subset [of "extent (stash h)" "stash_items (stash h)"] whole
    by (simp add: coucal_realloc_pool_def Let_def count_realloc_def grown_def set_names_def le_supI2)
qed

lemma realloc_pool_correct:
  assumes inv: "slots_inv h" and dup: "key_dup (custom h) = None"
    and pinv: "pool_inv (pool h) (heap h) (live_names h)"
    and cap: "pool_size (pool h) \<le> cap" "cap \<le> ptrdiff_max"
  shows "(\<exists>e \<in> {A_pool_compaction_error, A_pool_allocation_error}.
            coucal_realloc_pool h cap = Inl (AssertFailed e) \<and> heap_refuses (heap h))
    \<or> (\<exists>h'. coucal_realloc_pool h cap = Inr h' \<and> pool_frame h h' \<and>
         pool_inv (pool h') (heap h') (live_names h') \<and> capacity (pool h') = cap \<and>
         pool_size (pool h') \<le> pool_size (pool h) \<and> buffer (pool h') \<noteq> None)"
proof (cases "pool_used (pool h) < size_mul (pool_size (pool h)) 3 div 4")
  case True
  have reg: "regions_ok (pool h) (live_names h)"
    and le: "(\<Sum>k \<in># live_names h. stored_len (pool h) k) \<le> pool_size (pool h)"
    using pinv by (simp_all add: pool_inv_def)
  have "coucal_realloc_pool h cap = coucal_compact_pool h cap"
    using True dup by (simp add: coucal_realloc_pool_def Let_def)
  then show ?thesis
    using compact_pool_correct [OF slots_inv_shape [OF inv] dup reg order_trans [OF le cap(1)]] cap(2) le by auto
next
  case dense: False
  let ?old = "map_option fst (buffer (pool h))"
  obtain r hp where m: "c_realloc (heap h) ?old cap = (r, hp)" by fastforce
  show ?thesis
  proof (cases r)
    case None
    then show ?thesis using dense m dup c_realloc_refused [of "heap h" ?old cap] cap(2)
      by (simp add: coucal_realloc_pool_def Let_def count_realloc_def)
  next
    case (Some b)
    have len: "length (pool_bytes (pool h)) = pool_size (pool h)"
      using pinv by (auto simp: pool_inv_def pool_bytes_def split: option.splits)
    have old: "\<forall>b bs. buffer (pool h) = Some (b, bs) \<longrightarrow> length bs \<le> cap \<and> b < hp_next (heap h)"
      using pinv cap by (auto simp: pool_inv_def)
    have b: "hp = (heap h)\<lparr>hp_next := Suc (hp_next (heap h))\<rparr>" "b < hp_next hp"
      using c_realloc_cases [OF m] Some old by (auto simp: less_Suc_eq)
    have keys: "\<forall>it \<in> set (items h) \<union> set (stash_items (stash h)).
        name it = KNull \<or> pooled_key (pool h) (name it)"
      using pinv names_mem by (auto simp: pool_inv_def regions_ok_def live_names_eq)
    note how = dense dup m [unfolded Some] len cap(1) keys
    have "coucal_realloc_pool h cap = Inr (grown h b cap hp)"
      using realloc_in_place [OF how] realloc_moved [OF inv how] old by blast
    then show ?thesis using grown_correct [OF inv pinv cap b keys] by (simp add: grown_def)
  qed
qed

section \<open>Copying a key in\<close>

lemma pool_inv_tight:
  "pool_inv p hp N \<Longrightarrow> buffer p \<noteq> None \<Longrightarrow> pool_tight p"
  by (auto simp: pool_inv_def pool_tight_def)

lemma pool_inv_regions: "pool_inv p hp N \<Longrightarrow> regions_ok p N"
  by (simp add: pool_inv_def)

lemma pool_inv_later: "pool_inv p hp N \<Longrightarrow> hp_next hp \<le> hp_next hp' \<Longrightarrow> pool_inv p hp' N"
  by (auto simp: pool_inv_def split: option.splits)

lemma region_bound:
  assumes "pooled_key p k" and "\<forall>b bs. buffer p = Some (b, bs) \<longrightarrow> length bs = pool_size p"
  shows "region p k \<subseteq> {..<pool_size p}"
  using assms(1)
proof (cases rule: pooled_keyE)
  case (2 b off s)
  then obtain bs where "buffer p = Some (b, bs)" "c_string_at bs off = Some s"
    by (auto simp: deref_def split: option.splits if_splits)
  then show ?thesis using c_string_at_bound [of bs off s] assms(2) 2(1,3)
    by (auto simp: region_def stored_len_KPool)
qed simp

lemma regions_ok_ext:
  assumes "pool_ext p p'" and "regions_ok p N"
  shows "regions_ok p' N" and "(\<Sum>k \<in># N. stored_len p' k) = (\<Sum>k \<in># N. stored_len p k)"
proof -
  have ok: "pooled_key p k" if "k \<in># N" for k using assms(2) that by (simp add: regions_ok_def)
  note eq = pool_ext_key [OF assms(1) ok]
  have "pairwise_mset (apart p') N = pairwise_mset (apart p) N"
    by (rule pairwise_mset_cong) (simp add: apart_def eq)
  then show "regions_ok p' N" using assms(2) eq(2) by (simp add: regions_ok_def)
  show "(\<Sum>k \<in># N. stored_len p' k) = (\<Sum>k \<in># N. stored_len p k)"
    by (intro arg_cong [of _ _ sum_mset] image_mset_cong) (simp add: eq)
qed

lemma pool_ext_slots:
  assumes "pool_ext p (pool h')" and "regions_ok p (live_names h)" and "p = pool h"
    and "items h' = items h" and "stash h' = stash h"
  shows "renamed_slots h h'"
proof -
  have "name it = KNull \<or> deref (pool h') (name it) = deref (pool h) (name it)"
    if "it \<in> set (items h) \<union> set (stash_items (stash h))" for it
    using that assms(1-3) pool_ext_key(1) names_mem [of it "items h"]
      names_mem [of it "stash_items (stash h)"]
    by (auto simp: regions_ok_def live_names_eq)
  then have "renamed (pool h) (pool h') it it"
    if "it \<in> set (items h) \<union> set (stash_items (stash h))" for it
    using that by (fastforce simp: renamed_def)
  then show ?thesis using assms(4,5)
    by (auto simp: renamed_slots_def intro!: list_all2_refl_in)
qed

text \<open>The string \<open>s\<close> appended to the block, with its NUL.\<close>

definition pool_append :: "coucal_pool \<Rightarrow> nat \<Rightarrow> byte list \<Rightarrow> byte list \<Rightarrow> coucal_pool" where
  "pool_append p b bs s =
     p\<lparr>buffer := Some (b, bs @ s @ [0]), pool_size := pool_size p + Suc (length s),
       pool_used := pool_used p + Suc (length s)\<rparr>"

lemma pool_append_correct:
  assumes inv: "pool_inv (pool h) (heap h) (live_names h)" and buf: "buffer (pool h) = Some (b, bs)"
    and s: "s \<noteq> []" "0 \<notin> set s" and room: "pool_size (pool h) + Suc (length s) \<le> capacity (pool h)"
  defines "h' \<equiv> h\<lparr>pool := pool_append (pool h) b bs s\<rparr>" and "k \<equiv> KPool b (pool_size (pool h))"
  shows "pool_frame h h'" and "pool_inv (pool h') (heap h') (add_mset k (live_names h'))"
    and "deref (pool h') k = Some s"
proof -
  define p where "p = pool h"
  define p1 where "p1 = p\<lparr>buffer := Some (b, bs @ s @ [0]), pool_size := pool_size p + Suc (length s)\<rparr>"
  have p': "pool h' = p1\<lparr>pool_used := pool_used p + Suc (length s)\<rparr>"
    by (simp add: h'_def p1_def pool_append_def p_def)
  have tight: "pool_tight p" and len: "length bs = pool_size p"
    using pool_inv_tight [OF inv] inv buf by (simp_all add: p_def pool_inv_def)
  have ext: "pool_ext p p1" using tight room buf len
    by (auto simp: pool_ext_def pool_tight_def p1_def p_def)
  have d1: "deref p1 k = Some s"
    using c_string_at_end [OF s(2), of bs "[]"] len
    by (simp add: deref_def p1_def k_def flip: p_def)
  then show d: "deref (pool h') k = Some s" by (simp add: p')
  have reg: "regions_ok p (live_names h)" using inv by (simp add: pool_inv_def p_def)
  have same: "live_names h' = live_names h" by (simp add: h'_def live_names_eq)
  have "renamed_slots h h'"
  proof -
    have "renamed_slots h (h\<lparr>pool := p1\<rparr>)"
      by (rule pool_ext_slots [of p]) (use ext reg in \<open>simp_all add: p_def\<close>)
    then show ?thesis by (simp add: renamed_slots_def p') (simp add: h'_def)
  qed
  then show "pool_frame h h'" by (simp add: pool_frame_def) (simp add: h'_def)
  note regs = regions_ok_ext [OF ext reg]
  have new: "region p1 k = {pool_size p..<pool_size p + Suc (length s)}"
      "stored_len p1 k = Suc (length s)"
    using d1 by (simp_all add: k_def region_def stored_len_KPool p_def)
  have "apart p1 k k'" if "k' \<in># live_names h" for k'
  proof -
    have ok: "pooled_key p k'" using reg that by (simp add: regions_ok_def)
    have "region p k' \<subseteq> {..<pool_size p}"
      using ok by (rule region_bound) (use buf len in \<open>simp add: p_def\<close>)
    then show ?thesis using pool_ext_key(4) [OF ext ok] new by (auto simp: apart_def)
  qed
  moreover have "pooled_key p1 k" using d1 s by (simp add: k_def)
  ultimately have "regions_ok p1 (add_mset k (live_names h'))"
    using regs(1) by (simp add: regions_ok_add same)
  moreover have "buffer (pool h') = Some (b, bs @ s @ [0])"
      "pool_size (pool h') = pool_size p + Suc (length s)"
      "pool_used (pool h') = pool_used p + Suc (length s)"
      "capacity (pool h') = capacity p" "heap h' = heap h"
    by (simp_all add: p' p1_def) (simp add: h'_def)
  ultimately show "pool_inv (pool h') (heap h') (add_mset k (live_names h'))"
    using inv regs(2) new buf room by (simp add: pool_inv_def p' same flip: p_def)
qed

text \<open>How the capacity changes when a key of \<open>len\<close> bytes is copied in.\<close>

definition capacity_step :: "coucal_pool \<Rightarrow> nat \<Rightarrow> coucal_pool \<Rightarrow> bool" where
  "capacity_step p len p' \<longleftrightarrow>
     (if capacity p - pool_size p < len
      then pool_capacity_for MIN_POOL_CAPACITY (pool_size p + len) = Some (capacity p')
      else capacity p' = capacity p)"

text \<open>
  Making room: whatever the key pointed to, its bytes can be read afterwards, since a key inside
  the pool was staged before the pool moved.
\<close>

abbreviation pool_ok :: "struct_coucal \<Rightarrow> bool" where
  "pool_ok h \<equiv> slots_inv h \<and> key_dup (custom h) = None \<and>
     pool_inv (pool h) (heap h) (live_names h)"

lemma pool_capacity_for_room:
  assumes "n \<le> 2 ^ 62" and "0 < n"
  obtains cap where "pool_capacity_for MIN_POOL_CAPACITY n = Some cap" "n \<le> cap" "cap \<le> ptrdiff_max"
proof -
  obtain j where j: "8 \<le> j" "j \<le> 63" "pool_capacity_for (2 ^ 8) n = Some (2 ^ j)" "n \<le> 2 ^ j"
      "j = 8 \<or> 2 ^ j < 2 * n"
    using pool_capacity_for_pow2 [of 8 n] assms by auto
  have "j \<le> 62"
  proof (rule ccontr)
    assume "\<not> j \<le> 62"
    then have "j = 63" using j(2) by simp
    then show False using j(5) assms(1) by simp
  qed
  then have "(2::nat) ^ j \<le> 2 ^ 62" by (rule power_increasing) simp
  also have "(2::nat) ^ 62 \<le> ptrdiff_max" by (simp add: ptrdiff_max_def)
  finally show ?thesis using that [of "2 ^ j"] j(3,4) by (simp add: MIN_POOL_CAPACITY_def)
qed

lemma staged_key:
  assumes "pool_inv (pool h) (heap h) (live_names h)" and "deref (pool h) k = Some s"
  obtains "coucal_is_pooled h k" | "k = KEmpty" | a where "k = KExt a s"
proof (cases k)
  case (KPool b off)
  then obtain bs where bs: "buffer (pool h) = Some (b, bs)" "c_string_at bs off = Some s"
    using assms(2) by (auto simp: deref_def split: option.splits if_splits)
  moreover have "length bs \<le> capacity (pool h)" using assms(1) bs(1) by (simp add: pool_inv_def)
  ultimately have "coucal_is_pooled h k"
    using KPool c_string_at_bound [OF bs(2)] by (simp add: coucal_is_pooled_def)
  then show ?thesis by (rule that(1))
qed (use assms(2) that in \<open>auto simp: deref_def\<close>)

lemma renamed_trans: "renamed p p' x y \<Longrightarrow> renamed p' p'' y z \<Longrightarrow> renamed p p'' x z"
  by (simp add: renamed_def)

lemma renamed_list_trans:
  "list_all2 (renamed p p') xs ys \<Longrightarrow> list_all2 (renamed p' p'') ys zs \<Longrightarrow>
   list_all2 (renamed p p'') xs zs"
  by (erule (1) list_all2_trans [rotated]) (rule renamed_trans)

lemma pool_frame_trans: "pool_frame h h' \<Longrightarrow> pool_frame h' h'' \<Longrightarrow> pool_frame h h''"
  unfolding pool_frame_def renamed_slots_def by (auto intro: renamed_list_trans)

lemma pool_frame_heap: "hp = (heap h)\<lparr>hp_next := n\<rparr> \<Longrightarrow> pool_frame h (h\<lparr>heap := hp\<rparr>)"
  by (simp add: pool_frame_def renamed_slots_def list_all2_refl)

lemma pool_frame_pool_ok:
  "slots_inv h \<Longrightarrow> key_dup (custom h) = None \<Longrightarrow> pool_frame h h' \<Longrightarrow>
   pool_inv (pool h') (heap h') (live_names h') \<Longrightarrow> pool_ok h'"
  using pool_frame_slots_inv by (simp add: pool_frame_def)

lemma pooled_stored_len:
  assumes "pooled_key p k"
  shows "stored_len p k = (case deref p k of Some (c # s) \<Rightarrow> length s + 2 | _ \<Rightarrow> 0)"
  using assms by (auto simp: pooled_key_def stored_len_def deref_def neq_Nil_conv)

lemma pool_frame_stored:
  assumes frame: "pool_frame h h'"
    and "regions_ok (pool h) (live_names h)" and "regions_ok (pool h') (live_names h')"
  shows "(\<Sum>k \<in># live_names h'. stored_len (pool h') k) = (\<Sum>k \<in># live_names h. stored_len (pool h) k)"
proof -
  define len where "len e = (case fst e of Some (c # s) \<Rightarrow> length s + 2 | _ \<Rightarrow> (0::nat))"
    for e :: "byte list option \<times> coucal_value \<times> coucal_hashkeys"
  have "image_mset (stored_len (pool t)) (live_names t) = image_mset len (entries t)"
    if "regions_ok (pool t) (live_names t)" for t
    using that by (auto simp: live_names_def entries_def entry_def len_def regions_ok_def
        pooled_stored_len multiset.map_comp o_def intro!: image_mset_cong)
  then show ?thesis using assms pool_frame_entries [OF frame] by simp
qed

definition pool_errors :: "assertion set" where
  "pool_errors = {A_pool_compaction_error, A_pool_allocation_error, A_key_staging_error}"

lemma stage_key_correct:
  assumes "pool_inv (pool h) (heap h) (live_names h)" and key: "deref (pool h) k = Some s"
    and s: "s \<noteq> []" and "length s < 2 ^ 62"
  shows "stage_key h k (Suc (length s)) = Inl (AssertFailed A_key_staging_error) \<and> heap_refuses (heap h)
    \<or> (\<exists>n a. n \<ge> hp_next (heap h) \<and>
         stage_key h k (Suc (length s)) = Inr (h\<lparr>heap := (heap h)\<lparr>hp_next := n\<rparr>\<rparr>, KExt a s))"
proof (cases "coucal_is_pooled h k")
  case True
  obtain r hp where m: "c_malloc (heap h) (Suc (length s)) = (r, hp)" by fastforce
  have small: "Suc (length s) \<le> ptrdiff_max" using assms(4) by (simp add: ptrdiff_max_def)
  show ?thesis
  proof (cases r)
    case None
    then show ?thesis using m True c_malloc_refused [OF _ small, of "heap h"]
      by (simp add: stage_key_def)
  next
    case (Some a)
    then show ?thesis using m True c_malloc_cases [OF m] read_bytes_string [OF key]
      by (auto simp: stage_key_def intro!: exI [of _ "Suc (hp_next (heap h))"])
  qed
next
  case False
  then obtain a where "k = KExt a s"
    using staged_key [OF assms(1) key] key s by (cases k) (auto simp: deref_def)
  then show ?thesis using False
    by (auto simp: stage_key_def intro!: exI [of _ "hp_next (heap h)"])
qed

lemma pool_ok_later:
  assumes "pool_ok h" and "n \<ge> hp_next (heap h)"
  shows "pool_ok (h\<lparr>heap := (heap h)\<lparr>hp_next := n\<rparr>\<rparr>)"
  using assms pool_inv_later [of "pool h" "heap h" "live_names h" "(heap h)\<lparr>hp_next := n\<rparr>"]
  by (simp add: slots_inv_def table_inv_def live_names_eq)

text \<open>What a pool that makes room for \<open>s\<close>, under the key \<open>k'\<close>, keeps and gains.\<close>

definition made_room :: "struct_coucal \<Rightarrow> byte list \<Rightarrow> struct_coucal \<Rightarrow> coucal_key \<Rightarrow> bool" where
  "made_room h s h' k' \<longleftrightarrow>
     pool_frame h h' \<and> pool_ok h' \<and> pool_size (pool h') + Suc (length s) \<le> capacity (pool h') \<and>
     pool_size (pool h') \<le> pool_size (pool h) \<and>
     capacity_step (pool h) (Suc (length s)) (pool h') \<and>
     buffer (pool h') \<noteq> None \<and> deref (pool h') k' = Some s"

lemma expand_pool_correct:
  assumes ok: "pool_ok h" and key: "deref (pool h) k = Some s" and s: "s \<noteq> []"
    and fits: "pool_size (pool h) + length s < 2 ^ 62"
    and full: "capacity (pool h) - pool_size (pool h) < Suc (length s)"
  shows "(\<exists>e \<in> pool_errors.
            expand_pool h k (Suc (length s)) = Inl (AssertFailed e) \<and> heap_refuses (heap h))
    \<or> (\<exists>h' k'. expand_pool h k (Suc (length s)) = Inr (h', k') \<and> made_room h s h' k')"
proof -
  let ?n = "pool_size (pool h) + Suc (length s)"
  obtain cap where cap: "pool_capacity_for MIN_POOL_CAPACITY ?n = Some cap" "?n \<le> cap"
      "cap \<le> ptrdiff_max"
    using pool_capacity_for_room [of ?n] fits by auto
  have add: "size_add (pool_size (pool h)) (Suc (length s)) = ?n" using fits by simp
  consider (staging) "stage_key h k (Suc (length s)) = Inl (AssertFailed A_key_staging_error)"
      "heap_refuses (heap h)"
    | (staged) n a where "n \<ge> hp_next (heap h)"
      "stage_key h k (Suc (length s)) = Inr (h\<lparr>heap := (heap h)\<lparr>hp_next := n\<rparr>\<rparr>, KExt a s)"
    using stage_key_correct [of h k s] ok key s fits by auto
  then show ?thesis
  proof cases
    case staging
    then show ?thesis by (simp add: expand_pool_def pool_errors_def)
  next
    case (staged n a)
    define h1 where "h1 = h\<lparr>heap := (heap h)\<lparr>hp_next := n\<rparr>\<rparr>"
    have ok1: "pool_ok h1" unfolding h1_def by (rule pool_ok_later [OF ok staged(1)])
    have frame1: "pool_frame h h1" unfolding h1_def by (rule pool_frame_heap) simp
    have eq: "pool h1 = pool h" "heap_refuses (heap h1) = heap_refuses (heap h)"
      by (simp_all add: h1_def heap_refuses_def)
    have run: "expand_pool h k (Suc (length s)) =
        bind_res (coucal_realloc_pool h1 cap) (\<lambda>h. Inr (h, KExt a s))"
      using staged(2) cap add by (simp add: expand_pool_def flip: h1_def) (simp add: eq)
    consider (bad) e where "e \<in> {A_pool_compaction_error, A_pool_allocation_error}"
        "coucal_realloc_pool h1 cap = Inl (AssertFailed e)" "heap_refuses (heap h1)"
      | (good) h' where "coucal_realloc_pool h1 cap = Inr h'" "pool_frame h1 h'"
        "pool_inv (pool h') (heap h') (live_names h')" "capacity (pool h') = cap"
        "pool_size (pool h') \<le> pool_size (pool h1)" "buffer (pool h') \<noteq> None"
      using realloc_pool_correct [of h1 cap] ok1 cap(2,3) eq by auto
    then show ?thesis
    proof cases
      case bad
      then show ?thesis using run eq by (auto simp: pool_errors_def)
    next
      case good
      have "pool_ok h'" using pool_frame_pool_ok [of h1 h'] ok1 good(2,3) by simp
      then show ?thesis
        using run good eq cap(1,2) full pool_frame_trans [OF frame1 good(2)]
        by (simp add: deref_def made_room_def capacity_step_def)
    qed
  qed
qed

lemma enough_room:
  assumes "pool_ok h" and "deref (pool h) k = Some s"
    and "\<not> capacity (pool h) - pool_size (pool h) < Suc (length s)"
  shows "made_room h s h k"
proof -
  have "pool_size (pool h) + Suc (length s) \<le> capacity (pool h)"
    using assms(1,3) by (simp add: pool_inv_def)
  moreover from this have "buffer (pool h) \<noteq> None"
    using assms(1) by (cases "buffer (pool h)") (auto simp: pool_inv_def)
  moreover have "pool_frame h h" by (simp add: pool_frame_def renamed_slots_refl)
  ultimately show ?thesis using assms by (simp add: made_room_def capacity_step_def)
qed

lemma append_key_correct:
  assumes room: "made_room h s h1 k" and s: "s \<noteq> []" "0 \<notin> set s"
  obtains h' k' where "append_key h1 k (Suc (length s)) = Inr (h', k')" and "pool_frame h h'"
    and "pool_inv (pool h') (heap h') (add_mset k' (live_names h'))" and "deref (pool h') k' = Some s"
    and "pool_size (pool h') \<le> pool_size (pool h) + Suc (length s)"
    and "capacity_step (pool h) (Suc (length s)) (pool h')"
proof -
  let ?len = "Suc (length s)"
  have R: "pool_frame h h1" "pool_ok h1" "pool_size (pool h1) + ?len \<le> capacity (pool h1)"
      "pool_size (pool h1) \<le> pool_size (pool h)" "capacity_step (pool h) ?len (pool h1)"
      "buffer (pool h1) \<noteq> None" "deref (pool h1) k = Some s"
    using room by (simp_all add: made_room_def)
  obtain b bs where buf: "buffer (pool h1) = Some (b, bs)" using R(6) by auto
  have inv: "pool_inv (pool h1) (heap h1) (live_names h1)" using R(2) by simp
  then have n: "length bs = pool_size (pool h1)" "capacity (pool h1) < 2 ^ 63"
      "pool_used (pool h1) \<le> pool_size (pool h1)"
    using buf by (simp_all add: pool_inv_def ptrdiff_max_def)
  have adds: "size_add ?len (pool_size (pool h1)) = pool_size (pool h1) + ?len"
      "size_add (pool_size (pool h1)) ?len = pool_size (pool h1) + ?len"
      "size_add (pool_used (pool h1)) ?len = pool_used (pool h1) + ?len"
    using n R(3) by simp_all
  have wr: "write_bytes (capacity (pool h1)) bs (pool_size (pool h1)) (s @ [0]) = Inr (bs @ s @ [0])"
    using write_bytes_append [of bs "s @ [0]"] n(1) R(3) by simp
  note app = pool_append_correct [OF inv buf s R(3)]
  show ?thesis
  proof (rule that)
    show "append_key h1 k ?len =
        Inr (h1\<lparr>pool := pool_append (pool h1) b bs s\<rparr>, KPool b (pool_size (pool h1)))"
      using R(3) read_bytes_string [OF R(7)] buf adds wr
      by (simp add: append_key_def pool_append_def Let_def)
    show "pool_frame h (h1\<lparr>pool := pool_append (pool h1) b bs s\<rparr>)"
      by (rule pool_frame_trans [OF R(1) app(1)])
  qed (use app(2,3) R(4,5) in \<open>auto simp: pool_append_def capacity_step_def split: if_splits\<close>)
qed

lemma dup_name_internal_correct:
  assumes ok: "pool_ok h" and key: "deref (pool h) k = Some s" and z: "0 \<notin> set s"
    and fits: "pool_size (pool h) + length s < 2 ^ 62"
  shows "(\<exists>e \<in> pool_errors.
            coucal_dup_name_internal h k = Inl (AssertFailed e) \<and> heap_refuses (heap h))
    \<or> (\<exists>h' k'. coucal_dup_name_internal h k = Inr (h', k') \<and> pool_frame h h' \<and>
         pool_inv (pool h') (heap h') (add_mset k' (live_names h')) \<and>
         deref (pool h') k' = Some s \<and>
         pool_size (pool h') \<le> pool_size (pool h) + Suc (length s) \<and>
         (s \<noteq> [] \<longrightarrow> capacity_step (pool h) (Suc (length s)) (pool h')))"
proof (cases "s = []")
  case True
  have read: "read_key h k = Inr []" using key True by (simp add: read_key_def)
  have "pool_inv (pool h) (heap h) (add_mset KEmpty (live_names h))"
    using ok by (simp add: pool_inv_def regions_ok_add apart_def)
  moreover have "pool_frame h h" by (simp add: pool_frame_def renamed_slots_refl)
  ultimately show ?thesis using read True by (simp add: coucal_dup_name_internal_def)
next
  case False
  let ?len = "Suc (length s)" and ?full = "capacity (pool h) - pool_size (pool h) < Suc (length s)"
  define room where "room = (if ?full then expand_pool h k ?len else Inr (h, k))"
  have bounds: "pool_size (pool h) \<le> capacity (pool h)" "capacity (pool h) < 2 ^ 63"
    using ok by (simp_all add: pool_inv_def ptrdiff_max_def)
  have run: "coucal_dup_name_internal h k = bind_res room (\<lambda>(h, nm). append_key h nm ?len)"
    using False bounds fits key
    by (simp add: coucal_dup_name_internal_def read_key_def Let_def room_def)
  consider (bad) e where "e \<in> pool_errors" "room = Inl (AssertFailed e)" "heap_refuses (heap h)"
    | (good) h1 k1 where "room = Inr (h1, k1)" "made_room h s h1 k1"
    using expand_pool_correct [OF ok key False fits] enough_room [OF ok key]
    by (cases ?full) (auto simp: room_def)
  then show ?thesis
  proof cases
    case bad
    then show ?thesis using run by auto
  next
    case good
    obtain h' k' where "append_key h1 k1 ?len = Inr (h', k')" "pool_frame h h'"
        "pool_inv (pool h') (heap h') (add_mset k' (live_names h'))" "deref (pool h') k' = Some s"
        "pool_size (pool h') \<le> pool_size (pool h) + ?len" "capacity_step (pool h) ?len (pool h')"
      using append_key_correct [OF good(2) False z] .
    then show ?thesis using run good(1) by simp
  qed
qed

section \<open>Releasing a key\<close>

text \<open>The NUL that marks a released key falls in its own region only.\<close>

lemma poke_key:
  assumes "buffer p = Some (b, bs)" and "pooled_key p k'" and "off \<notin> region p k'"
  defines "p' \<equiv> p\<lparr>buffer := Some (b, bs[off := 0])\<rparr>"
  shows "deref p' k' = deref p k'"
  using assms(2)
proof (cases rule: pooled_keyE)
  case (2 b' off' s)
  then have b': "b' = b" "c_string_at bs off' = Some s"
    using assms(1) by (auto simp: deref_def split: if_splits)
  have "off < off' \<or> off' + length s < off"
    using assms(3) 2 by (auto simp: region_def stored_len_KPool)
  then show ?thesis using 2 b' c_string_at_poke [OF b'(2)] by (simp add: deref_def p'_def)
qed (simp add: p'_def)

lemma keys_unchanged:
  assumes "\<And>k. k \<in># N \<Longrightarrow> deref p' k = deref p k" and "regions_ok p N"
  shows "regions_ok p' N" and "(\<Sum>k \<in># N. stored_len p' k) = (\<Sum>k \<in># N. stored_len p k)"
proof -
  have len: "stored_len p' k = stored_len p k" if "k \<in># N" for k
    using assms(1) [OF that] by (cases k) (simp_all add: stored_len_def)
  then have reg: "region p' k = region p k" if "k \<in># N" for k
    using len [OF that] by (cases k) (simp_all add: region_def)
  have "pairwise_mset (apart p') N = pairwise_mset (apart p) N"
    by (rule pairwise_mset_cong) (simp add: apart_def reg)
  then show "regions_ok p' N" using assms by (simp add: regions_ok_def pooled_key_def)
  show "(\<Sum>k \<in># N. stored_len p' k) = (\<Sum>k \<in># N. stored_len p k)"
    by (intro arg_cong [of _ _ sum_mset] image_mset_cong) (simp add: len)
qed

lemma poke_pool_inv:
  assumes inv: "pool_inv p hp (add_mset (KPool b off) N)" and buf: "buffer p = Some (b, bs)"
    and s: "deref p (KPool b off) = Some s"
  defines "p' \<equiv> p\<lparr>pool_used := size_sub (pool_used p) (Suc (length s)),
                  buffer := Some (b, bs[off := 0])\<rparr>"
  shows "pool_inv p' hp N" and "\<And>k. k \<in># N \<Longrightarrow> deref p' k = deref p k"
proof -
  have reg: "regions_ok p N" and apart: "\<forall>k \<in># N. apart p (KPool b off) k"
    using inv by (simp_all add: pool_inv_def regions_ok_add)
  let ?q = "p\<lparr>buffer := Some (b, bs[off := 0])\<rparr>"
  have q: "deref ?q k = deref p k" if "k \<in># N" for k
  proof (rule poke_key [OF buf])
    show "pooled_key p k" using reg that by (simp add: regions_ok_def)
    have "off \<in> region p (KPool b off)" using s by (simp add: region_def stored_len_KPool)
    then show "off \<notin> region p k" using apart that by (auto simp: apart_def)
  qed
  have used: "pool_used p = Suc (length s) + (\<Sum>k \<in># N. stored_len p k)"
    using inv s by (simp add: pool_inv_def stored_len_KPool)
  have "pool_used p < 2 ^ 64" using inv by (simp add: pool_inv_def ptrdiff_max_def)
  then have used': "size_sub (pool_used p) (Suc (length s)) = (\<Sum>k \<in># N. stored_len p k)"
    using used by simp
  have p': "p' = ?q\<lparr>pool_used := size_sub (pool_used p) (Suc (length s))\<rparr>"
    by (simp add: p'_def)
  show "deref p' k = deref p k" if "k \<in># N" for k using q [OF that] by (simp add: p')
  note keys = keys_unchanged [OF q reg]
  show "pool_inv p' hp N"
    using inv keys used used' buf by (simp add: pool_inv_def p')
qed

text \<open>The state after a pooled key is released and before the pool is compacted.\<close>

lemma released_key:
  assumes shape: "slots_shape h" and inv: "pool_inv (pool h) (heap h) (add_mset (KPool b off) (live_names h))"
    and buf: "buffer (pool h) = Some (b, bs)" and s: "deref (pool h) (KPool b off) = Some s"
  defines "h' \<equiv> h\<lparr>pool := (pool h)\<lparr>pool_used := size_sub (pool_used (pool h)) (Suc (length s)),
                               buffer := Some (b, bs[off := 0])\<rparr>\<rparr>"
  shows "pool_frame h h'" and "slots_shape h'" and "pool_inv (pool h') (heap h') (live_names h')"
proof -
  have names: "live_names h' = live_names h" by (simp add: h'_def live_names_eq)
  note poke = poke_pool_inv [OF inv buf s]
  show "pool_inv (pool h') (heap h') (live_names h')" using poke(1) names by (simp add: h'_def)
  have "renamed (pool h) (pool h') it it" if "it \<in> set (items h) \<union> set (stash_items (stash h))" for it
    using that poke(2) [of "name it"] names_mem [of it "items h"] names_mem [of it "stash_items (stash h)"]
    by (cases "name it = KNull") (auto simp: renamed_def live_names_eq h'_def)
  then have "renamed_slots h h'" by (auto simp: renamed_slots_def h'_def intro!: list_all2_refl_in)
  then show "pool_frame h h'" by (simp add: pool_frame_def) (simp add: h'_def)
  show "slots_shape h'" using shape by (simp add: h'_def slots_shape_def table_inv_def)
qed

lemma compact_holes_correct:
  assumes shape: "slots_shape h" and dup: "key_dup (custom h) = None"
    and inv: "pool_inv (pool h) (heap h) (live_names h)"
  shows "compact_holes h = Inl (AssertFailed A_pool_compaction_error) \<and> heap_refuses (heap h)
    \<or> (\<exists>h'. compact_holes h = Inr h' \<and> pool_frame h h' \<and>
         pool_inv (pool h') (heap h') (live_names h') \<and> pool_size (pool h') \<le> pool_size (pool h))"
proof -
  let ?p = "pool h"
  define cap where "cap = (if pool_used ?p < capacity ?p div 4 then capacity ?p div 2 else capacity ?p)"
  have bounds: "pool_size ?p \<le> capacity ?p" "capacity ?p \<le> ptrdiff_max"
      "pool_used ?p = (\<Sum>k \<in># live_names h. stored_len ?p k)" "regions_ok ?p (live_names h)"
    using inv by (simp_all add: pool_inv_def)
  show ?thesis
  proof (cases "pool_used ?p \<noteq> 0 \<and> pool_used ?p < pool_size ?p div 2")
    case True
    have cap: "pool_used ?p < cap" "cap \<le> ptrdiff_max" "pool_used ?p \<le> pool_size ?p"
      using True bounds by (auto simp: cap_def)
    have "compact_holes h = coucal_compact_pool h cap"
      using True cap(1) by (simp add: compact_holes_def Let_def cap_def)
    then show ?thesis
      using compact_pool_correct [OF shape dup bounds(4), of cap] bounds(3) cap by auto
  next
    case False
    moreover have "pool_frame h h" by (simp add: pool_frame_def renamed_slots_refl)
    ultimately show ?thesis using inv by (auto simp: compact_holes_def)
  qed
qed

lemma free_key_internal_correct:
  assumes shape: "slots_shape h" and dup: "key_dup (custom h) = None"
    and inv: "pool_inv (pool h) (heap h) (add_mset k (live_names h))"
  shows "(coucal_free_key_internal h k = Inl (AssertFailed A_pool_compaction_error) \<and>
            heap_refuses (heap h))
    \<or> (\<exists>h'. coucal_free_key_internal h k = Inr h' \<and> pool_frame h h' \<and>
         pool_inv (pool h') (heap h') (live_names h') \<and>
         pool_size (pool h') \<le> pool_size (pool h))"
proof -
  have "pooled_key (pool h) k" using inv by (simp add: pool_inv_def regions_ok_add)
  then show ?thesis
  proof (cases rule: pooled_keyE)
    case 1
    have "pool_inv (pool h) (heap h) (live_names h)"
      using inv 1 by (simp add: pool_inv_def regions_ok_add)
    moreover have "coucal_free_key_internal h k = Inr h"
      using 1 by (simp add: coucal_free_key_internal_def read_key_def)
    ultimately show ?thesis using pool_frame_def renamed_slots_refl by auto
  next
    case (2 b off s)
    obtain bs where buf: "buffer (pool h) = Some (b, bs)" and str: "c_string_at bs off = Some s"
      using 2 by (auto simp: deref_def split: option.splits if_splits)
    have off: "off < length bs" and len: "length s < length bs"
      using c_string_at_bound [OF str] by simp_all
    have "length bs < 2 ^ 63" using inv buf by (simp add: pool_inv_def ptrdiff_max_def)
    then have add: "size_add (length s) (Suc 0) = Suc (length s)" using len by simp
    define h1 where "h1 = h\<lparr>pool := (pool h)\<lparr>pool_used := size_sub (pool_used (pool h)) (Suc (length s)),
        buffer := Some (b, bs[off := 0])\<rparr>\<rparr>"
    have inv': "pool_inv (pool h) (heap h) (add_mset (KPool b off) (live_names h))"
      and str': "deref (pool h) (KPool b off) = Some s"
      using inv 2 by simp_all
    note rel = released_key [OF shape inv' buf str', folded h1_def]
    have same: "heap h1 = heap h" "pool_size (pool h1) = pool_size (pool h)"
        "key_dup (custom h1) = None"
      using dup by (simp_all add: h1_def)
    have "coucal_free_key_internal h k = compact_holes h1"
      using 2 buf off add
      by (simp add: coucal_free_key_internal_def read_key_def Let_def poke_def h1_def)
    then show ?thesis
      using compact_holes_correct [OF rel(2) same(3) rel(3)] same(1,2) pool_frame_trans [OF rel(1)]
      by auto
  qed
qed

end
