(* ===== verification/Lookup.thy ===== *)
theory Lookup
  imports PoolCorrect
begin

text \<open>
  Reading from the table: the search for a key at its two positions and in the stash
  (\<open>coucal_fetch_value_hashes()\<close>), the accessors built on it, the invariant of a whole hashtable
  and the map from keys to values it stands for. The lemmas show that the search finds the
  entry whose key compares equal, and nothing else.
\<close>

section \<open>The search\<close>

text \<open>A \<open>coucal_value*\<close> (or \<open>coucal_item*\<close>) the library hands out points into one of two arrays.\<close>

datatype location = InTable nat | InStash nat

definition item_at :: "struct_coucal \<Rightarrow> location \<Rightarrow> coucal_item" where
  "item_at h loc =
     (case loc of InTable i \<Rightarrow> items h ! i | InStash i \<Rightarrow> stash_items (stash h) ! i)"

definition set_at :: "struct_coucal \<Rightarrow> location \<Rightarrow> coucal_item \<Rightarrow> struct_coucal" where
  "set_at h loc item = (case loc of InTable i \<Rightarrow> set_item h i item | InStash i \<Rightarrow> set_stash_item h i item)"

text \<open>\<open>for (i = 0; i < extent; i++) if (coucal_matches_(...))\<close>, by the slots left.\<close>

fun stash_search ::
  "struct_coucal \<Rightarrow> coucal_key \<Rightarrow> coucal_hashkeys \<Rightarrow> nat \<Rightarrow> nat \<Rightarrow> nat option res" where
  "stash_search h nm hk i 0 = Inr None"
| "stash_search h nm hk i (Suc n) =
     bind_res (coucal_matches_i h (stash_items (stash h) ! i) nm hk)
       (\<lambda>m. if m then Inr (Some i) else stash_search h nm hk (Suc i) n)"

definition coucal_fetch_value_hashes ::
  "struct_coucal \<Rightarrow> coucal_key \<Rightarrow> coucal_hashkeys \<Rightarrow> location option res" where
  "coucal_fetch_value_hashes h nm hk =
     (let pos = coucal_hash_to_pos h (hash1 hk) in
      bind_res (coucal_matches h pos nm hk) (\<lambda>m.
      if m then Inr (Some (InTable pos))
      else
        let pos = coucal_hash_to_pos h (hash2 hk) in
        bind_res (coucal_matches h pos nm hk) (\<lambda>m.
        if m then Inr (Some (InTable pos))
        else if stash_size (stash h) \<noteq> 0 then
          bind_res (stash_search h nm hk 0 (extent (stash h))) (\<lambda>r.
            Inr (map_option InStash r))
        else Inr None)))"

definition coucal_fetch_value :: "struct_coucal \<Rightarrow> coucal_key \<Rightarrow> location option res" where
  "coucal_fetch_value h nm =
     bind_res (coucal_calc_hashes h nm) (\<lambda>hk. coucal_fetch_value_hashes h nm hk)"

section \<open>Accessors\<close>

text \<open>
  An output parameter is \<open>None\<close> for a null pointer, and otherwise holds the value the function
  leaves behind the pointer; \<open>old\<close> is what was there before.
\<close>

definition coucal_read_value ::
  "struct_coucal \<Rightarrow> coucal_key \<Rightarrow> coucal_value option \<Rightarrow> (int \<times> coucal_value option) res" where
  "coucal_read_value h nm pvalue =
     bind_res (coucal_fetch_value h nm) (\<lambda>r.
       case r of
         Some loc \<Rightarrow> Inr (1, map_option (\<lambda>_. value (item_at h loc)) pvalue)
       | None \<Rightarrow> Inr (0, pvalue))"

definition coucal_read ::
  "struct_coucal \<Rightarrow> coucal_key \<Rightarrow> coucal_value option \<Rightarrow> (int \<times> coucal_value option) res" where
  "coucal_read h nm intvalue =
     bind_res (coucal_read_value h nm (map_option (\<lambda>_. 0) intvalue)) (\<lambda>(ret, v). Inr (ret, v))"

definition coucal_read_pvoid ::
  "struct_coucal \<Rightarrow> coucal_key \<Rightarrow> coucal_value option \<Rightarrow> (int \<times> coucal_value option) res" where
  "coucal_read_pvoid h nm pvalue =
     bind_res (coucal_read_value h nm (map_option (\<lambda>_. 0) pvalue)) (\<lambda>(ret, v). Inr (ret, v))"

definition coucal_get_pvoid :: "struct_coucal \<Rightarrow> coucal_key \<Rightarrow> coucal_value res" where
  "coucal_get_pvoid h nm =
     bind_res (coucal_read_pvoid h nm (Some 0)) (\<lambda>(ret, v).
       if ret = 0 then Inr 0 else Inr (the v))"

definition coucal_get_intptr :: "struct_coucal \<Rightarrow> coucal_key \<Rightarrow> coucal_value res" where
  "coucal_get_intptr h nm =
     bind_res (coucal_read h nm (Some 0)) (\<lambda>(ret, v).
       if ret = 0 then Inr 0 else Inr (the v))"

definition coucal_exists :: "struct_coucal \<Rightarrow> coucal_key \<Rightarrow> int res" where
  "coucal_exists h nm = bind_res (coucal_read_value h nm None) (\<lambda>(ret, v). Inr ret)"

text \<open>\<open>coucal_readptr()\<close> always reads, into a local variable when its pointer is null.\<close>

definition coucal_readptr ::
  "struct_coucal \<Rightarrow> coucal_key \<Rightarrow> coucal_value option \<Rightarrow> (int \<times> coucal_value option) res" where
  "coucal_readptr h nm val =
     bind_res (coucal_read h nm (Some 0)) (\<lambda>(ret, dest).
       let ret = (if the dest = 0 then 0 else ret) in
       Inr (ret, if val = None then None else dest))"

section \<open>The contract of the key handlers\<close>

text \<open>
  What the library needs of \<open>hash\<close> and \<open>equals\<close>: comparison is an equivalence, and keys that
  compare equal have the same hashes.
\<close>

locale key_contract =
  fixes hash :: "byte list \<Rightarrow> coucal_hashkeys"
    and equals :: "byte list \<Rightarrow> byte list \<Rightarrow> bool"
  assumes equals_refl: "equals s s"
    and equals_sym: "equals s t \<Longrightarrow> equals t s"
    and equals_trans: "equals s t \<Longrightarrow> equals t u \<Longrightarrow> equals s u"
    and equals_hash: "equals s t \<Longrightarrow> hash s = hash t"

text \<open>The default handlers, and any deterministic hash with \<open>strcmp\<close>, meet it.\<close>

interpretation default_keys: key_contract coucal_hash_string "(=)"
  by unfold_locales simp_all

definition keys_ok :: "coucal_custom \<Rightarrow> bool" where
  "keys_ok c \<longleftrightarrow> key_contract (hash_of c) (equals_of c)"

lemma keys_ok_default: "key_equals c = None \<Longrightarrow> keys_ok c"
  unfolding keys_ok_def by unfold_locales (auto simp: equals_of_def)

lemmas keys_okD =
  key_contract.equals_refl [of "hash_of c" "equals_of c" for c, folded keys_ok_def]
  key_contract.equals_sym [of "hash_of c" "equals_of c" for c, folded keys_ok_def]
  key_contract.equals_trans [of "hash_of c" "equals_of c" for c, folded keys_ok_def]
  key_contract.equals_hash [of "hash_of c" "equals_of c" for c, folded keys_ok_def]

text \<open>A \<open>dup\<close> handler returns a key of the client's that compares equal to its argument.\<close>

definition dup_ok :: "coucal_custom \<Rightarrow> bool" where
  "dup_ok c \<longleftrightarrow>
     (case key_dup c of
        None \<Rightarrow> key_free c = None
      | Some f \<Rightarrow> key_free c \<noteq> None \<and>
          (\<forall>cs s. \<exists>a t. f (key_arg c) cs s = KExt a t \<and> equals_of c t s))"

section \<open>The invariant of a hashtable\<close>

type_synonym table_entry = "byte list option \<times> coucal_value \<times> coucal_hashkeys"

definition entry_ok :: "coucal_custom \<Rightarrow> table_entry \<Rightarrow> bool" where
  "entry_ok c e \<longleftrightarrow> (case e of (Some s, v, hk) \<Rightarrow> hk = hash_of c s | _ \<Rightarrow> False)"

definition distinct_keys :: "coucal_custom \<Rightarrow> table_entry \<Rightarrow> table_entry \<Rightarrow> bool" where
  "distinct_keys c e e' \<longleftrightarrow> \<not> equals_of c (the (fst e)) (the (fst e'))"

definition content_ok :: "coucal_custom \<Rightarrow> table_entry multiset \<Rightarrow> bool" where
  "content_ok c E \<longleftrightarrow> (\<forall>e \<in># E. entry_ok c e) \<and> pairwise_mset (distinct_keys c) E"

definition storage_inv :: "struct_coucal \<Rightarrow> bool" where
  "storage_inv h \<longleftrightarrow>
     (if key_dup (custom h) = None then pool_inv (pool h) (heap h) (live_names h)
      else \<forall>k \<in># live_names h. \<exists>a t. k = KExt a t)"

definition coucal_inv :: "struct_coucal \<Rightarrow> bool" where
  "coucal_inv h \<longleftrightarrow>
     slots_inv h \<and> keys_ok (custom h) \<and> dup_ok (custom h) \<and> storage_inv h \<and>
     content_ok (custom h) (entries h) \<and> used h = size (entries h)"

section \<open>The map a hashtable stands for\<close>

definition item_is :: "struct_coucal \<Rightarrow> byte list \<Rightarrow> coucal_item \<Rightarrow> bool" where
  "item_is h s it \<longleftrightarrow>
     name it \<noteq> KNull \<and> equals_of (custom h) (the (deref (pool h) (name it))) s"

definition table_map :: "struct_coucal \<Rightarrow> byte list \<Rightarrow> coucal_value option" where
  "table_map h s = map_option value (find (item_is h s) (items h @ stash_items (stash h)))"

text \<open>The part of the invariant reading needs; it also holds in the middle of an operation.\<close>

definition lookup_inv :: "struct_coucal \<Rightarrow> bool" where
  "lookup_inv h \<longleftrightarrow> slots_inv h \<and> keys_ok (custom h) \<and> content_ok (custom h) (entries h)"

lemma coucal_inv_lookup: "coucal_inv h \<Longrightarrow> lookup_inv h"
  by (simp add: coucal_inv_def lookup_inv_def)

lemma lookup_invD:
  assumes "lookup_inv h"
  shows "slots_inv h" "keys_ok (custom h)" "content_ok (custom h) (entries h)"
  using assms by (simp_all add: lookup_inv_def)

lemma in_live:
  "it \<in># live h \<longleftrightarrow> it \<in> set (items h @ stash_items (stash h)) \<and> name it \<noteq> KNull"
  by (auto simp: live_def in_live_of)

lemma live_entry:
  assumes "content_ok (custom h) (entries h)" and "it \<in># live h"
  obtains t where "deref (pool h) (name it) = Some t" and "hashes it = hash_of (custom h) t"
proof -
  have "entry (pool h) it \<in># entries h" using assms(2) by (simp add: entries_def)
  then have "entry_ok (custom h) (entry (pool h) it)" using assms(1) by (simp add: content_ok_def)
  then show ?thesis using that by (auto simp: entry_ok_def entry_def split: option.splits)
qed

lemma distinct_keys_sym: "keys_ok c \<Longrightarrow> distinct_keys c a b \<Longrightarrow> distinct_keys c b a"
  by (auto simp: distinct_keys_def dest: keys_okD(2))

text \<open>At most one live item has a given key.\<close>

lemma item_unique:
  assumes "keys_ok (custom h)" and "content_ok (custom h) (entries h)"
    and "it \<in># live h" "it' \<in># live h" and "item_is h s it" "item_is h s it'"
  shows "it = it'"
proof (rule ccontr)
  assume neq: "it \<noteq> it'"
  have "pairwise_mset (\<lambda>x y. distinct_keys (custom h) (entry (pool h) x) (entry (pool h) y)) (live h)"
    using assms(2)
    by (simp add: content_ok_def entries_def
        pairwise_mset_image [of "distinct_keys (custom h)", OF distinct_keys_sym [OF assms(1)]])
  moreover have "it' \<in># live h - {#it#}" using assms(4) neq by (simp add: in_diff_count)
  ultimately have "distinct_keys (custom h) (entry (pool h) it) (entry (pool h) it')"
    using assms(3) by (simp add: pairwise_mset_def)
  moreover have "equals_of (custom h) (the (deref (pool h) (name it))) (the (deref (pool h) (name it')))"
    using assms(5,6) keys_okD(3) [OF assms(1) _ keys_okD(2) [OF assms(1)]]
    unfolding item_is_def by blast
  ultimately show False by (simp add: distinct_keys_def entry_def)
qed

lemma find_SomeD: "find P xs = Some x \<Longrightarrow> x \<in> set xs \<and> P x"
  by (auto simp: find_Some_iff)

lemma table_map_iff:
  assumes "keys_ok (custom h)" and "content_ok (custom h) (entries h)"
  shows "table_map h s = Some v \<longleftrightarrow> (\<exists>it \<in># live h. item_is h s it \<and> value it = v)"
proof
  assume "table_map h s = Some v"
  then obtain it where "find (item_is h s) (items h @ stash_items (stash h)) = Some it" "value it = v"
    by (auto simp: table_map_def)
  then have "it \<in># live h" "item_is h s it" "value it = v"
    by (auto simp: in_live item_is_def dest!: find_SomeD)
  then show "\<exists>it \<in># live h. item_is h s it \<and> value it = v" by blast
next
  assume "\<exists>it \<in># live h. item_is h s it \<and> value it = v"
  then obtain it where it: "it \<in># live h" "item_is h s it" "value it = v" by blast
  show "table_map h s = Some v"
  proof (cases "find (item_is h s) (items h @ stash_items (stash h))")
    case None
    then show ?thesis using it by (auto simp: find_None_iff in_live)
  next
    case (Some it')
    then have "it' \<in> set (items h @ stash_items (stash h))" "item_is h s it'"
      using find_SomeD [OF Some] by simp_all
    then have "it' = it"
      using item_unique [OF assms _ it(1) _ it(2), of it'] by (simp add: in_live item_is_def)
    then show ?thesis using Some it(3) by (simp add: table_map_def)
  qed
qed

definition has_entry :: "coucal_custom \<Rightarrow> table_entry multiset \<Rightarrow> byte list \<Rightarrow> coucal_value \<Rightarrow> bool"
  where "has_entry c E s v \<longleftrightarrow> (\<exists>e \<in># E. equals_of c (the (fst e)) s \<and> fst (snd e) = v)"

lemma table_map_entries:
  assumes "keys_ok (custom h)" and "content_ok (custom h) (entries h)"
  shows "table_map h s = Some v \<longleftrightarrow> has_entry (custom h) (entries h) s v"
  using table_map_iff [OF assms]
  by (auto simp: has_entry_def entries_def entry_def item_is_def in_live)

text \<open>How the map changes with the entries.\<close>

lemma option_extI: "(\<And>v. a = Some v \<longleftrightarrow> b = Some v) \<Longrightarrow> a = b"
  by (cases a; cases b) auto

definition map_inv :: "struct_coucal \<Rightarrow> bool" where
  "map_inv h \<longleftrightarrow> keys_ok (custom h) \<and> content_ok (custom h) (entries h)"

lemma lookup_map_inv: "lookup_inv h \<Longrightarrow> map_inv h"
  by (simp add: lookup_inv_def map_inv_def)

lemma table_map_has: "map_inv h \<Longrightarrow> table_map h s = Some v \<longleftrightarrow> has_entry (custom h) (entries h) s v"
  by (simp add: map_inv_def table_map_entries)

lemma table_map_same:
  "map_inv h \<Longrightarrow> custom h' = custom h \<Longrightarrow> entries h' = entries h \<Longrightarrow> table_map h' = table_map h"
  by (rule ext, rule option_extI) (simp add: table_map_has map_inv_def)

lemma has_entry_add:
  "has_entry c (add_mset e E) s v \<longleftrightarrow>
     equals_of c (the (fst e)) s \<and> fst (snd e) = v \<or> has_entry c E s v"
  by (auto simp: has_entry_def)

text \<open>An entry with the key \<open>s\<close> rules out any other with an equal key.\<close>

lemma no_second_entry:
  assumes "keys_ok c" and "content_ok c (add_mset e E)" and "equals_of c (the (fst e)) s"
  shows "\<not> has_entry c E s v"
proof
  assume "has_entry c E s v"
  then obtain e' where e': "e' \<in># E" "equals_of c (the (fst e')) s" by (auto simp: has_entry_def)
  have "distinct_keys c e e'"
    using assms(2) e'(1) by (auto simp: content_ok_def intro: pairwise_msetD)
  moreover have "equals_of c (the (fst e)) (the (fst e'))"
    using assms(3) e'(2) keys_okD(3) [OF assms(1) _ keys_okD(2) [OF assms(1)]] by blast
  ultimately show False by (simp add: distinct_keys_def)
qed

lemma table_map_add:
  assumes "map_inv h" and "map_inv h'" and "custom h' = custom h"
    and "entries h' = add_mset (Some t, v, hk) (entries h)"
  shows "table_map h' = (\<lambda>s. if equals_of (custom h) t s then Some v else table_map h s)"
proof (rule ext, rule option_extI)
  fix s w
  have "keys_ok (custom h)" "content_ok (custom h) (add_mset (Some t, v, hk) (entries h))"
    using assms by (simp_all add: map_inv_def)
  then have "\<not> has_entry (custom h) (entries h) s w" if "equals_of (custom h) t s"
    using that by (intro no_second_entry) auto
  then show "table_map h' s = Some w \<longleftrightarrow>
      (if equals_of (custom h) t s then Some v else table_map h s) = Some w"
    using table_map_has [OF assms(1), of s w] table_map_has [OF assms(2), of s w] assms(3,4)
    by (auto simp: has_entry_add)
qed

lemma table_map_del:
  assumes "map_inv h" and "map_inv h'" and "custom h' = custom h"
    and "entries h = add_mset (Some t, v, hk) (entries h')"
  shows "table_map h' = (\<lambda>s. if equals_of (custom h) t s then None else table_map h s)"
proof (rule ext)
  fix s
  have rev: "table_map h = (\<lambda>s. if equals_of (custom h') t s then Some v else table_map h' s)"
    by (rule table_map_add [OF assms(2,1)]) (use assms(3,4) in simp_all)
  have "keys_ok (custom h)" "content_ok (custom h) (add_mset (Some t, v, hk) (entries h'))"
    using assms by (simp_all add: map_inv_def)
  then have "\<not> has_entry (custom h) (entries h') s w" if "equals_of (custom h) t s" for w
    using that by (intro no_second_entry) auto
  then have "table_map h' s = None" if "equals_of (custom h) t s"
    using that table_map_has [OF assms(2), of s] assms(3) by (cases "table_map h' s") auto
  then show "table_map h' s = (if equals_of (custom h) t s then None else table_map h s)"
    using rev assms(3) by simp
qed

text \<open>Replacing a value: the entry goes and comes back with the new one.\<close>

lemma table_map_replace:
  assumes "map_inv h" and "map_inv h'" and "custom h' = custom h"
    and "entries h = add_mset (Some t, v, hk) E" and "entries h' = add_mset (Some t, v', hk) E"
  shows "table_map h' = (\<lambda>s. if equals_of (custom h) t s then Some v' else table_map h s)"
proof (rule ext, rule option_extI)
  fix s w
  have ok: "keys_ok (custom h)" "content_ok (custom h) (add_mset (Some t, v, hk) E)"
    using assms by (simp_all add: map_inv_def)
  have "\<not> has_entry (custom h) E s w" if "equals_of (custom h) t s"
    by (rule no_second_entry [OF ok]) (use that in simp)
  then show "table_map h' s = Some w \<longleftrightarrow>
      (if equals_of (custom h) t s then Some v' else table_map h s) = Some w"
    using table_map_has [OF assms(1), of s w] table_map_has [OF assms(2), of s w] assms(3-5)
    by (auto simp: has_entry_add)
qed

section \<open>The search finds the key's entry and no other\<close>

definition valid_loc :: "struct_coucal \<Rightarrow> location \<Rightarrow> bool" where
  "valid_loc h loc \<longleftrightarrow>
     (case loc of InTable i \<Rightarrow> i < length (items h) | InStash i \<Rightarrow> i < extent (stash h))"

lemma matches_item:
  assumes inv: "lookup_inv h" and it: "it \<in> set (items h @ stash_items (stash h))"
    and nm: "deref (pool h) nm = Some s"
  shows "coucal_matches_i h it nm (hash_of (custom h) s) = Inr (item_is h s it)"
proof (cases "name it = KNull")
  case True
  then show ?thesis by (simp add: coucal_matches_i_def item_is_def)
next
  case False
  then have "it \<in># live h" using it by (simp add: in_live)
  then obtain t where t: "deref (pool h) (name it) = Some t" "hashes it = hash_of (custom h) t"
    using live_entry [OF lookup_invD(3) [OF inv]] by blast
  have "equals_of (custom h) t s \<Longrightarrow> hash_of (custom h) t = hash_of (custom h) s"
    by (rule keys_okD(4) [OF lookup_invD(2) [OF inv]])
  then show ?thesis using False t nm
    by (auto simp: coucal_matches_i_def coucal_equals_def read_key_def item_is_def)
qed

lemma stash_search_correct:
  assumes inv: "lookup_inv h" and nm: "deref (pool h) nm = Some s"
    and "i + n \<le> length (stash_items (stash h))"
  shows "\<exists>r. stash_search h nm (hash_of (custom h) s) i n = Inr r \<and>
    (case r of
       None \<Rightarrow> \<forall>j. i \<le> j \<and> j < i + n \<longrightarrow> \<not> item_is h s (stash_items (stash h) ! j)
     | Some j \<Rightarrow> i \<le> j \<and> j < i + n \<and> item_is h s (stash_items (stash h) ! j))"
  using assms(3)
proof (induction n arbitrary: i)
  case (Suc n)
  have m: "coucal_matches_i h (stash_items (stash h) ! i) nm (hash_of (custom h) s)
      = Inr (item_is h s (stash_items (stash h) ! i))"
    by (rule matches_item [OF inv _ nm]) (use Suc.prems in simp)
  obtain r where r: "stash_search h nm (hash_of (custom h) s) (Suc i) n = Inr r"
      "case r of
         None \<Rightarrow> \<forall>j. Suc i \<le> j \<and> j < Suc i + n \<longrightarrow> \<not> item_is h s (stash_items (stash h) ! j)
       | Some j \<Rightarrow> Suc i \<le> j \<and> j < Suc i + n \<and> item_is h s (stash_items (stash h) ! j)"
    using Suc.IH [of "Suc i"] Suc.prems by auto
  show ?case
  proof (cases "item_is h s (stash_items (stash h) ! i)")
    case True
    then show ?thesis using m by simp
  next
    case False
    have "\<not> item_is h s (stash_items (stash h) ! j)"
      if "r = None" "i \<le> j" "j < i + Suc n" for j
      using r(2) False that by (cases "j = i") auto
    then show ?thesis using m r False by (auto split: option.splits)
  qed
qed auto

text \<open>A key that is at neither of its two positions is not in the table.\<close>

lemma absent_from_table:
  assumes inv: "lookup_inv h" and it: "it \<in> set (items h)"
    and "\<not> item_is h s (items h ! coucal_hash_to_pos h (hash1 (hash_of (custom h) s)))"
    and "\<not> item_is h s (items h ! coucal_hash_to_pos h (hash2 (hash_of (custom h) s)))"
  shows "\<not> item_is h s it"
proof
  assume hit: "item_is h s it"
  have tinv: "table_inv h" using lookup_invD(1) [OF inv] by (simp add: slots_inv_def)
  obtain i where i: "i < length (items h)" "items h ! i = it" using it by (auto simp: in_set_conv_nth)
  have nn: "name it \<noteq> KNull" using hit by (simp add: item_is_def)
  then have "it \<in># live h" using it by (simp add: in_live)
  then obtain t where t: "deref (pool h) (name it) = Some t" "hashes it = hash_of (custom h) t"
    using live_entry [OF lookup_invD(3) [OF inv]] by blast
  have "hashes it = hash_of (custom h) s"
    using hit t keys_okD(4) [OF lookup_invD(2) [OF inv], of t s] by (simp add: item_is_def)
  moreover have "well_placed (lg_size h) i it"
    using table_invD(4) [OF tinv] i nn by (auto simp: placed_def)
  ultimately show False using assms(3,4) hit i(2) by (auto simp: well_placed_def coucal_hash_to_pos_def)
qed

text \<open>The search of the stash, with what a miss says about the whole stash.\<close>

lemma search_stash:
  assumes inv: "lookup_inv h" and nm: "deref (pool h) nm = Some s"
  obtains r where "stash_search h nm (hash_of (custom h) s) 0 (extent (stash h)) = Inr r"
    and "\<forall>j. r = Some j \<longrightarrow> j < extent (stash h) \<and> item_is h s (stash_items (stash h) ! j)"
    and "r = None \<longrightarrow> (\<forall>it \<in> set (stash_items (stash h)). \<not> item_is h s it)"
proof -
  have "stash_inv (stash h)" using lookup_invD(1) [OF inv] by (simp add: slots_inv_def)
  note stD = stash_invD [OF this]
  obtain r where r: "stash_search h nm (hash_of (custom h) s) 0 (extent (stash h)) = Inr r"
    "case r of
       None \<Rightarrow> \<forall>j. 0 \<le> j \<and> j < 0 + extent (stash h) \<longrightarrow> \<not> item_is h s (stash_items (stash h) ! j)
     | Some j \<Rightarrow> 0 \<le> j \<and> j < 0 + extent (stash h) \<and> item_is h s (stash_items (stash h) ! j)"
    using stash_search_correct [OF inv nm, of 0 "extent (stash h)"] stD(1,2) by auto
  have "\<not> item_is h s (stash_items (stash h) ! j)" if "r = None" "j < 16" for j
  proof (cases "j < extent (stash h)")
    case False
    then show ?thesis using stD(5) [of j] that(2) by (simp add: item_is_def)
  qed (use r(2) that(1) in simp)
  then show ?thesis using that [OF r(1)] r(2) stD(1) by (fastforce simp: in_set_conv_nth)
qed

lemma fetch_correct:
  assumes inv: "lookup_inv h" and nm: "deref (pool h) nm = Some s"
  shows "\<exists>r. coucal_fetch_value_hashes h nm (hash_of (custom h) s) = Inr r \<and>
    (case r of
       None \<Rightarrow> \<forall>it \<in># live h. \<not> item_is h s it
     | Some loc \<Rightarrow> valid_loc h loc \<and> item_is h s (item_at h loc))"
proof -
  let ?hk = "hash_of (custom h) s"
  have tinv: "table_inv h" and sinv: "stash_inv (stash h)"
    using lookup_invD(1) [OF inv] by (simp_all add: slots_inv_def)
  have pos: "coucal_hash_to_pos h hash < length (items h)" for hash
    by (rule hash_to_pos_in_items [OF tinv])
  have at: "coucal_matches h (coucal_hash_to_pos h hash) nm ?hk
      = Inr (item_is h s (items h ! coucal_hash_to_pos h hash))" for hash
    unfolding coucal_matches_def by (rule matches_item [OF inv _ nm]) (use pos in simp)
  let ?p1 = "coucal_hash_to_pos h (hash1 ?hk)" and ?p2 = "coucal_hash_to_pos h (hash2 ?hk)"
  consider (pos1) "item_is h s (items h ! ?p1)" | (pos2) "\<not> item_is h s (items h ! ?p1)"
      "item_is h s (items h ! ?p2)"
    | (none) "\<not> item_is h s (items h ! ?p1)" "\<not> item_is h s (items h ! ?p2)" by blast
  then show ?thesis
  proof cases
    case none
    note table = absent_from_table [OF inv _ none]
    show ?thesis
    proof (cases "stash_size (stash h) = 0")
      case True
      then have "live_of (stash_items (stash h)) = {#}" by (rule live_of_stash_zero [OF sinv])
      then have "\<forall>it \<in># live h. \<not> item_is h s it" using table by (simp add: live_def in_live_of)
      then show ?thesis using True at none by (simp add: coucal_fetch_value_hashes_def)
    next
      case False
      obtain r where r: "stash_search h nm ?hk 0 (extent (stash h)) = Inr r"
          "\<forall>j. r = Some j \<longrightarrow> j < extent (stash h) \<and> item_is h s (stash_items (stash h) ! j)"
          "r = None \<longrightarrow> (\<forall>it \<in> set (stash_items (stash h)). \<not> item_is h s it)"
        using search_stash [OF inv nm] .
      have "coucal_fetch_value_hashes h nm ?hk = Inr (map_option InStash r)"
        using False at none r(1) by (simp add: coucal_fetch_value_hashes_def)
      then show ?thesis using r(2,3) table
        by (cases r) (auto simp: valid_loc_def item_at_def in_live)
    qed
  qed (use at pos in \<open>simp_all add: coucal_fetch_value_hashes_def valid_loc_def item_at_def\<close>)
qed

lemma valid_loc_live:
  assumes "slots_inv h" and "valid_loc h loc" and "name (item_at h loc) \<noteq> KNull"
  shows "item_at h loc \<in># live h"
  using assms stash_invD(1,2) [of "stash h"]
  by (auto simp: valid_loc_def item_at_def in_live slots_inv_def split: location.splits)

text \<open>The read of a key: its value in the table's map.\<close>

lemma fetch_value_map:
  assumes inv: "lookup_inv h" and nm: "deref (pool h) nm = Some s"
  shows "\<exists>r. coucal_fetch_value h nm = Inr r \<and>
    coucal_fetch_value_hashes h nm (hash_of (custom h) s) = Inr r \<and>
    table_map h s = map_option (\<lambda>loc. value (item_at h loc)) r \<and>
    (\<forall>loc. r = Some loc \<longrightarrow> valid_loc h loc \<and> item_is h s (item_at h loc))"
proof -
  note map = table_map_iff [OF lookup_invD(2,3) [OF inv], of s]
  obtain r where r: "coucal_fetch_value_hashes h nm (hash_of (custom h) s) = Inr r"
      "case r of
         None \<Rightarrow> \<forall>it \<in># live h. \<not> item_is h s it
       | Some loc \<Rightarrow> valid_loc h loc \<and> item_is h s (item_at h loc)"
    using fetch_correct [OF inv nm] by blast
  have run: "coucal_fetch_value h nm = Inr r"
    using nm r(1) by (simp add: coucal_fetch_value_def coucal_calc_hashes_def read_key_def)
  show ?thesis
  proof (cases r)
    case None
    then have "table_map h s = None" using r(2) map by (cases "table_map h s") auto
    then show ?thesis using run r(1) None by simp
  next
    case (Some loc)
    then have loc: "valid_loc h loc" "item_is h s (item_at h loc)" using r(2) by simp_all
    then have "item_at h loc \<in># live h"
      using valid_loc_live [OF lookup_invD(1) [OF inv]] by (simp add: item_is_def)
    then have "table_map h s = Some (value (item_at h loc))" using map loc(2) by blast
    then show ?thesis using run r(1) Some loc by simp
  qed
qed

text \<open>Each accessor in terms of the map.\<close>

lemma read_value_map:
  assumes "lookup_inv h" and "deref (pool h) nm = Some s"
  shows "coucal_read_value h nm pvalue =
    (case table_map h s of
       Some v \<Rightarrow> Inr (1, map_option (\<lambda>_. v) pvalue)
     | None \<Rightarrow> Inr (0, pvalue))"
proof -
  obtain r where "coucal_fetch_value h nm = Inr r"
      "table_map h s = map_option (\<lambda>loc. value (item_at h loc)) r"
    using fetch_value_map [OF assms] by blast
  then show ?thesis by (cases r) (simp_all add: coucal_read_value_def)
qed

lemmas accessor_defs = coucal_read_def coucal_read_pvoid_def coucal_get_pvoid_def
  coucal_get_intptr_def coucal_exists_def coucal_readptr_def

end
