(* ===== verification/Write.thy ===== *)
theory Write
  imports Lookup
begin

text \<open>
  Writing to the table: releasing an item's value and key, \<open>coucal_write_value()\<close> with its two
  halves (replace in place, or add after draining the stash), the doubling of the table with the
  merge of the stash, and the functions of the API that write. The lemmas that a write keeps the
  invariant and updates the map are in the theory \<open>WriteCorrect\<close>.
\<close>

section \<open>Releasing an item\<close>

text \<open>\<open>coucal_default_free_handler()\<close> is the handler \<open>DefaultFree\<close>; a value is freed when not null.\<close>

definition coucal_del_value_i :: "struct_coucal \<Rightarrow> location \<Rightarrow> struct_coucal" where
  "coucal_del_value_i h loc =
     (let it = item_at h loc in
      if value it \<noteq> 0 then
        let h = (case value_free (custom h) of
                   Some f \<Rightarrow> h\<lparr>calls := calls h @ [CallValueFree f (value_arg (custom h)) (value it)]\<rparr>
                 | None \<Rightarrow> h)
        in set_at h loc (it\<lparr>value := 0\<rparr>)
      else h)"

definition coucal_del_value :: "struct_coucal \<Rightarrow> nat \<Rightarrow> struct_coucal" where
  "coucal_del_value h pos = coucal_del_value_i h (InTable pos)"

definition coucal_del_name :: "struct_coucal \<Rightarrow> location \<Rightarrow> struct_coucal res" where
  "coucal_del_name h loc =
     (let it = item_at h loc; nm = name it;
          h = set_at h loc (it\<lparr>name := KNull, hashes := null_hashkeys\<rparr>)
      in coucal_free_key h nm)"

definition coucal_del_item :: "struct_coucal \<Rightarrow> location \<Rightarrow> struct_coucal res" where
  "coucal_del_item h loc = coucal_del_name (coucal_del_value_i h loc) loc"

section \<open>Replacing or adding an entry\<close>

definition count_write :: "struct_coucal \<Rightarrow> struct_coucal" where
  "count_write h = h\<lparr>stats := (stats h)\<lparr>write_count := write_count (stats h) + 1\<rparr>\<rparr>"

definition count_add :: "struct_coucal \<Rightarrow> struct_coucal" where
  "count_add h = h\<lparr>stats := (stats h)\<lparr>add_count := add_count (stats h) + 1\<rparr>\<rparr>"

definition set_value :: "struct_coucal \<Rightarrow> location \<Rightarrow> coucal_value \<Rightarrow> struct_coucal" where
  "set_value h loc v = set_at h loc ((item_at h loc)\<lparr>value := v\<rparr>)"

definition coucal_write_value_i ::
  "struct_coucal \<Rightarrow> coucal_key \<Rightarrow> coucal_value \<Rightarrow> (struct_coucal \<times> int) res" where
  "coucal_write_value_i h nm v =
     bind_res (coucal_calc_hashes h nm) (\<lambda>hk.
      let h = count_write h;
          pos = coucal_hash_to_pos h (hash1 hk) in
      bind_res (coucal_matches h pos nm hk) (\<lambda>m.
      if m then Inr (set_value (coucal_del_value h pos) (InTable pos) v, 0)
      else
        let pos = coucal_hash_to_pos h (hash2 hk) in
        bind_res (coucal_matches h pos nm hk) (\<lambda>m.
        if m then Inr (set_value (coucal_del_value h pos) (InTable pos) v, 0)
        else
          bind_res (if stash_size (stash h) \<noteq> 0 then stash_search h nm hk 0 (extent (stash h))
                    else Inr None) (\<lambda>r.
          case r of
            Some i \<Rightarrow> Inr (set_value (coucal_del_value_i h (InStash i)) (InStash i) v, 0)
          | None \<Rightarrow>
              let h = count_add h;
                  h = (if stash_size (stash h) \<noteq> 0 then coucal_drain_stash h else h)
              in bind_res (coucal_dup_name h nm) (\<lambda>(h, k).
                   coucal_add_item_i h \<lparr>name = k, value = v, hashes = hk\<rparr>)))))"

section \<open>Doubling the table\<close>

text \<open>\<open>sizeof(coucal_item)\<close>: a pointer, a 64-bit value and two 32-bit hashes.\<close>

definition sizeof_coucal_item :: nat where "sizeof_coucal_item = 24"

definition coucal_is_acceptable_pow2 :: "nat \<Rightarrow> bool" where
  "coucal_is_acceptable_pow2 lg \<longleftrightarrow> lg \<le> COUCAL_HASH_SIZE \<and> lg < 8 * 8"

definition relocate_slot :: "nat \<Rightarrow> nat \<Rightarrow> struct_coucal \<Rightarrow> nat \<Rightarrow> struct_coucal res" where
  "relocate_slot prev_power prev_size h i =
     (if coucal_is_free h i then Inr h
      else
        let hk = hashes (items h ! i);
            move = (\<lambda>pos.
              if pos \<noteq> i then
                if prev_size \<le> pos then Inr (set_item (set_item h pos (items h ! i)) i null_item)
                else Inl (AssertFailed A_pos_ge_prev_size)
              else Inr h)
        in
          if coucal_hash_to_pos_i prev_power (hash1 hk) = i then move (coucal_hash_to_pos h (hash1 hk))
          else if coucal_hash_to_pos_i prev_power (hash2 hk) = i then move (coucal_hash_to_pos h (hash2 hk))
          else Inl (AssertFailed A_bad_position))"

text \<open>\<open>for(i = 0 ; i < prev_size ; i++)\<close>, by the slots left.\<close>

fun relocate_lower :: "nat \<Rightarrow> nat \<Rightarrow> struct_coucal \<Rightarrow> nat \<Rightarrow> nat \<Rightarrow> struct_coucal res" where
  "relocate_lower prev_power prev_size h i 0 = Inr h"
| "relocate_lower prev_power prev_size h i (Suc n) =
     bind_res (relocate_slot prev_power prev_size h i)
       (\<lambda>h. relocate_lower prev_power prev_size h (Suc i) n)"

fun merge_items :: "struct_coucal \<Rightarrow> coucal_item list \<Rightarrow> struct_coucal res" where
  "merge_items h [] = Inr h"
| "merge_items h (it # xs) =
     (if name it \<noteq> KNull then
        bind_res (coucal_add_item_i h it) (\<lambda>(h, ret).
          if ret = 0 then Inl (AssertFailed A_duplicate_merging_stash) else merge_items h xs)
      else merge_items h xs)"

definition merge_stash :: "struct_coucal \<Rightarrow> struct_coucal res" where
  "merge_stash h =
     (if stash_size (stash h) \<noteq> 0 then
        let old_extent = extent (stash h); old_size = stash_size (stash h);
            saved = stash_items (stash h);
            h = h\<lparr>stash := \<lparr>stash_items = replicate STASH_SIZE null_item, stash_size = 0, extent = 0\<rparr>\<rparr>
        in bind_res (merge_items h (take old_extent saved)) (\<lambda>h.
             if stash_size (stash h) \<le> old_size then Inr h
             else Inl (AssertFailed A_stash_size_le_old_size))
      else Inr h)"

definition count_rehash :: "struct_coucal \<Rightarrow> struct_coucal" where
  "count_rehash h = h\<lparr>stats := (stats h)\<lparr>rehash_count := rehash_count (stats h) + 1\<rparr>\<rparr>"

text \<open>
  The doubling, with the \<open>realloc\<close> of the items. No pointer into the items is kept across it, so
  the model does not track which block holds them: whether the request succeeds is all that
  matters, and the allocator's answer to it is that of \<open>c_malloc\<close>.
\<close>

definition expand_table :: "struct_coucal \<Rightarrow> nat \<Rightarrow> struct_coucal res" where
  "expand_table h half_size =
     (let prev_power = lg_size h;
          prev_size = size_mul half_size 2;
          prev_alloc_size = size_mul prev_size sizeof_coucal_item;
          size_overflow = (prev_size > size_max div (2 * sizeof_coucal_item));
          alloc_size = (if size_overflow then 0 else size_mul prev_alloc_size 2);
          h = count_rehash h;
          h = h\<lparr>lg_size := size_add (lg_size h) 1\<rparr>
      in bind_res (assert_res (coucal_is_acceptable_pow2 (lg_size h)) (AssertFailed A_acceptable_pow2)) (\<lambda>_.
         bind_res (assert_res (\<not> size_overflow) (AssertFailed A_size_overflow)) (\<lambda>_.
         let (r, hp) = c_malloc (heap h) alloc_size; h = h\<lparr>heap := hp\<rparr> in
         case r of
           None \<Rightarrow> Inl (AssertFailed A_hashtable_allocation_error)
         | Some b \<Rightarrow>
             let h = h\<lparr>items := take prev_size (items h) @ replicate prev_size null_item\<rparr>
             in bind_res (relocate_lower prev_power prev_size h 0 prev_size) merge_stash)))"

definition coucal_write_value ::
  "struct_coucal \<Rightarrow> coucal_key \<Rightarrow> coucal_value \<Rightarrow> (struct_coucal \<times> int) res" where
  "coucal_write_value h nm v =
     bind_res (coucal_write_value_i h nm v) (\<lambda>(h, ret).
       if ret \<noteq> 0 then
         let half_size = POW2 (size_sub (lg_size h) 1);
             half_stash_size = STASH_SIZE div 2;
             h = h\<lparr>used := size_add (used h) 1\<rparr>
         in if half_size \<le> used h \<or> half_stash_size \<le> stash_size (stash h) then
              bind_res (expand_table h half_size) (\<lambda>h. Inr (h, ret))
            else Inr (h, ret)
       else Inr (h, ret))"

section \<open>The functions of the API that write\<close>

definition coucal_write ::
  "struct_coucal \<Rightarrow> coucal_key \<Rightarrow> coucal_value \<Rightarrow> (struct_coucal \<times> int) res" where
  "coucal_write h nm intvalue = coucal_write_value h nm intvalue"

definition coucal_write_pvoid ::
  "struct_coucal \<Rightarrow> coucal_key \<Rightarrow> coucal_value \<Rightarrow> (struct_coucal \<times> int) res" where
  "coucal_write_pvoid h nm pvalue = coucal_write_value h nm pvalue"

definition coucal_add :: "struct_coucal \<Rightarrow> coucal_key \<Rightarrow> coucal_value \<Rightarrow> struct_coucal res" where
  "coucal_add h nm intvalue = bind_res (coucal_write_value h nm intvalue) (\<lambda>(h, ret). Inr h)"

definition coucal_add_pvoid :: "struct_coucal \<Rightarrow> coucal_key \<Rightarrow> coucal_value \<Rightarrow> struct_coucal res" where
  "coucal_add_pvoid h nm pvalue = bind_res (coucal_write_value h nm pvalue) (\<lambda>(h, ret). Inr h)"

definition coucal_inc_i ::
  "struct_coucal \<Rightarrow> coucal_key \<Rightarrow> u64 \<Rightarrow> (struct_coucal \<times> u64) res" where
  "coucal_inc_i h nm inc =
     bind_res (coucal_fetch_value h nm) (\<lambda>r.
       case r of
         Some loc \<Rightarrow>
           let h = set_value h loc (value (item_at h loc) + inc)
           in Inr (h, value (item_at h loc))
       | None \<Rightarrow>
           bind_res (coucal_write h nm inc) (\<lambda>(h, ret).
             if ret \<noteq> 0 then Inr (h, inc) else Inl (AssertFailed A_inc_ret)))"

text \<open>The result is cast to \<open>int\<close>: its low 32 bits, read as a signed number.\<close>

definition coucal_inc :: "struct_coucal \<Rightarrow> coucal_key \<Rightarrow> (struct_coucal \<times> int) res" where
  "coucal_inc h nm = bind_res (coucal_inc_i h nm 1) (\<lambda>(h, n). Inr (h, sint (ucast n :: 32 word)))"

definition coucal_dec :: "struct_coucal \<Rightarrow> coucal_key \<Rightarrow> (struct_coucal \<times> int) res" where
  "coucal_dec h nm = bind_res (coucal_inc_i h nm (- 1)) (\<lambda>(h, n). Inr (h, sint (ucast n :: 32 word)))"

end
