(* ===== verification/Expand.thy ===== *)
theory Expand
  imports Write
begin

text \<open>
  Doubling the table: the relocation loop leaves every item at a position of one of its hashes
  for the new size and moves it only into slots of the new half that are still free, and the
  merge of the stash never overflows the stash, so no assertion on this path can fail.
\<close>

section \<open>The relocation loop\<close>

text \<open>
  With \<open>i\<close> slots done: the slots done and the upper half are placed for the new size, the rest
  of the lower half for the old one, and the mirror slots of the rest are free.
\<close>

definition half_moved :: "nat \<Rightarrow> nat \<Rightarrow> coucal_item list \<Rightarrow> bool" where
  "half_moved lg i xs \<longleftrightarrow>
     length xs = 2 * 2 ^ lg \<and>
     (\<forall>j < 2 * 2 ^ lg. name (xs ! j) \<noteq> KNull \<longrightarrow>
        (if j < i \<or> 2 ^ lg \<le> j then well_placed (Suc lg) j (xs ! j) else well_placed lg j (xs ! j))) \<and>
     (\<forall>j < 2 * 2 ^ lg. 2 ^ lg + i \<le> j \<longrightarrow> name (xs ! j) = KNull)"

lemma half_moved_start:
  assumes "length xs = 2 ^ lg" and "placed lg xs"
  shows "half_moved lg 0 (xs @ replicate (2 ^ lg) null_item)"
  using assms by (auto simp: half_moved_def placed_def nth_append)

lemma half_moved_done: "half_moved lg (2 ^ lg) xs \<Longrightarrow> length xs = 2 ^ Suc lg \<and> placed (Suc lg) xs"
  by (auto simp: half_moved_def placed_def not_le [symmetric])

lemma half_moved_stay:
  assumes "half_moved lg i xs" and "i < 2 ^ lg"
    and "name (xs ! i) = KNull \<or> well_placed (Suc lg) i (xs ! i)"
  shows "half_moved lg (Suc i) xs"
  using assms by (auto simp: half_moved_def less_Suc_eq)

lemma half_moved_move:
  assumes "half_moved lg i xs" and "i < 2 ^ lg" and "name (xs ! i) \<noteq> KNull"
    and "well_placed (Suc lg) (i + 2 ^ lg) (xs ! i)"
  defines "ys \<equiv> xs[i + 2 ^ lg := xs ! i, i := null_item]"
  shows "half_moved lg (Suc i) ys" and "live_of ys = live_of xs"
proof -
  have len: "length xs = 2 * 2 ^ lg" and free: "name (xs ! (i + 2 ^ lg)) = KNull"
    using assms(1,2) by (simp_all add: half_moved_def)
  show "half_moved lg (Suc i) ys"
    using assms(1-4) by (auto simp: half_moved_def ys_def nth_list_update less_Suc_eq)
  let ?zs = "xs[i + 2 ^ lg := xs ! i]"
  have new: "live_of ?zs = add_mset (xs ! i) (live_of xs)"
    by (rule live_of_set_new) (use assms(2,3) len free in simp_all)
  have "?zs ! i = xs ! i" by simp
  then have "live_of ?zs = add_mset (xs ! i) (live_of ys)"
    using live_of_set_free [of i ?zs null_item] assms(2,3) len by (simp add: ys_def)
  then show "live_of ys = live_of xs" using new by simp
qed

text \<open>Where an item goes whose hash \<open>hash\<close> selected slot \<open>i\<close> of the old size.\<close>

definition relocated :: "struct_coucal \<Rightarrow> nat \<Rightarrow> nat \<Rightarrow> u32 \<Rightarrow> struct_coucal res" where
  "relocated h lg i hash =
     (let pos = coucal_hash_to_pos h hash in
      if pos \<noteq> i then
        if 2 ^ lg \<le> pos then Inr (set_item (set_item h pos (items h ! i)) i null_item)
        else Inl (AssertFailed A_pos_ge_prev_size)
      else Inr h)"

lemma relocate_slot_eq:
  assumes "\<not> coucal_is_free h i"
  shows "relocate_slot lg (2 ^ lg) h i =
      (if coucal_hash_to_pos_i lg (hash1 (hashes (items h ! i))) = i
       then relocated h lg i (hash1 (hashes (items h ! i)))
       else if coucal_hash_to_pos_i lg (hash2 (hashes (items h ! i))) = i
       then relocated h lg i (hash2 (hashes (items h ! i)))
       else Inl (AssertFailed A_bad_position))"
  using assms by (simp add: relocate_slot_def relocated_def Let_def)

lemma relocated_correct:
  assumes lg: "lg_size h = Suc lg" "Suc lg \<le> 32" and inv: "half_moved lg i (items h)"
    and i: "i < 2 ^ lg" and nn: "name (items h ! i) \<noteq> KNull"
    and at: "coucal_hash_to_pos_i lg hash = i"
    and one: "hash \<in> {hash1 (hashes (items h ! i)), hash2 (hashes (items h ! i))}"
  shows "\<exists>xs. relocated h lg i hash = Inr (h\<lparr>items := xs\<rparr>) \<and>
    half_moved lg (Suc i) xs \<and> live_of xs = live_of (items h)"
proof -
  have pos: "coucal_hash_to_pos h hash = coucal_hash_to_pos_i (Suc lg) hash"
    by (simp add: coucal_hash_to_pos_def lg)
  have wp: "well_placed (Suc lg) (coucal_hash_to_pos h hash) (items h ! i)"
    unfolding pos using one by (rule well_placed_at_hash)
  consider "coucal_hash_to_pos h hash = i" | "coucal_hash_to_pos h hash = i + 2 ^ lg"
    using coucal_hash_to_pos_Suc [OF lg(2), of hash] at pos by auto
  then show ?thesis
  proof cases
    case 1
    then show ?thesis using half_moved_stay [OF inv i] wp
      by (intro exI [of _ "items h"]) (simp add: relocated_def)
  next
    case 2
    then show ?thesis using half_moved_move [OF inv i nn] wp i
      by (intro exI [of _ "(items h)[i + 2 ^ lg := items h ! i, i := null_item]"])
        (simp add: relocated_def set_item_def)
  qed
qed

lemma relocate_slot_correct:
  assumes lg: "lg_size h = Suc lg" "Suc lg \<le> 32" and inv: "half_moved lg i (items h)"
    and i: "i < 2 ^ lg"
  shows "\<exists>xs. relocate_slot lg (2 ^ lg) h i = Inr (h\<lparr>items := xs\<rparr>) \<and> half_moved lg (Suc i) xs \<and>
    live_of xs = live_of (items h)"
proof (cases "coucal_is_free h i")
  case True
  then have "half_moved lg (Suc i) (items h)"
    by (intro half_moved_stay [OF inv i]) (simp add: coucal_is_free_def)
  then show ?thesis using True by (intro exI [of _ "items h"]) (simp add: relocate_slot_def)
next
  case False
  then have nn: "name (items h ! i) \<noteq> KNull" by (simp add: coucal_is_free_def)
  note to = relocated_correct [OF lg inv i nn]
  have "well_placed lg i (items h ! i)" using inv i nn by (auto simp: half_moved_def)
  then show ?thesis
    using to [of "hash1 (hashes (items h ! i))"] to [of "hash2 (hashes (items h ! i))"]
    unfolding relocate_slot_eq [OF False] by (auto simp: well_placed_def)
qed

lemma relocate_lower_correct:
  assumes "lg_size h = Suc lg" and "Suc lg \<le> 32" and "half_moved lg i (items h)"
    and "i + n = 2 ^ lg"
  shows "\<exists>xs. relocate_lower lg (2 ^ lg) h i n = Inr (h\<lparr>items := xs\<rparr>) \<and>
    length xs = 2 ^ Suc lg \<and> placed (Suc lg) xs \<and> live_of xs = live_of (items h)"
  using assms
proof (induction n arbitrary: h i)
  case 0
  then show ?case using half_moved_done [of lg "items h"]
    by (intro exI [of _ "items h"]) simp
next
  case (Suc n)
  obtain xs where xs: "relocate_slot lg (2 ^ lg) h i = Inr (h\<lparr>items := xs\<rparr>)"
      "half_moved lg (Suc i) xs" "live_of xs = live_of (items h)"
    using relocate_slot_correct [OF Suc.prems(1-3)] Suc.prems(4) by auto
  from Suc.IH [of "h\<lparr>items := xs\<rparr>" "Suc i"] Suc.prems xs(2)
  obtain ys where "relocate_lower lg (2 ^ lg) (h\<lparr>items := xs\<rparr>) (Suc i) n = Inr (h\<lparr>items := ys\<rparr>)"
      "length ys = 2 ^ Suc lg" "placed (Suc lg) ys" "live_of ys = live_of xs"
    by auto
  then show ?case using xs by auto
qed

section \<open>The merge of the stash\<close>

lemma merge_items_correct:
  assumes "slots_inv h" and "stash_size (stash h) + size (live_of xs) \<le> 16"
  shows "\<exists>h'. merge_items h xs = Inr h' \<and> slots_frame h h' \<and> slots_inv h' \<and>
    live h' = live h + live_of xs \<and>
    stash_size (stash h') \<le> stash_size (stash h) + size (live_of xs)"
  using assms
proof (induction xs arbitrary: h)
  case (Cons it xs)
  show ?case
  proof (cases "name it = KNull")
    case True
    then show ?thesis using Cons by simp
  next
    case False
    then obtain h1 where h1: "coucal_add_item_i h it = Inr (h1, 1)" "slots_frame h h1"
        "slots_inv h1" "live h1 = add_mset it (live h)"
        "stash_size (stash h1) \<le> Suc (stash_size (stash h))"
      using coucal_add_item_correct [OF Cons.prems(1) False] Cons.prems(2) by auto
    have "stash_size (stash h1) + size (live_of xs) \<le> 16" using h1(5) Cons.prems(2) False by simp
    from Cons.IH [OF h1(3) this] obtain h2 where h2: "merge_items h1 xs = Inr h2"
        "slots_frame h1 h2" "slots_inv h2" "live h2 = live h1 + live_of xs"
        "stash_size (stash h2) \<le> stash_size (stash h1) + size (live_of xs)"
      by auto
    have "slots_frame h h2" using h1(2) h2(2) by (rule slots_frame_trans)
    moreover have "stash_size (stash h2) \<le> stash_size (stash h) + size (live_of (it # xs))"
      using h1(5) h2(5) False by simp
    ultimately show ?thesis using False h1(1,4) h2 by simp
  qed
qed simp

lemma live_of_all_free: "\<forall>it \<in> set xs. name it = KNull \<Longrightarrow> live_of xs = {#}"
  by (induction xs) auto

lemma merge_stash_correct:
  assumes "slots_inv h"
  shows "\<exists>h'. merge_stash h = Inr h' \<and> slots_frame h h' \<and> slots_inv h' \<and> live h' = live h \<and>
    stash_size (stash h') \<le> stash_size (stash h)"
proof (cases "stash_size (stash h) = 0")
  case True
  then show ?thesis using assms by (simp add: merge_stash_def)
next
  case False
  have tinv: "table_inv h" and sinv: "stash_inv (stash h)"
    using assms by (simp_all add: slots_inv_def)
  note stD = stash_invD [OF sinv]
  let ?st = "\<lparr>stash_items = replicate STASH_SIZE null_item, stash_size = 0, extent = 0\<rparr>"
  let ?saved = "take (extent (stash h)) (stash_items (stash h))"
  define h0 where "h0 = h\<lparr>stash := ?st\<rparr>"
  have "live_of (drop (extent (stash h)) (stash_items (stash h))) = {#}"
    using stash_above_extent [OF stash_inv_shape [OF sinv]]
    by (intro live_of_all_free) auto
  then have saved: "live_of (stash_items (stash h)) = live_of ?saved"
    using live_of_simps(3) [of ?saved "drop (extent (stash h)) (stash_items (stash h))"] by simp
  have inv0: "slots_inv h0"
    using tinv by (simp add: h0_def slots_inv_def table_inv_def stash_inv_def stash_core_def)
  have "stash_size (stash h0) + size (live_of ?saved) \<le> 16"
    using stD(3,4) saved by (simp add: h0_def)
  from merge_items_correct [OF inv0 this] obtain h' where h': "merge_items h0 ?saved = Inr h'"
      "slots_frame h0 h'" "slots_inv h'" "live h' = live h0 + live_of ?saved"
      "stash_size (stash h') \<le> stash_size (stash h0) + size (live_of ?saved)"
    by blast
  have less: "stash_size (stash h') \<le> stash_size (stash h)"
    using h'(5) stD(3) saved by (simp add: h0_def)
  then have "merge_stash h = Inr h'"
    using False h'(1) by (simp add: merge_stash_def Let_def h0_def)
  moreover have "slots_frame h h'" using h'(2) by (simp add: slots_frame_def h0_def)
  moreover have "live h' = live h" using h'(4) saved by (simp add: live_def h0_def)
  ultimately show ?thesis using h'(3) less by blast
qed

section \<open>The whole step\<close>

definition expanded :: "struct_coucal \<Rightarrow> struct_coucal \<Rightarrow> bool" where
  "expanded h h' \<longleftrightarrow>
     lg_size h' = Suc (lg_size h) \<and> used h' = used h \<and> pool h' = pool h \<and> custom h' = custom h \<and>
     calls h' = calls h \<and> heap h' = (heap h)\<lparr>hp_next := Suc (hp_next (heap h))\<rparr>"

text \<open>The sizes of a doubling, none of which wraps for a table of at most \<open>2 ^ 31\<close> slots.\<close>

lemma doubling_sizes:
  assumes "4 \<le> lg" and "lg \<le> 31"
  shows "size_add lg (Suc 0) = Suc lg" and "size_mul (2 ^ (lg - Suc 0)) 2 = 2 ^ lg"
    and "\<not> size_max div (2 * sizeof_coucal_item) < 2 ^ lg"
    and "size_mul (size_mul (2 ^ lg) sizeof_coucal_item) 2 \<le> ptrdiff_max"
proof -
  have "(2::nat) ^ lg \<le> 2 ^ 31" using assms(2) by (rule power_increasing) simp
  then have n: "(2::nat) ^ lg \<le> 2147483648" by simp
  show "size_add lg (Suc 0) = Suc lg" using assms by simp
  have "(2::nat) ^ (lg - 1) * 2 = 2 ^ Suc (lg - 1)" by simp
  also have "\<dots> = 2 ^ lg" using assms(1) by (intro arg_cong [of _ _ "(^) 2"]) simp
  finally show "size_mul (2 ^ (lg - Suc 0)) 2 = 2 ^ lg" using n by simp
  show "\<not> size_max div (2 * sizeof_coucal_item) < 2 ^ lg"
    and "size_mul (size_mul (2 ^ lg) sizeof_coucal_item) 2 \<le> ptrdiff_max"
    using n by (simp_all add: size_max_def sizeof_coucal_item_def ptrdiff_max_def)
qed

text \<open>The table with room for twice as many items, before the items are relocated.\<close>

definition enlarged :: "struct_coucal \<Rightarrow> c_heap \<Rightarrow> struct_coucal" where
  "enlarged h hp = count_rehash h\<lparr>lg_size := Suc (lg_size h), heap := hp,
     items := items h @ replicate (2 ^ lg_size h) null_item\<rparr>"

lemma expand_table_eq:
  assumes inv: "table_inv h" and "lg_size h \<le> 31"
    and m: "c_malloc (heap h) (size_mul (size_mul (2 ^ lg_size h) sizeof_coucal_item) 2) = (r, hp)"
  shows "expand_table h (2 ^ (lg_size h - 1)) =
      (case r of None \<Rightarrow> Inl (AssertFailed A_hashtable_allocation_error)
       | Some b \<Rightarrow> bind_res (relocate_lower (lg_size h) (2 ^ lg_size h) (enlarged h hp) 0 (2 ^ lg_size h))
                    merge_stash)"
  using assms(2) m table_invD [OF inv] doubling_sizes [of "lg_size h"]
  by (cases r) (simp_all add: expand_table_def Let_def coucal_is_acceptable_pow2_def
      COUCAL_HASH_SIZE_def count_rehash_def enlarged_def)

lemma relocate_enlarged:
  assumes inv: "slots_inv h" and lg: "lg_size h \<le> 31"
    and hp: "hp = (heap h)\<lparr>hp_next := Suc (hp_next (heap h))\<rparr>"
  obtains h2 where "relocate_lower (lg_size h) (2 ^ lg_size h) (enlarged h hp) 0 (2 ^ lg_size h) = Inr h2"
    and "slots_inv h2" and "live h2 = live h" and "stash h2 = stash h" and "expanded h h2"
proof -
  let ?lg = "lg_size h" and ?h1 = "enlarged h hp"
  have tinv: "table_inv h" and sinv: "stash_inv (stash h)"
    using inv by (simp_all add: slots_inv_def)
  note tD = table_invD [OF tinv]
  have lg1: "lg_size ?h1 = Suc ?lg" "Suc ?lg \<le> 32" using lg by (simp_all add: enlarged_def)
  have "half_moved ?lg 0 (items ?h1)" using half_moved_start [OF tD(3,4)] by (simp add: enlarged_def)
  from relocate_lower_correct [OF lg1 this, of "2 ^ ?lg"]
  obtain xs where xs: "relocate_lower ?lg (2 ^ ?lg) ?h1 0 (2 ^ ?lg) = Inr (?h1\<lparr>items := xs\<rparr>)"
      "length xs = 2 ^ Suc ?lg" "placed (Suc ?lg) xs" "live_of xs = live_of (items ?h1)"
    by auto
  show ?thesis
  proof (rule that [OF xs(1)])
    show "slots_inv (?h1\<lparr>items := xs\<rparr>)" using xs(2,3) lg tD(2) sinv
      by (simp add: slots_inv_def table_inv_def enlarged_def count_rehash_def MIN_LG_SIZE_def
          COUCAL_HASH_SIZE_def)
    show "live (?h1\<lparr>items := xs\<rparr>) = live h" using xs(4)
      by (simp add: live_def enlarged_def count_rehash_def)
    show "stash (?h1\<lparr>items := xs\<rparr>) = stash h" by (simp add: enlarged_def count_rehash_def)
    show "expanded h (?h1\<lparr>items := xs\<rparr>)"
      by (simp add: expanded_def enlarged_def count_rehash_def hp)
  qed
qed

lemma expand_table_correct:
  assumes inv: "slots_inv h"
  shows "(expand_table h (2 ^ (lg_size h - 1)) = Inl (AssertFailed A_acceptable_pow2) \<and> lg_size h = 32)
    \<or> (expand_table h (2 ^ (lg_size h - 1)) = Inl (AssertFailed A_hashtable_allocation_error) \<and>
         heap_refuses (heap h))
    \<or> (\<exists>h'. expand_table h (2 ^ (lg_size h - 1)) = Inr h' \<and> expanded h h' \<and> slots_inv h' \<and>
         live h' = live h \<and> stash_size (stash h') \<le> stash_size (stash h))"
proof (cases "lg_size h = 32")
  case True
  then show ?thesis
    by (simp add: expand_table_def Let_def coucal_is_acceptable_pow2_def COUCAL_HASH_SIZE_def
        count_rehash_def)
next
  case False
  have tinv: "table_inv h" using inv by (simp add: slots_inv_def)
  then have lg: "lg_size h \<le> 31" "4 \<le> lg_size h" using False table_invD(1,2) [OF tinv] by simp_all
  let ?alloc = "size_mul (size_mul (2 ^ lg_size h) sizeof_coucal_item) 2"
  obtain r hp where m: "c_malloc (heap h) ?alloc = (r, hp)" by fastforce
  note run = expand_table_eq [OF tinv lg(1) m]
  show ?thesis
  proof (cases r)
    case None
    then show ?thesis
      using run m c_malloc_refused [OF _ doubling_sizes(4) [OF lg(2,1)], of "heap h"] by simp
  next
    case (Some b)
    have "hp = (heap h)\<lparr>hp_next := Suc (hp_next (heap h))\<rparr>" using c_malloc_cases [OF m] by simp
    then obtain h2 where h2: "relocate_lower (lg_size h) (2 ^ lg_size h) (enlarged h hp) 0 (2 ^ lg_size h) = Inr h2"
        "slots_inv h2" "live h2 = live h" "stash h2 = stash h" "expanded h h2"
      using relocate_enlarged [OF inv lg(1)] by blast
    obtain h' where h': "merge_stash h2 = Inr h'" "slots_frame h2 h'" "slots_inv h'"
        "live h' = live h2" "stash_size (stash h') \<le> stash_size (stash h2)"
      using merge_stash_correct [OF h2(2)] by blast
    have "expanded h h'" using h2(5) h'(2) by (simp add: expanded_def slots_frame_def)
    then show ?thesis using run Some h2 h' by simp
  qed
qed

end
