(* ===== verification/WriteCorrect.thy ===== *)
theory WriteCorrect
  imports Expand
begin

text \<open>
  Writing keeps the invariant of the hashtable and updates its map: the write of a present key
  replaces its value in place and hands the old value to the free handler, the write of an
  absent key adds one entry under a key of its own, and the only failures are a refused
  allocation, a full stash and a table of \<open>2 ^ 32\<close> slots.
\<close>

section \<open>Changing the value of an item\<close>

definition freed :: "coucal_custom \<Rightarrow> coucal_value \<Rightarrow> handler_call list" where
  "freed c v =
     (if v = 0 then [] else case value_free c of Some f \<Rightarrow> [CallValueFree f (value_arg c) v] | None \<Rightarrow> [])"

lemma del_value_eq:
  "coucal_del_value_i h loc =
     (let it = item_at h loc in
      if value it = 0 then h
      else set_at (h\<lparr>calls := calls h @ freed (custom h) (value it)\<rparr>) loc (it\<lparr>value := 0\<rparr>))"
  by (simp add: coucal_del_value_i_def freed_def Let_def split: option.split)

lemma set_at_simps [simp]:
  "custom (set_at h loc it) = custom h" "pool (set_at h loc it) = pool h"
  "heap (set_at h loc it) = heap h" "calls (set_at h loc it) = calls h"
  "used (set_at h loc it) = used h" "lg_size (set_at h loc it) = lg_size h"
  "extent (stash (set_at h loc it)) = extent (stash h)"
  "stash_size (stash (set_at h loc it)) = stash_size (stash h)"
  "length (items (set_at h loc it)) = length (items h)"
  "set_at (set_at h loc it) loc it' = set_at h loc it'"
  "valid_loc (set_at h loc it) loc' = valid_loc h loc'"
  "item_at (h\<lparr>calls := cs\<rparr>) loc = item_at h loc"
  "valid_loc (h\<lparr>calls := cs\<rparr>) loc = valid_loc h loc"
  by (simp_all add: set_at_def set_item_def set_stash_item_def item_at_def valid_loc_def
      split: location.split)

lemma item_at_set_at:
  assumes "slots_inv h" and "valid_loc h loc"
  shows "item_at (set_at h loc it) loc = it"
  using assms stash_invD(1,2) [of "stash h"]
  by (auto simp: item_at_def set_at_def valid_loc_def set_item_def set_stash_item_def slots_inv_def
      split: location.split)

lemma slots_inv_calls [simp]: "slots_inv (h\<lparr>calls := cs\<rparr>) = slots_inv h"
  by (simp add: slots_inv_def table_inv_def)

lemma set_value_del:
  assumes "slots_inv h" and "valid_loc h loc"
  shows "set_value (coucal_del_value_i h loc) loc v =
    set_at (h\<lparr>calls := calls h @ freed (custom h) (value (item_at h loc))\<rparr>) loc
      ((item_at h loc)\<lparr>value := v\<rparr>)"
proof (cases "value (item_at h loc) = 0")
  case True
  then show ?thesis by (simp add: del_value_eq set_value_def freed_def)
next
  case False
  have "item_at (set_at (h\<lparr>calls := cs\<rparr>) loc it) loc = it" for cs it
    using item_at_set_at [of "h\<lparr>calls := cs\<rparr>"] assms by simp
  then show ?thesis using False by (simp add: del_value_eq set_value_def Let_def)
qed

text \<open>
  All slots, in the order an enumeration visits them, and the index of a location among them.
\<close>

definition slots :: "struct_coucal \<Rightarrow> coucal_item list" where
  "slots h = items h @ stash_items (stash h)"

definition slot_index :: "struct_coucal \<Rightarrow> location \<Rightarrow> nat" where
  "slot_index h loc = (case loc of InTable i \<Rightarrow> i | InStash j \<Rightarrow> length (items h) + j)"

lemma slots_calls [simp]:
  "slots (h\<lparr>calls := cs\<rparr>) = slots h" "slot_index (h\<lparr>calls := cs\<rparr>) loc = slot_index h loc"
  by (simp_all add: slots_def slot_index_def split: location.split)

lemma slots_set_at:
  "valid_loc h loc \<Longrightarrow> slots (set_at h loc it) = (slots h)[slot_index h loc := it]"
  by (cases loc) (simp_all add: slots_def slot_index_def set_at_def set_item_def set_stash_item_def
      valid_loc_def list_update_append)

lemma slots_nth:
  assumes "slots_inv h" and "valid_loc h loc"
  shows "slot_index h loc < length (slots h)" and "slots h ! slot_index h loc = item_at h loc"
  using assms stash_invD(1,2) [of "stash h"]
  by (auto simp: slots_def slot_index_def valid_loc_def item_at_def slots_inv_def nth_append
      split: location.splits)

text \<open>The live items around one location.\<close>

lemma live_set_at:
  assumes "slots_inv h" and "valid_loc h loc" and "name (item_at h loc) \<noteq> KNull" and "name it \<noteq> KNull"
  obtains M where "live h = add_mset (item_at h loc) M" and "live (set_at h loc it) = add_mset it M"
proof -
  have sinv: "stash_inv (stash h)" using assms(1) by (simp add: slots_inv_def)
  note stD = stash_invD(1,2) [OF sinv]
  define M where "M = live h - {#item_at h loc#}"
  have "live h = add_mset (item_at h loc) M"
    using valid_loc_live [OF assms(1-3)] by (simp add: M_def)
  moreover have "add_mset (item_at h loc) (live (set_at h loc it)) = add_mset it (live h)"
  proof (cases loc)
    case (InTable i)
    then have "add_mset (items h ! i) (live_of ((items h)[i := it])) = add_mset it (live_of (items h))"
      using assms(2-4) by (intro live_of_set_swap) (simp_all add: valid_loc_def item_at_def)
    then have "add_mset (items h ! i) (live_of ((items h)[i := it])) + live_of (stash_items (stash h))
        = add_mset it (live_of (items h)) + live_of (stash_items (stash h))" by simp
    then show ?thesis using InTable by (simp add: live_def set_at_def set_item_def item_at_def)
  next
    case (InStash i)
    then have "add_mset (stash_items (stash h) ! i) (live_of ((stash_items (stash h))[i := it]))
        = add_mset it (live_of (stash_items (stash h)))"
      using assms(2-4) stD by (intro live_of_set_swap) (simp_all add: valid_loc_def item_at_def)
    then have "live_of (items h) + add_mset (stash_items (stash h) ! i) (live_of ((stash_items (stash h))[i := it]))
        = live_of (items h) + add_mset it (live_of (stash_items (stash h)))" by simp
    then show ?thesis using InStash by (simp add: live_def set_at_def set_stash_item_def item_at_def)
  qed
  ultimately show ?thesis using that [of M] by simp
qed

lemma slots_inv_set_at:
  assumes "slots_inv h" and "valid_loc h loc" and "name (item_at h loc) \<noteq> KNull"
    and "name it \<noteq> KNull" and "hashes it = hashes (item_at h loc)"
  shows "slots_inv (set_at h loc it)"
proof -
  have tinv: "table_inv h" and sinv: "stash_inv (stash h)"
    using assms(1) by (simp_all add: slots_inv_def)
  note stD = stash_invD(1,2) [OF sinv]
  show ?thesis
  proof (cases loc)
    case (InTable i)
    then have "well_placed (lg_size h) i (items h ! i)"
      using assms(2,3) table_invD(4) [OF tinv] by (simp add: valid_loc_def item_at_def placed_def)
    then have "well_placed (lg_size h) i it"
      using assms(5) InTable by (simp add: well_placed_def item_at_def)
    then show ?thesis using InTable tinv sinv
      by (simp add: slots_inv_def set_at_def table_inv_set_item) (simp add: set_item_def)
  next
    case (InStash i)
    then have i: "i < 16" "i < extent (stash h)" "name (stash_items (stash h) ! i) \<noteq> KNull"
      using assms(2,3) stD by (simp_all add: valid_loc_def item_at_def)
    have "size (live_of ((stash_items (stash h))[i := it])) = size (live_of (stash_items (stash h)))"
      using live_of_set_swap [of i "stash_items (stash h)" it] i assms(4) stD
      by (metis add_left_cancel plus_1_eq_Suc size_add_mset)
    then have "stash_inv ((stash h)\<lparr>stash_items := (stash_items (stash h))[i := it]\<rparr>)"
      using sinv i assms(4) by (auto simp: stash_inv_def stash_core_def nth_list_update)
    then show ?thesis using InStash tinv
      by (simp add: slots_inv_def set_at_def set_stash_item_def table_inv_def)
  qed
qed

lemma entries_calls [simp]: "entries (h\<lparr>calls := cs\<rparr>) = entries h"
  and live_calls [simp]: "live (h\<lparr>calls := cs\<rparr>) = live h"
  and live_names_calls [simp]: "live_names (h\<lparr>calls := cs\<rparr>) = live_names h"
  by (simp_all add: entries_def live_def live_names_eq)

lemma content_ok_insert:
  assumes "keys_ok c"
  shows "content_ok c (add_mset e E) \<longleftrightarrow>
    content_ok c E \<and> entry_ok c e \<and> (\<forall>e' \<in># E. distinct_keys c e e')"
  by (auto simp: content_ok_def
      pairwise_mset_add [of "distinct_keys c", OF distinct_keys_sym [OF assms]])

lemma content_ok_value:
  "content_ok c (add_mset (k, v, hk) E) \<Longrightarrow> keys_ok c \<Longrightarrow> content_ok c (add_mset (k, w, hk) E)"
  by (simp add: content_ok_insert entry_ok_def distinct_keys_def split: option.splits)

lemma set_at_value_correct:
  assumes inv: "coucal_inv h" and loc: "valid_loc h loc" and is_s: "item_is h s (item_at h loc)"
    and h'_def: "h' = set_at (h\<lparr>calls := cs\<rparr>) loc ((item_at h loc)\<lparr>value := v\<rparr>)"
  shows "coucal_inv h'" and "\<exists>t E. equals_of (custom h) t s \<and>
      entries h = add_mset (Some t, value (item_at h loc), hash_of (custom h) s) E \<and>
      entries h' = add_mset (Some t, v, hash_of (custom h) s) E"
    and "live_names h' = live_names h"
proof -
  define it where "it = item_at h loc"
  let ?h = "h\<lparr>calls := cs\<rparr>"
  have parts: "slots_inv h" "keys_ok (custom h)" "dup_ok (custom h)" "storage_inv h"
      "content_ok (custom h) (entries h)" "used h = size (entries h)"
    using inv by (simp_all add: coucal_inv_def)
  have nn: "name it \<noteq> KNull" and eq_s: "equals_of (custom h) (the (deref (pool h) (name it))) s"
    using is_s by (simp_all add: item_is_def it_def)
  have slots: "slots_inv h'" unfolding h'_def
    by (rule slots_inv_set_at) (use parts(1) loc nn in \<open>simp_all add: it_def\<close>)
  obtain M where M: "live ?h = add_mset (item_at ?h loc) M" "live h' = add_mset (it\<lparr>value := v\<rparr>) M"
    unfolding h'_def it_def [symmetric]
    by (rule live_set_at [of ?h loc "it\<lparr>value := v\<rparr>"]) (use parts(1) loc nn in \<open>simp_all add: it_def\<close>)
  then have M': "live h = add_mset it M" by (simp add: it_def)
  then have "it \<in># live h" by simp
  then obtain t where t: "deref (pool h) (name it) = Some t" "hashes it = hash_of (custom h) t"
    using live_entry [OF parts(5)] by blast
  have hk: "hash_of (custom h) t = hash_of (custom h) s"
    using keys_okD(4) [OF parts(2)] eq_s t(1) by simp
  let ?E = "image_mset (entry (pool h)) M"
  have same: "pool h' = pool h" "heap h' = heap h" "custom h' = custom h" "used h' = used h"
    by (simp_all add: h'_def)
  have E: "entries h = add_mset (Some t, value it, hash_of (custom h) s) ?E"
      "entries h' = add_mset (Some t, v, hash_of (custom h) s) ?E"
    using t hk by (simp_all add: entries_def M' M(2) entry_def same)
  show "\<exists>t E. equals_of (custom h) t s \<and>
      entries h = add_mset (Some t, value (item_at h loc), hash_of (custom h) s) E \<and>
      entries h' = add_mset (Some t, v, hash_of (custom h) s) E"
    using E eq_s t(1) by (auto simp: it_def)
  show names: "live_names h' = live_names h" by (simp add: live_names_def M(2) M')
  then have "storage_inv h'" using parts(4) by (simp add: storage_inv_def same)
  moreover have "content_ok (custom h') (entries h')"
    using content_ok_value [of "custom h" "Some t"] parts(2,5) E same by simp
  moreover have "used h' = size (entries h')" using parts(6) E same by simp
  ultimately show "coucal_inv h'" using slots parts(2,3) by (simp add: coucal_inv_def same)
qed

section \<open>Adding an entry\<close>

text \<open>What a write of the key \<open>s\<close> needs when the pool will hold it.\<close>

definition fits :: "struct_coucal \<Rightarrow> byte list \<Rightarrow> bool" where
  "fits h s \<longleftrightarrow>
     key_dup (custom h) = None \<longrightarrow> 0 \<notin> set s \<and> pool_size (pool h) + length s < 2 ^ 62"

definition dup_calls :: "struct_coucal \<Rightarrow> byte list \<Rightarrow> handler_call list" where
  "dup_calls h s =
     (case key_dup (custom h) of
        None \<Rightarrow> []
      | Some f \<Rightarrow> [CallDup (key_arg (custom h)) s (f (key_arg (custom h)) (calls h) s)])"

lemma dup_calls_cong:
  "custom h' = custom h \<Longrightarrow> calls h' = calls h \<Longrightarrow> dup_calls h' s = dup_calls h s"
  by (simp add: dup_calls_def split: option.split)

lemma coucal_inv_slots:
  assumes inv: "coucal_inv h" and frame: "slots_frame h h'" and slots: "slots_inv h'"
    and live: "live h' = live h"
  shows "coucal_inv h'" and "entries h' = entries h"
proof -
  note eq = slots_frameD [OF frame]
  show "entries h' = entries h" by (simp add: entries_def live eq)
  moreover have "live_names h' = live_names h" by (simp add: live_names_def live)
  ultimately show "coucal_inv h'" using inv slots eq
    by (simp add: coucal_inv_def storage_inv_def)
qed

text \<open>The keys the client's \<open>dup\<close> handler has returned, and those its \<open>free\<close> handler was given.\<close>

definition dup_keys :: "handler_call list \<Rightarrow> coucal_key multiset" where
  "dup_keys cs = mset (concat (map (\<lambda>c. case c of CallDup a s k \<Rightarrow> [k] | _ \<Rightarrow> []) cs))"

definition freed_keys :: "handler_call list \<Rightarrow> coucal_key multiset" where
  "freed_keys cs = mset (concat (map (\<lambda>c. case c of CallKeyFree f a k \<Rightarrow> [k] | _ \<Rightarrow> []) cs))"

lemma call_keys_simps [simp]:
  "dup_keys [] = {#}" "freed_keys [] = {#}"
  "dup_keys (c # cs) = (case c of CallDup a s k \<Rightarrow> {#k#} | _ \<Rightarrow> {#}) + dup_keys cs"
  "freed_keys (c # cs) = (case c of CallKeyFree f a k \<Rightarrow> {#k#} | _ \<Rightarrow> {#}) + freed_keys cs"
  "dup_keys (cs @ cs') = dup_keys cs + dup_keys cs'"
  "freed_keys (cs @ cs') = freed_keys cs + freed_keys cs'"
  by (simp_all add: dup_keys_def freed_keys_def split: handler_call.split)

lemma freed_no_keys [simp]: "dup_keys (freed c v) = {#}" "freed_keys (freed c v) = {#}"
  by (simp_all add: freed_def split: option.split)

lemma dup_calls_no_free [simp]: "freed_keys (dup_calls h s) = {#}"
  by (simp add: dup_calls_def split: option.split)

text \<open>The key \<open>k\<close> is stored, but not yet in a slot.\<close>

definition key_in_hand :: "struct_coucal \<Rightarrow> coucal_key \<Rightarrow> byte list \<Rightarrow> bool" where
  "key_in_hand h k t \<longleftrightarrow>
     k \<noteq> KNull \<and> deref (pool h) k = Some t \<and>
     (if key_dup (custom h) = None then pool_inv (pool h) (heap h) (add_mset k (live_names h))
      else (\<exists>a t. k = KExt a t) \<and> (\<forall>k \<in># live_names h. \<exists>a t. k = KExt a t))"

text \<open>What copying a key leaves alone.\<close>

definition dup_frame :: "struct_coucal \<Rightarrow> struct_coucal \<Rightarrow> bool" where
  "dup_frame h h' \<longleftrightarrow>
     custom h' = custom h \<and> entries h' = entries h \<and> used h' = used h \<and> lg_size h' = lg_size h \<and>
     stash_size (stash h') = stash_size (stash h) \<and> (heap_refuses (heap h') \<longleftrightarrow> heap_refuses (heap h))"

lemma dup_name_correct:
  assumes inv: "coucal_inv h" and nm: "deref (pool h) nm = Some s" and fits: "fits h s"
  shows "(\<exists>e \<in> pool_errors. coucal_dup_name h nm = Inl (AssertFailed e) \<and> heap_refuses (heap h))
    \<or> (\<exists>h' k t. coucal_dup_name h nm = Inr (h', k) \<and> key_in_hand h' k t \<and> slots_inv h' \<and>
         dup_frame h h' \<and> equals_of (custom h) t s \<and> (key_dup (custom h) = None \<longrightarrow> t = s) \<and>
         calls h' = calls h @ dup_calls h s \<and>
         pool_size (pool h') \<le> pool_size (pool h) + Suc (length s) \<and>
         (key_dup (custom h) \<noteq> None \<longrightarrow>
            live_names h' = live_names h \<and> dup_keys (dup_calls h s) = {#k#}))"
proof (cases "key_dup (custom h)")
  case None
  have parts: "slots_inv h" "pool_inv (pool h) (heap h) (live_names h)" "keys_ok (custom h)"
    using inv None by (simp_all add: coucal_inv_def storage_inv_def)
  from dup_name_internal_correct [of h nm s] parts nm fits None
  consider (bad) e where "e \<in> pool_errors" "coucal_dup_name_internal h nm = Inl (AssertFailed e)"
      "heap_refuses (heap h)"
    | (good) h' k where "coucal_dup_name_internal h nm = Inr (h', k)" "pool_frame h h'"
      "pool_inv (pool h') (heap h') (add_mset k (live_names h'))" "deref (pool h') k = Some s"
      "pool_size (pool h') \<le> pool_size (pool h) + Suc (length s)"
    by (auto simp: fits_def)
  then show ?thesis
  proof cases
    case bad
    then show ?thesis using None by (auto simp: coucal_dup_name_def)
  next
    case good
    have "dup_frame h h'"
      using good(2) pool_frame_entries [OF good(2)]
      by (simp add: dup_frame_def pool_frame_def renamed_slots_def heap_refuses_def)
    moreover have "calls h' = calls h @ dup_calls h s" "custom h' = custom h"
      using good(2) None by (simp_all add: pool_frame_def dup_calls_def)
    moreover have "key_in_hand h' k s"
      using good(3,4) None \<open>custom h' = custom h\<close> by (auto simp: key_in_hand_def)
    moreover have "slots_inv h'" by (rule pool_frame_slots_inv [OF parts(1) good(2)])
    moreover have "coucal_dup_name h nm = Inr (h', k)"
      using None good(1) by (simp add: coucal_dup_name_def)
    ultimately show ?thesis using keys_okD(1) [OF parts(3)] None good(5) by blast
  qed
next
  case (Some f)
  define h' where "h' = h\<lparr>calls := calls h @ dup_calls h s\<rparr>"
  obtain a t where k: "f (key_arg (custom h)) (calls h) s = KExt a t" "equals_of (custom h) t s"
    using inv Some by (fastforce simp: coucal_inv_def dup_ok_def)
  have "coucal_dup_name h nm = Inr (h', KExt a t)"
    using Some nm k(1) by (simp add: coucal_dup_name_def read_key_def h'_def dup_calls_def Let_def)
  moreover have "key_in_hand h' (KExt a t) t"
    using inv Some by (simp add: key_in_hand_def h'_def deref_def coucal_inv_def storage_inv_def)
  moreover have "slots_inv h'" "dup_frame h h'" "calls h' = calls h @ dup_calls h s"
      "live_names h' = live_names h" "dup_keys (dup_calls h s) = {#KExt a t#}" "pool h' = pool h"
    using inv k(1) Some by (simp_all add: h'_def coucal_inv_def dup_frame_def dup_calls_def)
  ultimately show ?thesis using k(2) Some by auto
qed

text \<open>The new entry differs from the old ones.\<close>

lemma content_ok_add:
  assumes "keys_ok c" and "content_ok c E" and "equals_of c t s" and "\<not> (\<exists>v. has_entry c E s v)"
  shows "content_ok c (add_mset (Some t, v, hash_of c s) E)"
proof -
  have "hash_of c s = hash_of c t" using keys_okD(4) [OF assms(1,3)] by simp
  moreover have "distinct_keys c (Some t, v, hash_of c s) e" if "e \<in># E" for e
  proof -
    have "\<not> equals_of c (the (fst e)) s" using assms(4) that by (auto simp: has_entry_def)
    then have "\<not> equals_of c t (the (fst e))"
      using keys_okD(3) [OF assms(1) _ assms(3)] keys_okD(2) [OF assms(1)] by blast
    then show ?thesis by (simp add: distinct_keys_def)
  qed
  ultimately show ?thesis using assms(1,2) by (simp add: content_ok_insert entry_ok_def)
qed

lemma add_entry_correct:
  assumes key: "key_in_hand h k t" and slots: "slots_inv h" and keys: "keys_ok (custom h)"
    and dup: "dup_ok (custom h)" and content: "content_ok (custom h) (entries h)"
    and eq: "equals_of (custom h) t s" and absent: "\<not> (\<exists>v. has_entry (custom h) (entries h) s v)"
    and frame: "slots_frame h h'" and slots': "slots_inv h'"
    and live: "live h' = add_mset \<lparr>name = k, value = v, hashes = hash_of (custom h) s\<rparr> (live h)"
  shows "entries h' = add_mset (Some t, v, hash_of (custom h) s) (entries h)"
    and "storage_inv h'" and "content_ok (custom h') (entries h')"
    and "live_names h' = add_mset k (live_names h)"
proof -
  note same = slots_frameD [OF frame]
  show E: "entries h' = add_mset (Some t, v, hash_of (custom h) s) (entries h)"
    using key by (simp add: entries_def live same entry_def key_in_hand_def)
  show "content_ok (custom h') (entries h')"
    using content_ok_add [OF keys content eq absent] by (simp add: E same)
  show names: "live_names h' = add_mset k (live_names h)" by (simp add: live_names_def live)
  then show "storage_inv h'"
    using key by (auto simp: storage_inv_def key_in_hand_def same split: if_splits)
qed

section \<open>Writing\<close>

text \<open>\<open>coucal_write_value_()\<close> searches as \<open>coucal_fetch_value_hashes()\<close> does.\<close>

definition add_new ::
  "struct_coucal \<Rightarrow> coucal_key \<Rightarrow> coucal_value \<Rightarrow> coucal_hashkeys \<Rightarrow> (struct_coucal \<times> int) res" where
  "add_new h nm v hk =
     (let h = count_add h;
          h = (if stash_size (stash h) \<noteq> 0 then coucal_drain_stash h else h)
      in bind_res (coucal_dup_name h nm) (\<lambda>(h, k).
           coucal_add_item_i h \<lparr>name = k, value = v, hashes = hk\<rparr>))"

lemma write_value_i_fetch:
  "coucal_write_value_i h nm v =
     bind_res (coucal_calc_hashes h nm) (\<lambda>hk.
     bind_res (coucal_fetch_value_hashes (count_write h) nm hk) (\<lambda>r.
       case r of
         Some loc \<Rightarrow> Inr (set_value (coucal_del_value_i (count_write h) loc) loc v, 0)
       | None \<Rightarrow> add_new (count_write h) nm v hk))"
proof (cases "coucal_calc_hashes h nm")
  case (Inr hk)
  let ?h = "count_write h"
  let ?m1 = "coucal_matches ?h (coucal_hash_to_pos ?h (hash1 hk)) nm hk"
  let ?m2 = "coucal_matches ?h (coucal_hash_to_pos ?h (hash2 hk)) nm hk"
  let ?s = "stash_search ?h nm hk 0 (extent (stash ?h))"
  show ?thesis
    by (cases ?m1; cases ?m2; cases ?s)
      (auto simp: Inr coucal_write_value_i_def coucal_fetch_value_hashes_def Let_def add_new_def
        coucal_del_value_def split: option.split)
qed (simp add: coucal_write_value_i_def)

lemma count_simps [simp]:
  "custom (count_write h) = custom h" "pool (count_write h) = pool h" "calls (count_write h) = calls h"
  "lg_size (count_write h) = lg_size h" "heap (count_write h) = heap h" "used (count_write h) = used h"
  "stash (count_write h) = stash h" "items (count_write h) = items h"
  "custom (count_add h) = custom h" "pool (count_add h) = pool h" "calls (count_add h) = calls h"
  "lg_size (count_add h) = lg_size h" "heap (count_add h) = heap h" "used (count_add h) = used h"
  "stash (count_add h) = stash h" "items (count_add h) = items h"
  by (simp_all add: count_write_def count_add_def)

lemma coucal_inv_stats:
  assumes "items h' = items h" "stash h' = stash h" "pool h' = pool h" "heap h' = heap h"
    "custom h' = custom h" "used h' = used h" "lg_size h' = lg_size h"
  shows "coucal_inv h' = coucal_inv h" and "entries h' = entries h" and "live h' = live h"
    and "live_names h' = live_names h" and "slots_inv h' = slots_inv h"
proof -
  show live: "live h' = live h" by (simp add: live_def assms)
  show names: "live_names h' = live_names h" by (simp add: live_names_def live)
  show E: "entries h' = entries h" by (simp add: entries_def live assms)
  show slots: "slots_inv h' = slots_inv h" by (simp add: slots_inv_def table_inv_def assms)
  show "coucal_inv h' = coucal_inv h"
    by (simp add: coucal_inv_def slots storage_inv_def names E assms)
qed

lemma count_inv [simp]:
  "coucal_inv (count_write h) = coucal_inv h" "entries (count_write h) = entries h"
  "coucal_inv (count_add h) = coucal_inv h" "entries (count_add h) = entries h"
  by (rule coucal_inv_stats; simp)+

text \<open>The two ways a write ends well, on the entries.\<close>

definition replaced :: "struct_coucal \<Rightarrow> byte list \<Rightarrow> coucal_value \<Rightarrow> struct_coucal \<Rightarrow> bool" where
  "replaced h s v h' \<longleftrightarrow>
     (\<exists>t old E. equals_of (custom h) t s \<and> entries h = add_mset (Some t, old, hash_of (custom h) s) E \<and>
        entries h' = add_mset (Some t, v, hash_of (custom h) s) E \<and>
        calls h' = calls h @ freed (custom h) old \<and> live_names h' = live_names h) \<and>
     (\<exists>i < length (slots h). item_is h s (slots h ! i) \<and> pool h' = pool h \<and>
        slots h' = (slots h)[i := (slots h ! i)\<lparr>value := v\<rparr>])"

definition added :: "struct_coucal \<Rightarrow> byte list \<Rightarrow> coucal_value \<Rightarrow> struct_coucal \<Rightarrow> bool" where
  "added h s v h' \<longleftrightarrow>
     (\<exists>t. equals_of (custom h) t s \<and> (key_dup (custom h) = None \<longrightarrow> t = s) \<and>
        \<not> (\<exists>w. has_entry (custom h) (entries h) s w) \<and>
        entries h' = add_mset (Some t, v, hash_of (custom h) s) (entries h) \<and>
        calls h' = calls h @ dup_calls h s \<and>
        (key_dup (custom h) \<noteq> None \<longrightarrow> live_names h' = dup_keys (dup_calls h s) + live_names h))"

text \<open>The failures of a write, each with its cause.\<close>

definition write_failure :: "struct_coucal \<Rightarrow> assertion \<Rightarrow> bool" where
  "write_failure h a \<longleftrightarrow>
     a \<in> insert A_hashtable_allocation_error pool_errors \<and> heap_refuses (heap h) \<or>
     a = A_cuckoo_stash_collision \<and> stash_size (stash h) = 16 \<or>
     a = A_acceptable_pow2 \<and> lg_size h = 32"

lemma absent_entry:
  assumes "map_inv h" and "table_map h s = None"
  shows "\<not> (\<exists>v. has_entry (custom h) (entries h) s v)"
  using table_map_has [OF assms(1), of s] assms(2) by simp

lemma write_replace_correct:
  assumes inv: "coucal_inv h" and loc: "valid_loc h loc" and is_s: "item_is h s (item_at h loc)"
    and h'_def: "h' = set_value (coucal_del_value_i h loc) loc v"
  shows "coucal_inv h'" and "replaced h s v h'" and "custom h' = custom h"
    and "heap_refuses (heap h') = heap_refuses (heap h)" and "lg_size h' = lg_size h"
proof -
  have "slots_inv h" using inv by (simp add: coucal_inv_def)
  from set_value_del [OF \<open>slots_inv h\<close> loc]
  have h': "h' = set_at (h\<lparr>calls := calls h @ freed (custom h) (value (item_at h loc))\<rparr>) loc
      ((item_at h loc)\<lparr>value := v\<rparr>)" by (simp add: h'_def)
  note set = set_at_value_correct [OF inv loc is_s h']
  show "coucal_inv h'" by (rule set(1))
  have "slots h' = (slots h)[slot_index h loc := (item_at h loc)\<lparr>value := v\<rparr>]"
    using slots_set_at [of "h\<lparr>calls := cs\<rparr>" loc for cs] loc by (simp add: h')
  then show "replaced h s v h'"
    using set(2,3) is_s slots_nth [OF \<open>slots_inv h\<close> loc] unfolding replaced_def
    by (auto simp: h')
  show "custom h' = custom h" "heap_refuses (heap h') = heap_refuses (heap h)"
    "lg_size h' = lg_size h" by (simp_all add: h')
qed

lemma coucal_inv_used:
  "coucal_inv (h\<lparr>used := n\<rparr>) \<longleftrightarrow>
     slots_inv h \<and> keys_ok (custom h) \<and> dup_ok (custom h) \<and> storage_inv h \<and>
     content_ok (custom h) (entries h) \<and> n = size (entries h)"
  by (simp add: coucal_inv_def slots_inv_def table_inv_def storage_inv_def entries_def live_def
      live_names_eq)

text \<open>The first step of an addition: the count, and the stash drained when it holds items.\<close>

definition drained :: "struct_coucal \<Rightarrow> struct_coucal" where
  "drained h = (if stash_size (stash h) \<noteq> 0 then coucal_drain_stash (count_add h) else count_add h)"

lemma add_new_eq:
  "add_new h nm v hk = bind_res (coucal_dup_name (drained h) nm) (\<lambda>(h, k).
     coucal_add_item_i h \<lparr>name = k, value = v, hashes = hk\<rparr>)"
  by (simp add: add_new_def drained_def Let_def)

lemma drained_correct:
  assumes inv: "coucal_inv h"
  shows "coucal_inv (drained h)" and "entries (drained h) = entries h"
    and "stash_size (stash (drained h)) \<le> stash_size (stash h)"
    and "live_names (drained h) = live_names h" and "slots_frame (count_add h) (drained h)"
proof -
  have inv0: "coucal_inv (count_add h)" "slots_inv (count_add h)"
    using inv by (simp, simp add: coucal_inv_def coucal_inv_stats(5) [of "count_add h" h])
  note drain = coucal_drain_stash_correct [OF inv0(2)]
  note keep = coucal_inv_slots [OF inv0(1) drain(2,1,3)]
  show "slots_frame (count_add h) (drained h)" using drain(2) by (simp add: drained_def)
  show "coucal_inv (drained h)" "entries (drained h) = entries h"
    "stash_size (stash (drained h)) \<le> stash_size (stash h)"
    using inv0 keep drain(4) by (simp_all add: drained_def)
  show "live_names (drained h) = live_names h"
    using drain(3) coucal_inv_stats(4) [of "count_add h" h] coucal_inv_stats(3) [of "count_add h" h]
    by (simp add: drained_def live_names_def)
qed

text \<open>The copy of the key in a drained table, in terms of the table before.\<close>

definition copied :: "struct_coucal \<Rightarrow> byte list \<Rightarrow> struct_coucal \<Rightarrow> coucal_key \<Rightarrow> byte list \<Rightarrow> bool" where
  "copied h s h' k t \<longleftrightarrow>
     key_in_hand h' k t \<and> slots_inv h' \<and> custom h' = custom h \<and> entries h' = entries h \<and>
     used h' = used h \<and> lg_size h' = lg_size h \<and> stash_size (stash h') \<le> stash_size (stash h) \<and>
     (heap_refuses (heap h') \<longleftrightarrow> heap_refuses (heap h)) \<and>
     equals_of (custom h) t s \<and> (key_dup (custom h) = None \<longrightarrow> t = s) \<and>
     calls h' = calls h @ dup_calls h s \<and> pool_size (pool h') \<le> pool_size (pool h) + Suc (length s) \<and>
     (key_dup (custom h) \<noteq> None \<longrightarrow> live_names h' = live_names h \<and> dup_keys (dup_calls h s) = {#k#})"

lemma drained_dup_name:
  assumes inv: "coucal_inv h" and nm: "deref (pool h) nm = Some s" and fits: "fits h s"
  shows "(\<exists>e \<in> pool_errors. coucal_dup_name (drained h) nm = Inl (AssertFailed e) \<and> heap_refuses (heap h))
    \<or> (\<exists>h' k t. coucal_dup_name (drained h) nm = Inr (h', k) \<and> copied h s h' k t)"
proof -
  note D = drained_correct [OF inv]
  note same = slots_frameD [OF D(5)]
  have "fits (drained h) s" "deref (pool (drained h)) nm = Some s" "dup_calls (drained h) s = dup_calls h s"
    using fits nm dup_calls_cong [of "drained h" h] same by (simp_all add: fits_def)
  then show ?thesis
    using dup_name_correct [OF D(1), of nm s] D(2-4) same
    by (fastforce simp: copied_def dup_frame_def)
qed

lemma copied_added:
  assumes inv: "coucal_inv h" and absent: "\<not> (\<exists>v. has_entry (custom h) (entries h) s v)"
    and copied: "copied h s h2 k t" and frame: "slots_frame h2 h3" and slots: "slots_inv h3"
    and live: "live h3 = add_mset \<lparr>name = k, value = v, hashes = hash_of (custom h) s\<rparr> (live h2)"
  shows "added h s v h3" and "coucal_inv (h3\<lparr>used := Suc (used h)\<rparr>)"
proof -
  have C: "key_in_hand h2 k t" "slots_inv h2" "equals_of (custom h) t s" "custom h2 = custom h"
      "entries h2 = entries h" "used h2 = used h" using copied by (simp_all add: copied_def)
  have parts: "keys_ok (custom h2)" "dup_ok (custom h2)" "content_ok (custom h2) (entries h2)"
      "used h = size (entries h)"
    using inv by (simp_all add: C coucal_inv_def)
  note add = add_entry_correct [OF C(1,2) parts(1-3), of s h3 v]
  have add: "entries h3 = add_mset (Some t, v, hash_of (custom h) s) (entries h)"
      "storage_inv h3" "content_ok (custom h3) (entries h3)"
      "live_names h3 = add_mset k (live_names h2)"
    using add C(3) absent frame slots live by (simp_all add: C)
  note same3 = slots_frameD [OF frame]
  show "coucal_inv (h3\<lparr>used := Suc (used h)\<rparr>)"
    unfolding coucal_inv_used using add slots parts C same3 by simp
  show "added h s v h3"
    using add(1,4) copied absent same3 by (auto simp: added_def copied_def)
qed

lemma add_new_correct:
  assumes inv: "coucal_inv h" and nm: "deref (pool h) nm = Some s" and fits: "fits h s"
    and absent: "\<not> (\<exists>v. has_entry (custom h) (entries h) s v)"
  shows "(\<exists>a. add_new h nm v (hash_of (custom h) s) = Inl (AssertFailed a) \<and> write_failure h a)
    \<or> (\<exists>h'. add_new h nm v (hash_of (custom h) s) = Inr (h', 1) \<and> added h s v h' \<and>
         coucal_inv (h'\<lparr>used := Suc (used h)\<rparr>) \<and> used h' = used h \<and> custom h' = custom h \<and>
         pool_size (pool h') \<le> pool_size (pool h) + Suc (length s) \<and>
         lg_size h' = lg_size h \<and> (heap_refuses (heap h') \<longleftrightarrow> heap_refuses (heap h)))"
proof -
  consider (bad) e where "e \<in> pool_errors" "coucal_dup_name (drained h) nm = Inl (AssertFailed e)"
      "heap_refuses (heap h)"
    | (good) h2 k t where "coucal_dup_name (drained h) nm = Inr (h2, k)" "copied h s h2 k t"
    using drained_dup_name [OF inv nm fits] by blast
  then show ?thesis
  proof cases
    case bad
    then show ?thesis by (auto simp: add_new_eq write_failure_def)
  next
    case good
    let ?item = "\<lparr>name = k, value = v, hashes = hash_of (custom h) s\<rparr>"
    have run: "add_new h nm v (hash_of (custom h) s) = coucal_add_item_i h2 ?item"
      using good(1) by (simp add: add_new_eq)
    have "slots_inv h2" and nn: "name ?item \<noteq> KNull"
      using good(2) by (simp_all add: copied_def key_in_hand_def)
    then consider (ok) h3 where "coucal_add_item_i h2 ?item = Inr (h3, 1)" "slots_frame h2 h3"
        "slots_inv h3" "live h3 = add_mset ?item (live h2)"
      | (full) "coucal_add_item_i h2 ?item = Inl (AssertFailed A_cuckoo_stash_collision)"
        "stash_size (stash h2) = 16"
      using coucal_add_item_correct [of h2 ?item] by blast
    then show ?thesis
    proof cases
      case full
      have "stash_size (stash h) \<le> 16"
        using inv by (auto simp: coucal_inv_def slots_inv_def dest: stash_invD(4))
      moreover have "stash_size (stash h2) \<le> stash_size (stash h)" using good(2) by (simp add: copied_def)
      ultimately show ?thesis using run full by (simp add: write_failure_def)
    next
      case ok
      show ?thesis
        using run ok(1) copied_added [OF inv absent good(2) ok(2-4)] slots_frameD [OF ok(2)] good(2)
        by (simp add: copied_def)
    qed
  qed
qed

text \<open>The whole write, and the form in which the properties use it.\<close>

definition write_ok ::
  "struct_coucal \<Rightarrow> byte list \<Rightarrow> coucal_value \<Rightarrow> struct_coucal \<Rightarrow> int \<Rightarrow> bool" where
  "write_ok h s v h' ret \<longleftrightarrow>
     coucal_inv h' \<and> custom h' = custom h \<and> (heap_refuses (heap h') \<longleftrightarrow> heap_refuses (heap h)) \<and>
     pool_size (pool h') \<le> pool_size (pool h) + Suc (length s) \<and>
     (if ret = 0 then replaced h s v h' \<and> lg_size h' = lg_size h
      else ret = 1 \<and> added h s v h')"

lemma write_value_i_correct:
  assumes inv: "coucal_inv h" and nm: "deref (pool h) nm = Some s" and fits: "fits h s"
  shows "(\<exists>a. coucal_write_value_i h nm v = Inl (AssertFailed a) \<and> write_failure h a)
    \<or> (\<exists>h'. coucal_write_value_i h nm v = Inr (h', 0) \<and> coucal_inv h' \<and> replaced h s v h' \<and>
         custom h' = custom h \<and> lg_size h' = lg_size h \<and>
         (heap_refuses (heap h') \<longleftrightarrow> heap_refuses (heap h)))
    \<or> (\<exists>h'. coucal_write_value_i h nm v = Inr (h', 1) \<and> added h s v h' \<and>
         coucal_inv (h'\<lparr>used := Suc (used h)\<rparr>) \<and> used h' = used h \<and> custom h' = custom h \<and>
         pool_size (pool h') \<le> pool_size (pool h) + Suc (length s) \<and>
         lg_size h' = lg_size h \<and> (heap_refuses (heap h') \<longleftrightarrow> heap_refuses (heap h)))"
proof -
  let ?h = "count_write h"
  have inv1: "coucal_inv ?h" using inv by simp
  have nm1: "deref (pool ?h) nm = Some s" using nm by simp
  have hk: "coucal_calc_hashes h nm = Inr (hash_of (custom ?h) s)"
    using nm by (simp add: coucal_calc_hashes_def read_key_def)
  obtain r where r: "coucal_fetch_value_hashes ?h nm (hash_of (custom ?h) s) = Inr r"
      "table_map ?h s = map_option (\<lambda>loc. value (item_at ?h loc)) r"
      "\<forall>loc. r = Some loc \<longrightarrow> valid_loc ?h loc \<and> item_is ?h s (item_at ?h loc)"
    using fetch_value_map [OF coucal_inv_lookup [OF inv1] nm1] by blast
  have run: "coucal_write_value_i h nm v =
      (case r of
         Some loc \<Rightarrow> Inr (set_value (coucal_del_value_i ?h loc) loc v, 0)
       | None \<Rightarrow> add_new ?h nm v (hash_of (custom ?h) s))"
    using hk r(1) by (simp only: write_value_i_fetch bind_res_simps)
  have "dup_calls ?h t = dup_calls h t" for t by (rule dup_calls_cong) simp_all
  then have cong: "replaced ?h s v = replaced h s v" "added ?h s v = added h s v"
      "write_failure ?h = write_failure h"
    using coucal_inv_stats(4) [of ?h h]
    by (simp_all add: slots_def item_is_def fun_eq_iff replaced_def added_def write_failure_def)
  show ?thesis
  proof (cases r)
    case (Some loc)
    with r(3) have loc: "valid_loc ?h loc" "item_is ?h s (item_at ?h loc)" by simp_all
    define h' where "h' = set_value (coucal_del_value_i ?h loc) loc v"
    note rep = write_replace_correct [OF inv1 loc h'_def]
    show ?thesis using run Some rep cong by (simp add: h'_def)
  next
    case None
    have "\<not> (\<exists>v. has_entry (custom ?h) (entries ?h) s v)"
      by (rule absent_entry) (use r(2) None lookup_map_inv [OF coucal_inv_lookup [OF inv1]] in simp_all)
    moreover have "fits ?h s" using fits by (simp add: fits_def)
    ultimately show ?thesis
      using add_new_correct [OF inv1 nm1, of v, unfolded cong] run None by auto
  qed
qed

lemma expanded_correct:
  assumes inv: "coucal_inv h" and ex: "expanded h h'" and slots: "slots_inv h'"
    and live: "live h' = live h"
  shows "coucal_inv h'" and "entries h' = entries h" and "custom h' = custom h"
    and "calls h' = calls h" and "heap_refuses (heap h') = heap_refuses (heap h)"
    and "live_names h' = live_names h" and "pool h' = pool h"
proof -
  show "pool h' = pool h" using ex by (simp add: expanded_def)
  have same: "pool h' = pool h" "used h' = used h"
    and heap: "heap h' = (heap h)\<lparr>hp_next := Suc (hp_next (heap h))\<rparr>"
    using ex by (simp_all add: expanded_def)
  show custom: "custom h' = custom h" and "calls h' = calls h"
    using ex by (simp_all add: expanded_def)
  show E: "entries h' = entries h" by (simp add: entries_def live same)
  show names: "live_names h' = live_names h" by (simp add: live_names_def live)
  have "storage_inv h \<Longrightarrow> storage_inv h'"
    using pool_inv_later [of "pool h" "heap h" "live_names h" "heap h'"]
    by (simp add: storage_inv_def custom names same heap)
  then show "coucal_inv h'" using inv slots by (simp add: coucal_inv_def custom E same)
  show "heap_refuses (heap h') = heap_refuses (heap h)" by (simp add: heap_refuses_def heap)
qed

lemma used_bound:
  assumes "coucal_inv h"
  shows "used h \<le> 2 ^ lg_size h + 16"
proof -
  have slots: "slots_inv h" and used: "used h = size (entries h)"
    using assms by (simp_all add: coucal_inv_def)
  have "used h = size (live_of (items h)) + size (live_of (stash_items (stash h)))"
    by (simp add: used entries_def live_def)
  also have "size (live_of (items h)) \<le> length (items h)" by (rule size_live_of_le)
  also have "size (live_of (stash_items (stash h))) \<le> 16"
    using size_live_of_le [of "stash_items (stash h)"] slots
    by (auto simp: slots_inv_def dest: stash_invD(1))
  finally show ?thesis using slots by (simp add: slots_inv_def table_invD(3))
qed

text \<open>The doubling after an addition, where the load or the stash asks for one.\<close>

definition needs_room :: "struct_coucal \<Rightarrow> bool" where
  "needs_room h \<longleftrightarrow> 2 ^ (lg_size h - 1) \<le> used h \<or> STASH_SIZE div 2 \<le> stash_size (stash h)"

lemma write_value_eq:
  assumes inv: "coucal_inv h" and run: "coucal_write_value_i h nm v = Inr (h1, 1)"
    and same: "used h1 = used h" "lg_size h1 = lg_size h"
  defines "h2 \<equiv> h1\<lparr>used := Suc (used h)\<rparr>"
  shows "coucal_write_value h nm v =
      (if needs_room h2 then bind_res (expand_table h2 (2 ^ (lg_size h2 - 1))) (\<lambda>h. Inr (h, 1))
       else Inr (h2, 1))"
proof -
  have "slots_inv h" using inv by (simp add: coucal_inv_def)
  then have lg: "lg_size h \<le> 32" "4 \<le> lg_size h" by (simp_all add: slots_inv_def table_invD)
  have "(2::nat) ^ lg_size h \<le> 2 ^ 32" using lg(1) by (rule power_increasing) simp
  then have used: "size_add (used h1) (Suc 0) = Suc (used h)" using used_bound [OF inv] same(1) by simp
  have half: "POW2 (size_sub (lg_size h1) (Suc 0)) = 2 ^ (lg_size h2 - 1)"
    using lg same(2) by (simp add: h2_def)
  show ?thesis
    using run half used by (simp add: coucal_write_value_def Let_def h2_def needs_room_def)
qed

lemma expand_after_add:
  assumes inv: "coucal_inv h2" and added: "added h s v h2" "custom h2 = custom h" "lg_size h2 = lg_size h"
    "heap_refuses (heap h2) = heap_refuses (heap h)"
    "pool_size (pool h2) \<le> pool_size (pool h) + Suc (length s)"
  shows "(\<exists>a. expand_table h2 (2 ^ (lg_size h2 - 1)) = Inl (AssertFailed a) \<and> write_failure h a)
    \<or> (\<exists>h'. expand_table h2 (2 ^ (lg_size h2 - 1)) = Inr h' \<and> write_ok h s v h' 1)"
proof -
  have slots: "slots_inv h2" using inv by (simp add: coucal_inv_def)
  consider (pow2) "expand_table h2 (2 ^ (lg_size h2 - 1)) = Inl (AssertFailed A_acceptable_pow2)"
      "lg_size h2 = 32"
    | (alloc) "expand_table h2 (2 ^ (lg_size h2 - 1)) = Inl (AssertFailed A_hashtable_allocation_error)"
      "heap_refuses (heap h2)"
    | (ok) h3 where "expand_table h2 (2 ^ (lg_size h2 - 1)) = Inr h3" "expanded h2 h3"
      "slots_inv h3" "live h3 = live h2"
    using expand_table_correct [OF slots] by blast
  then show ?thesis
  proof cases
    case ok
    note ex = expanded_correct [OF inv ok(2-4)]
    have "added h s v h3" using added(1) ex(2,4,6) by (simp add: added_def)
    then show ?thesis using ok(1) ex added by (simp add: write_ok_def)
  qed (use added in \<open>simp_all add: write_failure_def\<close>)
qed

lemma write_value_correct:
  assumes inv: "coucal_inv h" and nm: "deref (pool h) nm = Some s" and fits: "fits h s"
  shows "(\<exists>a. coucal_write_value h nm v = Inl (AssertFailed a) \<and> write_failure h a)
    \<or> (\<exists>h' ret. coucal_write_value h nm v = Inr (h', ret) \<and> write_ok h s v h' ret)"
proof -
  consider (bad) a where "coucal_write_value_i h nm v = Inl (AssertFailed a)" "write_failure h a"
    | (old) h' where "coucal_write_value_i h nm v = Inr (h', 0)" "coucal_inv h'" "replaced h s v h'"
      "custom h' = custom h" "lg_size h' = lg_size h" "heap_refuses (heap h') = heap_refuses (heap h)"
    | (new) h1 where "coucal_write_value_i h nm v = Inr (h1, 1)" "added h s v h1"
      "coucal_inv (h1\<lparr>used := Suc (used h)\<rparr>)" "used h1 = used h" "custom h1 = custom h"
      "pool_size (pool h1) \<le> pool_size (pool h) + Suc (length s)"
      "lg_size h1 = lg_size h" "heap_refuses (heap h1) = heap_refuses (heap h)"
    using write_value_i_correct [OF inv nm fits, of v] by blast
  then show ?thesis
  proof cases
    case bad
    then show ?thesis by (simp add: coucal_write_value_def)
  next
    case old
    then have "pool h' = pool h" by (auto simp: replaced_def)
    then show ?thesis using old by (simp add: coucal_write_value_def write_ok_def)
  next
    case new
    define h2 where "h2 = h1\<lparr>used := Suc (used h)\<rparr>"
    note run = write_value_eq [OF inv new(1,4,7), folded h2_def]
    have inv2: "coucal_inv h2" using new(3) by (simp add: h2_def)
    have added2: "added h s v h2" "custom h2 = custom h" "lg_size h2 = lg_size h"
        "heap_refuses (heap h2) = heap_refuses (heap h)"
        "pool_size (pool h2) \<le> pool_size (pool h) + Suc (length s)"
      using new(2,5-8) by (simp_all add: added_def h2_def entries_def live_def live_names_eq)
    show ?thesis
    proof (cases "needs_room h2")
      case False
      then show ?thesis using run inv2 added2 by (simp add: write_ok_def)
    next
      case True
      then show ?thesis using run expand_after_add [OF inv2 added2] by auto
    qed
  qed
qed

end
