(* ===== verification/Remove.thy ===== *)
theory Remove
  imports WriteCorrect
begin

text \<open>
  Removing an entry: \<open>coucal_remove()\<close>. The item is detached before its key is released, since
  releasing a pooled key may compact the pool; an entry of the stash leaves a hole, and only
  the end of the stash is trimmed. The lemmas show that a removal takes exactly the key's entry
  out of the map, releases its value and key once, and keeps the invariant.
\<close>

section \<open>The operations\<close>

definition trim_stash :: "struct_coucal \<Rightarrow> struct_coucal" where
  "trim_stash h =
     (let h = set_stash_size h (size_sub (stash_size (stash h)) 1)
      in set_extent h (trim_extent (stash_items (stash h)) (extent (stash h))))"

definition coucal_remove_i ::
  "struct_coucal \<Rightarrow> coucal_key \<Rightarrow> coucal_hashkeys \<Rightarrow> (struct_coucal \<times> int) res" where
  "coucal_remove_i h nm hk =
     (let pos = coucal_hash_to_pos h (hash1 hk) in
      bind_res (coucal_matches h pos nm hk) (\<lambda>m.
      if m then bind_res (coucal_del_item h (InTable pos)) (\<lambda>h. Inr (h, 1))
      else
        let pos = coucal_hash_to_pos h (hash2 hk) in
        bind_res (coucal_matches h pos nm hk) (\<lambda>m.
        if m then bind_res (coucal_del_item h (InTable pos)) (\<lambda>h. Inr (h, 1))
        else
          bind_res (if stash_size (stash h) \<noteq> 0 then stash_search h nm hk 0 (extent (stash h))
                    else Inr None) (\<lambda>r.
          case r of
            Some i \<Rightarrow> bind_res (coucal_del_item h (InStash i)) (\<lambda>h. Inr (trim_stash h, 1))
          | None \<Rightarrow> Inr (h, 0)))))"

definition coucal_remove :: "struct_coucal \<Rightarrow> coucal_key \<Rightarrow> (struct_coucal \<times> int) res" where
  "coucal_remove h nm =
     bind_res (coucal_calc_hashes h nm) (\<lambda>hk.
     bind_res (coucal_remove_i h nm hk) (\<lambda>(h, ret).
       if ret \<noteq> 0 then
         bind_res (assert_res (used h \<noteq> 0) (AssertFailed A_used_nonzero)) (\<lambda>_.
           Inr (h\<lparr>used := size_sub (used h) 1\<rparr>, ret))
       else Inr (h, ret)))"

section \<open>The removal in terms of the search\<close>

lemma remove_i_fetch:
  "coucal_remove_i h nm hk =
     bind_res (coucal_fetch_value_hashes h nm hk) (\<lambda>r.
       case r of
         None \<Rightarrow> Inr (h, 0)
       | Some (InTable i) \<Rightarrow> bind_res (coucal_del_item h (InTable i)) (\<lambda>h. Inr (h, 1))
       | Some (InStash i) \<Rightarrow> bind_res (coucal_del_item h (InStash i)) (\<lambda>h. Inr (trim_stash h, 1)))"
proof -
  let ?m1 = "coucal_matches h (coucal_hash_to_pos h (hash1 hk)) nm hk"
  let ?m2 = "coucal_matches h (coucal_hash_to_pos h (hash2 hk)) nm hk"
  let ?s = "stash_search h nm hk 0 (extent (stash h))"
  show ?thesis
    by (cases ?m1; cases ?m2; cases ?s)
      (auto simp: coucal_remove_i_def coucal_fetch_value_hashes_def Let_def split: option.split)
qed

definition detached :: "struct_coucal \<Rightarrow> location \<Rightarrow> struct_coucal" where
  "detached h loc =
     set_at (h\<lparr>calls := calls h @ freed (custom h) (value (item_at h loc))\<rparr>) loc null_item"

lemma del_item_eq:
  assumes "slots_inv h" and "valid_loc h loc"
  shows "coucal_del_item h loc = coucal_free_key (detached h loc) (name (item_at h loc))"
proof (cases "value (item_at h loc) = 0")
  case True
  then have null: "(item_at h loc)\<lparr>name := KNull, hashes := null_hashkeys\<rparr> = null_item"
    by (cases "item_at h loc") (simp add: null_item_def)
  show ?thesis using True
    by (simp add: null coucal_del_item_def coucal_del_name_def del_value_eq detached_def freed_def Let_def)
next
  case False
  have at: "item_at (set_at (h\<lparr>calls := cs\<rparr>) loc it) loc = it" for cs it
    using item_at_set_at [of "h\<lparr>calls := cs\<rparr>"] assms by simp
  have null: "(item_at h loc)\<lparr>value := 0, name := KNull, hashes := null_hashkeys\<rparr> = null_item"
    by (cases "item_at h loc") (simp add: null_item_def)
  show ?thesis using False
    by (simp add: null coucal_del_item_def coucal_del_name_def del_value_eq detached_def Let_def at)
qed

section \<open>The slots after the item is detached\<close>

lemma live_set_at_free:
  assumes "slots_inv h" and "valid_loc h loc" and "name (item_at h loc) \<noteq> KNull"
  shows "live h = add_mset (item_at h loc) (live (set_at h loc null_item))"
proof -
  have sinv: "stash_inv (stash h)" using assms(1) by (simp add: slots_inv_def)
  note stD = stash_invD(1,2) [OF sinv]
  show ?thesis
  proof (cases loc)
    case (InTable i)
    then have "live_of (items h) = add_mset (items h ! i) (live_of ((items h)[i := null_item]))"
      using assms(2,3) by (intro live_of_set_free) (simp_all add: valid_loc_def item_at_def)
    then show ?thesis using InTable by (simp add: live_def set_at_def set_item_def item_at_def)
  next
    case (InStash i)
    then have "live_of (stash_items (stash h)) =
        add_mset (stash_items (stash h) ! i) (live_of ((stash_items (stash h))[i := null_item]))"
      using assms(2,3) stD by (intro live_of_set_free) (simp_all add: valid_loc_def item_at_def)
    then show ?thesis using InStash
      by (simp add: live_def set_at_def set_stash_item_def item_at_def)
  qed
qed

text \<open>A table slot: the invariant holds at once. A stash slot: it holds with the size adjusted.\<close>

lemma slots_inv_free_table:
  assumes "slots_inv h"
  shows "slots_inv (set_at h (InTable i) null_item)"
  using assms table_inv_set_item [of h null_item i]
  by (simp add: slots_inv_def set_at_def) (simp add: set_item_def)

lemma stash_core_free_stash:
  assumes "slots_inv h" and "valid_loc h (InStash i)" and "name (item_at h (InStash i)) \<noteq> KNull"
  defines "h' \<equiv> set_at h (InStash i) null_item"
  shows "stash_core ((stash h')\<lparr>stash_size := size_sub (stash_size (stash h')) 1\<rparr>)"
    and "table_inv h'" and "slots_shape h'"
proof -
  have tinv: "table_inv h" and sinv: "stash_inv (stash h)"
    using assms(1) by (simp_all add: slots_inv_def)
  have core: "stash_core (stash h)" using sinv by (simp add: stash_inv_def)
  have "stash_core ((stash h)\<lparr>stash_items := (stash_items (stash h))[i := null_item],
           stash_size := size_sub (stash_size (stash h)) 1\<rparr>)"
    by (rule stash_core_free_slot(1) [OF core]) (use assms(2,3) in \<open>simp_all add: valid_loc_def item_at_def\<close>)
  then show c: "stash_core ((stash h')\<lparr>stash_size := size_sub (stash_size (stash h')) 1\<rparr>)"
    by (simp add: h'_def set_at_def set_stash_item_def)
  show t: "table_inv h'" using tinv by (simp add: h'_def set_at_def set_stash_item_def table_inv_def)
  show "slots_shape h'" using c t by (simp add: slots_shape_def stash_shape_def stash_core_def)
qed

lemma pool_frame_stash_core:
  assumes "pool_frame h h'" and "stash_core ((stash h)\<lparr>stash_size := n\<rparr>)"
  shows "stash_core ((stash h')\<lparr>stash_size := n\<rparr>)"
proof -
  have r: "list_all2 (renamed (pool h) (pool h')) (stash_items (stash h)) (stash_items (stash h'))"
    and "extent (stash h') = extent (stash h)"
    using assms(1) by (simp_all add: pool_frame_def renamed_slots_def)
  then show ?thesis
    using assms(2) renamed_size_live [OF r] list_all2_lengthD [OF r] renamed_nth_free [OF r]
    by (auto simp: stash_core_def STASH_SIZE_def)
qed

lemma pool_frame_table_inv: "table_inv h \<Longrightarrow> pool_frame h h' \<Longrightarrow> table_inv h'"
  using renamed_placed list_all2_lengthD
  by (fastforce simp: table_inv_def pool_frame_def renamed_slots_def)

lemma trim_stash_correct:
  assumes "table_inv h" and "stash_core ((stash h)\<lparr>stash_size := size_sub (stash_size (stash h)) 1\<rparr>)"
  shows "slots_inv (trim_stash h)" and "slots_frame h (trim_stash h)" and "live (trim_stash h) = live h"
  using assms(1) stash_inv_trim [OF assms(2)]
  by (simp_all add: trim_stash_def Let_def set_stash_size_def set_extent_def slots_inv_def
      table_inv_def slots_frame_def live_def)

section \<open>Releasing the key\<close>

definition key_free_calls :: "coucal_custom \<Rightarrow> coucal_key \<Rightarrow> handler_call list" where
  "key_free_calls c k =
     (case key_free c of None \<Rightarrow> [] | Some f \<Rightarrow> [CallKeyFree f (key_arg c) k])"

lemma key_free_calls_simps [simp]:
  "dup_keys (key_free_calls c k) = {#}"
  "key_free c \<noteq> None \<Longrightarrow> freed_keys (key_free_calls c k) = {#k#}"
  by (auto simp: key_free_calls_def split: option.split)

lemma free_key_correct:
  assumes shape: "slots_shape h" and dup: "dup_ok (custom h)"
    and stored: "key_dup (custom h) = None \<longrightarrow> pool_inv (pool h) (heap h) (add_mset k (live_names h))"
  shows "(coucal_free_key h k = Inl (AssertFailed A_pool_compaction_error) \<and> heap_refuses (heap h))
    \<or> (\<exists>h'. coucal_free_key h k = Inr h' \<and>
         pool_frame (h\<lparr>calls := calls h @ key_free_calls (custom h) k\<rparr>) h' \<and>
         (if key_dup (custom h) = None then pool_inv (pool h') (heap h') (live_names h')
          else live_names h' = live_names h) \<and>
         pool_size (pool h') \<le> pool_size (pool h))"
proof (cases "key_dup (custom h)")
  case None
  then have "key_free (custom h) = None" using dup by (simp add: dup_ok_def)
  then show ?thesis using free_key_internal_correct [OF shape None] stored None
    by (simp add: coucal_free_key_def key_free_calls_def)
next
  case (Some d)
  then obtain f where f: "key_free (custom h) = Some f" using dup by (auto simp: dup_ok_def)
  let ?h = "h\<lparr>calls := calls h @ key_free_calls (custom h) k\<rparr>"
  have "pool_frame ?h ?h" by (simp add: pool_frame_def renamed_slots_refl)
  moreover have "coucal_free_key h k = Inr ?h"
    using f by (simp add: coucal_free_key_def key_free_calls_def)
  ultimately show ?thesis using Some by simp
qed

section \<open>The removal\<close>

lemma pool_frame_slots:
  "pool_frame h h' \<Longrightarrow> list_all2 (renamed (pool h) (pool h')) (slots h) (slots h')"
  by (simp add: slots_def pool_frame_def renamed_slots_def list_all2_appendI)

text \<open>
  What a removal of the key \<open>s\<close> does to the entries, which handlers it calls, and that every
  other item stays in its slot.
\<close>

definition removed :: "struct_coucal \<Rightarrow> byte list \<Rightarrow> struct_coucal \<Rightarrow> bool" where
  "removed h s h' \<longleftrightarrow>
     (\<exists>k t v. equals_of (custom h) t s \<and>
        entries h = add_mset (Some t, v, hash_of (custom h) s) (entries h') \<and>
        calls h' = calls h @ freed (custom h) v @ key_free_calls (custom h) k \<and>
        (key_dup (custom h) \<noteq> None \<longrightarrow> live_names h = add_mset k (live_names h'))) \<and>
     (\<exists>i < length (slots h). item_is h s (slots h ! i) \<and>
        list_all2 (renamed (pool h) (pool h')) ((slots h)[i := null_item]) (slots h'))"

definition remove_ok :: "struct_coucal \<Rightarrow> byte list \<Rightarrow> struct_coucal \<Rightarrow> int \<Rightarrow> bool" where
  "remove_ok h s h' ret \<longleftrightarrow>
     coucal_inv h' \<and> custom h' = custom h \<and> lg_size h' = lg_size h \<and>
     (heap_refuses (heap h') \<longleftrightarrow> heap_refuses (heap h)) \<and>
     pool_size (pool h') \<le> pool_size (pool h) \<and>
     (if ret = 0 then h' = h \<and> table_map h s = None else ret = 1 \<and> removed h s h')"

text \<open>The table between the detachment of the item and the release of its key.\<close>

lemma detached_simps [simp]:
  "pool (detached h loc) = pool h" "heap (detached h loc) = heap h" "custom (detached h loc) = custom h"
  "used (detached h loc) = used h" "lg_size (detached h loc) = lg_size h"
  "calls (detached h loc) = calls h @ freed (custom h) (value (item_at h loc))"
  by (simp_all add: detached_def)

lemma detached_live:
  assumes "slots_inv h" and "valid_loc h loc" and "name (item_at h loc) \<noteq> KNull"
  shows "live h = add_mset (item_at h loc) (live (detached h loc))"
    and "live_names h = add_mset (name (item_at h loc)) (live_names (detached h loc))"
    and "slots_shape (detached h loc)"
    and "slots (detached h loc) = (slots h)[slot_index h loc := null_item]"
proof -
  let ?h0 = "h\<lparr>calls := calls h @ freed (custom h) (value (item_at h loc))\<rparr>"
  have at0: "slots_inv ?h0" "valid_loc ?h0 loc" "name (item_at ?h0 loc) \<noteq> KNull" "live ?h0 = live h"
    using assms by simp_all
  show "live h = add_mset (item_at h loc) (live (detached h loc))"
    using live_set_at_free [OF at0(1-3)] at0(4) by (simp add: detached_def)
  then show "live_names h = add_mset (name (item_at h loc)) (live_names (detached h loc))"
    by (simp add: live_names_def)
  show "slots_shape (detached h loc)"
  proof (cases loc)
    case (InTable i)
    then show ?thesis using slots_inv_free_table [OF at0(1), of i] slots_inv_shape
      by (simp add: detached_def)
  next
    case (InStash i)
    then show ?thesis using stash_core_free_stash(3) [of ?h0 i] at0 by (simp add: detached_def)
  qed
  show "slots (detached h loc) = (slots h)[slot_index h loc := null_item]"
    using slots_set_at [OF at0(2), of null_item] by (simp add: detached_def)
qed

lemma detached_entry:
  assumes inv: "coucal_inv h" and loc: "valid_loc h loc" and is_s: "item_is h s (item_at h loc)"
  obtains t where "equals_of (custom h) t s"
    and "entries h = add_mset (Some t, value (item_at h loc), hash_of (custom h) s) (entries (detached h loc))"
proof -
  have parts: "slots_inv h" "keys_ok (custom h)" "content_ok (custom h) (entries h)"
    using inv by (simp_all add: coucal_inv_def)
  have nn: "name (item_at h loc) \<noteq> KNull" using is_s by (simp add: item_is_def)
  note live = detached_live(1) [OF parts(1) loc nn]
  then have "item_at h loc \<in># live h" by simp
  then obtain t where t: "deref (pool h) (name (item_at h loc)) = Some t"
      "hashes (item_at h loc) = hash_of (custom h) t"
    using live_entry [OF parts(3)] by blast
  have eq: "equals_of (custom h) t s" using is_s t(1) by (simp add: item_is_def)
  then have "hash_of (custom h) t = hash_of (custom h) s" by (rule keys_okD(4) [OF parts(2)])
  then show ?thesis using t by (intro that [OF eq]) (simp add: entries_def live entry_def)
qed

lemma removed_detached:
  assumes inv: "coucal_inv h" and loc: "valid_loc h loc" and is_s: "item_is h s (item_at h loc)"
    and frame: "pool_frame (detached h loc) (h'\<lparr>calls := calls (detached h loc)\<rparr>)"
    and calls: "calls h' = calls (detached h loc) @ key_free_calls (custom h) (name (item_at h loc))"
    and names: "key_dup (custom h) \<noteq> None \<longrightarrow> live_names h' = live_names (detached h loc)"
  shows "removed h s h'"
proof -
  have slots: "slots_inv h" using inv by (simp add: coucal_inv_def)
  have nn: "name (item_at h loc) \<noteq> KNull" using is_s by (simp add: item_is_def)
  note D = detached_live [OF slots loc nn] and at = slots_nth [OF slots loc]
  have "list_all2 (renamed (pool h) (pool h')) ((slots h)[slot_index h loc := null_item]) (slots h')"
    using pool_frame_slots [OF frame] by (simp add: D(4))
  moreover obtain t where "equals_of (custom h) t s"
      "entries h = add_mset (Some t, value (item_at h loc), hash_of (custom h) s) (entries (detached h loc))"
    using detached_entry [OF inv loc is_s] .
  moreover have "entries h' = entries (detached h loc)" using pool_frame_entries [OF frame] by simp
  ultimately show ?thesis
    using is_s at calls names D(2) unfolding removed_def by (metis append_assoc detached_simps(6))
qed

lemma del_item_correct:
  assumes inv: "coucal_inv h" and loc: "valid_loc h loc" and is_s: "item_is h s (item_at h loc)"
  shows "(coucal_del_item h loc = Inl (AssertFailed A_pool_compaction_error) \<and> heap_refuses (heap h))
    \<or> (\<exists>h'. coucal_del_item h loc = Inr h' \<and> pool_frame (detached h loc) (h'\<lparr>calls := calls (detached h loc)\<rparr>) \<and>
         removed h s h' \<and> storage_inv h' \<and>
         content_ok (custom h') (entries h') \<and> custom h' = custom h \<and> lg_size h' = lg_size h \<and>
         used h' = used h \<and> (heap_refuses (heap h') \<longleftrightarrow> heap_refuses (heap h)) \<and>
         pool_size (pool h') \<le> pool_size (pool h))"
proof -
  let ?it = "item_at h loc" and ?h1 = "detached h loc"
  have parts: "slots_inv h" "keys_ok (custom h)" "dup_ok (custom h)" "storage_inv h"
      "content_ok (custom h) (entries h)"
    using inv by (simp_all add: coucal_inv_def)
  have nn: "name ?it \<noteq> KNull" using is_s by (simp add: item_is_def)
  note D = detached_live [OF parts(1) loc nn]
  note run = del_item_eq [OF parts(1) loc]
  have "key_dup (custom ?h1) = None \<longrightarrow> pool_inv (pool ?h1) (heap ?h1) (add_mset (name ?it) (live_names ?h1))"
    using parts(4) D(2) by (auto simp: storage_inv_def split: if_splits)
  then consider (bad) "coucal_free_key ?h1 (name ?it) = Inl (AssertFailed A_pool_compaction_error)"
      "heap_refuses (heap h)"
    | (good) h2 where "coucal_free_key ?h1 (name ?it) = Inr h2"
      "pool_frame (?h1\<lparr>calls := calls ?h1 @ key_free_calls (custom h) (name ?it)\<rparr>) h2"
      "if key_dup (custom h) = None then pool_inv (pool h2) (heap h2) (live_names h2)
       else live_names h2 = live_names ?h1"
      "pool_size (pool h2) \<le> pool_size (pool h)"
    using free_key_correct [OF D(3), of "name ?it"] parts(3) by auto
  then show ?thesis
  proof cases
    case bad
    then show ?thesis using run by simp
  next
    case good
    have frame: "pool_frame ?h1 (h2\<lparr>calls := calls ?h1\<rparr>)" and same: "custom h2 = custom h"
        "lg_size h2 = lg_size h" "used h2 = used h" "heap_refuses (heap h2) = heap_refuses (heap h)"
        "calls h2 = calls ?h1 @ key_free_calls (custom h) (name ?it)"
      using good(2) by (simp_all add: pool_frame_def renamed_slots_def heap_refuses_def)
    have "removed h s h2"
      by (rule removed_detached [OF inv loc is_s frame same(5)]) (use good(3) in auto)
    moreover from this have "content_ok (custom h2) (entries h2)"
      using parts(5) by (auto simp: removed_def content_ok_insert [OF parts(2)] same(1))
    moreover have "storage_inv h2" using good(3) parts(4) D(2)
      by (auto simp: storage_inv_def same(1) split: if_splits)
    ultimately show ?thesis using run good(1,4) frame same(1-4) by simp
  qed
qed

lemma coucal_inv_used_cong:
  "entries (h\<lparr>used := n\<rparr>) = entries h" "live_names (h\<lparr>used := n\<rparr>) = live_names h"
  by (simp_all add: entries_def live_def live_names_eq)

lemma removed_cong:
  assumes "removed h s h1" and "entries h' = entries h1" "calls h' = calls h1"
    and "live_names h' = live_names h1" and "pool h' = pool h1" and "slots h' = slots h1"
  shows "removed h s h'"
  using assms by (simp add: removed_def)

text \<open>After the removal the stash is trimmed, which restores the invariant of the slots.\<close>

definition trimmed :: "location \<Rightarrow> struct_coucal \<Rightarrow> struct_coucal" where
  "trimmed loc h = (case loc of InTable i \<Rightarrow> h | InStash i \<Rightarrow> trim_stash h)"

lemma slots_trimmed [simp]: "slots (trimmed loc h) = slots h"
  by (simp add: trimmed_def slots_def trim_stash_def Let_def set_stash_size_def set_extent_def
      split: location.split)

lemma trimmed_correct:
  assumes inv: "slots_inv h" and loc: "valid_loc h loc" and nn: "name (item_at h loc) \<noteq> KNull"
    and frame: "pool_frame (detached h loc) (h'\<lparr>calls := calls (detached h loc)\<rparr>)"
  shows "slots_inv (trimmed loc h')" and "slots_frame h' (trimmed loc h')"
    and "live (trimmed loc h') = live h'"
proof -
  let ?h0 = "h\<lparr>calls := calls h @ freed (custom h) (value (item_at h loc))\<rparr>"
  let ?d = "detached h loc" and ?c = "h'\<lparr>calls := calls (detached h loc)\<rparr>"
  have at0: "slots_inv ?h0" "valid_loc ?h0 loc" "name (item_at ?h0 loc) \<noteq> KNull"
    using inv loc nn by simp_all
  have "slots_inv (trimmed loc h') \<and> slots_frame h' (trimmed loc h') \<and> live (trimmed loc h') = live h'"
  proof (cases loc)
    case (InTable i)
    then have "slots_inv ?d" using slots_inv_free_table [OF at0(1)] by (simp add: detached_def)
    then have "slots_inv ?c" by (rule pool_frame_slots_inv [OF _ frame])
    then show ?thesis using InTable by (simp add: trimmed_def)
  next
    case (InStash i)
    note core = stash_core_free_stash [OF at0(1), of i]
    have d: "stash_core ((stash ?d)\<lparr>stash_size := size_sub (stash_size (stash ?d)) 1\<rparr>)" "table_inv ?d"
      using core(1,2) at0(2,3) InStash by (simp_all add: detached_def)
    have "stash_size (stash ?c) = stash_size (stash ?d)"
      using frame by (simp add: pool_frame_def renamed_slots_def)
    then have "stash_core ((stash ?c)\<lparr>stash_size := size_sub (stash_size (stash ?c)) 1\<rparr>)"
      using pool_frame_stash_core [OF frame d(1)] by simp
    moreover have "table_inv ?c" by (rule pool_frame_table_inv [OF d(2) frame])
    ultimately have "table_inv h'"
        "stash_core ((stash h')\<lparr>stash_size := size_sub (stash_size (stash h')) 1\<rparr>)"
      by (simp_all add: table_inv_def)
    from trim_stash_correct [OF this] show ?thesis using InStash by (simp add: trimmed_def)
  qed
  then show "slots_inv (trimmed loc h')" "slots_frame h' (trimmed loc h')"
    "live (trimmed loc h') = live h'" by simp_all
qed

lemma remove_at_correct:
  assumes inv: "coucal_inv h" and loc: "valid_loc h loc" and is_s: "item_is h s (item_at h loc)"
  defines "r \<equiv> bind_res (coucal_del_item h loc) (\<lambda>h. Inr (trimmed loc h))"
  shows "(r = Inl (AssertFailed A_pool_compaction_error) \<and> heap_refuses (heap h))
    \<or> (\<exists>h'. r = Inr h' \<and> coucal_inv (h'\<lparr>used := used h - 1\<rparr>) \<and> removed h s h' \<and>
         used h' = used h \<and> used h \<noteq> 0 \<and> custom h' = custom h \<and> lg_size h' = lg_size h \<and>
         (heap_refuses (heap h') \<longleftrightarrow> heap_refuses (heap h)) \<and>
         pool_size (pool h') \<le> pool_size (pool h))"
proof -
  have parts: "slots_inv h" "keys_ok (custom h)" "dup_ok (custom h)" "used h = size (entries h)"
    using inv by (simp_all add: coucal_inv_def)
  consider (bad) "coucal_del_item h loc = Inl (AssertFailed A_pool_compaction_error)"
      "heap_refuses (heap h)"
    | (good) h1 where "coucal_del_item h loc = Inr h1"
      "pool_frame (detached h loc) (h1\<lparr>calls := calls (detached h loc)\<rparr>)" "removed h s h1"
      "storage_inv h1" "content_ok (custom h1) (entries h1)" "custom h1 = custom h"
      "lg_size h1 = lg_size h" "used h1 = used h" "heap_refuses (heap h1) = heap_refuses (heap h)"
      "pool_size (pool h1) \<le> pool_size (pool h)"
    using del_item_correct [OF inv loc is_s] by blast
  then show ?thesis
  proof cases
    case bad
    then show ?thesis by (simp add: r_def)
  next
    case good
    let ?h2 = "trimmed loc h1"
    have nn: "name (item_at h loc) \<noteq> KNull" using is_s by (simp add: item_is_def)
    note trim = trimmed_correct [OF parts(1) loc nn good(2)]
    note same = slots_frameD [OF trim(2)]
    have E: "entries ?h2 = entries h1" by (simp add: entries_def trim(3) same)
    have names: "live_names ?h2 = live_names h1" by (simp add: live_names_def trim(3))
    have rem: "removed h s ?h2"
      by (rule removed_cong [OF good(3) E same(6) names same(3) slots_trimmed])
    then have size: "size (entries h) = Suc (size (entries ?h2))" by (auto simp: removed_def)
    have "storage_inv ?h2" using good(4) by (simp add: storage_inv_def same names)
    then have "coucal_inv (?h2\<lparr>used := used h - 1\<rparr>)"
      unfolding coucal_inv_used using trim(1) parts good(5,6) size by (simp add: E same)
    then show ?thesis using good(1,6-10) rem size parts(4) same by (simp add: r_def)
  qed
qed

lemma remove_correct:
  assumes inv: "coucal_inv h" and nm: "deref (pool h) nm = Some s"
  shows "(coucal_remove h nm = Inl (AssertFailed A_pool_compaction_error) \<and> heap_refuses (heap h))
    \<or> (\<exists>h' ret. coucal_remove h nm = Inr (h', ret) \<and> remove_ok h s h' ret)"
proof -
  obtain r where r: "coucal_fetch_value_hashes h nm (hash_of (custom h) s) = Inr r"
      "table_map h s = map_option (\<lambda>loc. value (item_at h loc)) r"
      "\<forall>loc. r = Some loc \<longrightarrow> valid_loc h loc \<and> item_is h s (item_at h loc)"
    using fetch_value_map [OF coucal_inv_lookup [OF inv] nm] by blast
  have hk: "coucal_calc_hashes h nm = Inr (hash_of (custom h) s)"
    using nm by (simp add: coucal_calc_hashes_def read_key_def)
  show ?thesis
  proof (cases r)
    case None
    then have "coucal_remove h nm = Inr (h, 0)"
      using hk r(1) by (simp add: coucal_remove_def remove_i_fetch)
    then show ?thesis using inv r(2) None by (simp add: remove_ok_def)
  next
    case (Some loc)
    let ?r = "bind_res (coucal_del_item h loc) (\<lambda>h. Inr (trimmed loc h))"
    have "coucal_remove_i h nm (hash_of (custom h) s) = bind_res ?r (\<lambda>h. Inr (h, 1))"
      using r(1) Some by (cases loc; cases "coucal_del_item h loc") (simp_all add: remove_i_fetch trimmed_def)
    then have run: "coucal_remove h nm = bind_res ?r (\<lambda>h.
        bind_res (assert_res (used h \<noteq> 0) (AssertFailed A_used_nonzero)) (\<lambda>_.
           Inr (h\<lparr>used := size_sub (used h) 1\<rparr>, 1)))"
      using hk by (cases ?r) (simp_all add: coucal_remove_def)
    have loc: "valid_loc h loc" "item_is h s (item_at h loc)" using r(3) Some by simp_all
    consider (bad) "?r = Inl (AssertFailed A_pool_compaction_error)" "heap_refuses (heap h)"
      | (good) h' where "?r = Inr h'" "coucal_inv (h'\<lparr>used := used h - 1\<rparr>)" "removed h s h'"
        "used h' = used h" "used h \<noteq> 0" "custom h' = custom h" "lg_size h' = lg_size h"
        "heap_refuses (heap h') = heap_refuses (heap h)" "pool_size (pool h') \<le> pool_size (pool h)"
      using remove_at_correct [OF inv loc] by blast
    then show ?thesis
    proof cases
      case bad
      then show ?thesis using run by simp
    next
      case good
      have "lg_size h \<le> 32" using inv by (simp add: coucal_inv_def slots_inv_def table_invD(1))
      then have "(2::nat) ^ lg_size h \<le> 2 ^ 32" by (rule power_increasing) simp
      then have "size_sub (used h) (Suc 0) = used h - 1" using used_bound [OF inv] good(5) by simp
      then have "coucal_remove h nm = Inr (h'\<lparr>used := used h - 1\<rparr>, 1)"
        using run good(1,4,5) by simp
      moreover have "removed h s (h'\<lparr>used := used h - 1\<rparr>)"
        by (rule removed_cong [OF good(3)]) (simp_all add: coucal_inv_used_cong slots_def)
      ultimately show ?thesis using good by (simp add: remove_ok_def)
    qed
  qed
qed

end
