(* ===== verification/Enumerate.thy ===== *)
theory Enumerate
  imports Remove
begin

text \<open>
  The enumerator: a cursor over the table's slots and then the stash's. The lemmas describe it by
  the entries it has still to visit, in order: a step takes the first of them, a removal drops
  the removed entry and no other, and replacing a value changes that value only. So a client may
  remove and replace entries while it enumerates, and sees each remaining entry once.
\<close>

section \<open>The cursor\<close>

text \<open>\<open>struct_coucal_enum\<close>; its \<open>table\<close> field is the hashtable the functions take beside it.\<close>

record struct_coucal_enum =
  index :: nat

definition coucal_enum_new :: "struct_coucal \<Rightarrow> struct_coucal_enum" where
  "coucal_enum_new h = \<lparr>index = 0\<rparr>"

text \<open>\<open>for( ; index < end && name is NULL ; index++)\<close>, by the slots left.\<close>

fun skip_free :: "coucal_item list \<Rightarrow> nat \<Rightarrow> nat \<Rightarrow> nat" where
  "skip_free xs i 0 = i"
| "skip_free xs i (Suc n) = (if name (xs ! i) = KNull then skip_free xs (Suc i) n else i)"

definition coucal_enum_next ::
  "struct_coucal \<Rightarrow> struct_coucal_enum \<Rightarrow> location option \<times> struct_coucal_enum" where
  "coucal_enum_next h e =
     (let hash_size = POW2 (lg_size h);
          i = skip_free (items h) (index e) (hash_size - index e)
      in if i < hash_size then (Some (InTable i), e\<lparr>index := size_add i 1\<rparr>)
         else
           let limit = size_add hash_size (extent (stash h));
               j = skip_free (stash_items (stash h)) (i - hash_size) (limit - i)
           in if hash_size + j < limit
              then (Some (InStash j), e\<lparr>index := size_add (hash_size + j) 1\<rparr>)
              else (None, e\<lparr>index := hash_size + j\<rparr>))"

text \<open>The loop of a client that enumerates a table it does not change, by the steps left.\<close>

fun enum_loop :: "struct_coucal \<Rightarrow> struct_coucal_enum \<Rightarrow> nat \<Rightarrow> location list" where
  "enum_loop h e 0 = []"
| "enum_loop h e (Suc n) =
     (case coucal_enum_next h e of
        (Some loc, e) \<Rightarrow> loc # enum_loop h e n
      | (None, e) \<Rightarrow> [])"

definition enum_all :: "struct_coucal \<Rightarrow> location list" where
  "enum_all h = enum_loop h (coucal_enum_new h) (used h + 1)"

section \<open>What is still to be visited\<close>

definition live_list :: "coucal_item list \<Rightarrow> coucal_item list" where
  "live_list xs = filter (\<lambda>it. name it \<noteq> KNull) xs"

definition pending :: "struct_coucal \<Rightarrow> struct_coucal_enum \<Rightarrow> table_entry list" where
  "pending h e = map (entry (pool h)) (live_list (drop (index e) (slots h)))"

lemma live_list_simps [simp]:
  "live_list [] = []"
  "live_list (x # xs) = (if name x = KNull then live_list xs else x # live_list xs)"
  "live_list (xs @ ys) = live_list xs @ live_list ys"
  by (simp_all add: live_list_def)

lemma mset_live_list: "mset (live_list xs) = live_of xs"
  by (simp add: live_list_def live_of_def)

lemma pending_new: "mset (pending h (coucal_enum_new h)) = entries h"
  by (simp add: pending_def coucal_enum_new_def slots_def mset_live_list entries_def live_def)

lemma in_live_listE:
  assumes "it \<in> set (live_list xs)"
  obtains j where "j < length xs" "xs ! j = it" "name it \<noteq> KNull"
proof -
  have "it \<in> set xs" "name it \<noteq> KNull" using assms by (simp_all add: live_list_def)
  then show ?thesis using that by (metis in_set_conv_nth)
qed

lemma skip_free_bounds: "i \<le> skip_free xs i n \<and> skip_free xs i n \<le> i + n"
  by (induction xs i n rule: skip_free.induct) auto

lemma skip_free_live: "skip_free xs i n < i + n \<Longrightarrow> name (xs ! skip_free xs i n) \<noteq> KNull"
  by (induction xs i n rule: skip_free.induct) auto

lemma skip_free_drop:
  "i + n \<le> length xs \<Longrightarrow> live_list (drop i xs) = live_list (drop (skip_free xs i n) xs)"
  by (induction xs i n rule: skip_free.induct) (auto simp: Cons_nth_drop_Suc [symmetric])

lemma live_list_drop:
  "i < length xs \<Longrightarrow> name (xs ! i) \<noteq> KNull \<Longrightarrow> live_list (drop i xs) = xs ! i # live_list (drop (Suc i) xs)"
  by (simp add: Cons_nth_drop_Suc [symmetric])

lemma live_list_none: "\<forall>it \<in> set xs. name it = KNull \<Longrightarrow> live_list xs = []"
  by (induction xs) auto

text \<open>The two skips move the cursor over free slots only, so what is to be visited stays.\<close>

lemma skip_in_table:
  fixes h :: struct_coucal and e :: struct_coucal_enum
  defines "i \<equiv> skip_free (items h) (index e) (length (items h) - index e)"
  shows "index e \<le> i" and "live_list (drop (index e) (slots h)) = live_list (drop i (slots h))"
    and "i < length (items h) \<Longrightarrow> name (items h ! i) \<noteq> KNull"
proof -
  have i: "index e \<le> i" "i \<le> index e + (length (items h) - index e)"
    using skip_free_bounds [of "index e" "items h" "length (items h) - index e"] by (simp_all add: i_def)
  show "index e \<le> i" by (rule i(1))
  show "live_list (drop (index e) (slots h)) = live_list (drop i (slots h))"
  proof (cases "index e < length (items h)")
    case True
    then have "live_list (drop (index e) (items h)) = live_list (drop i (items h))"
      unfolding i_def by (intro skip_free_drop) simp
    then show ?thesis using True i by (simp add: slots_def)
  next
    case False
    then show ?thesis using i by simp
  qed
  show "name (items h ! i) \<noteq> KNull" if "i < length (items h)"
    using skip_free_live [of "items h" "index e" "length (items h) - index e"] i that
    by (simp add: i_def)
qed

lemma skip_in_stash:
  fixes h :: struct_coucal and i :: nat
  defines "n \<equiv> length (items h)" and "ext \<equiv> extent (stash h)"
  defines "j \<equiv> skip_free (stash_items (stash h)) (i - n) (n + ext - i)"
  assumes past: "n \<le> i" and sinv: "stash_inv (stash h)"
  shows "i \<le> n + j" and "live_list (drop i (slots h)) = live_list (drop j (stash_items (stash h)))"
    and "j < ext \<Longrightarrow> name (stash_items (stash h) ! j) \<noteq> KNull"
    and "ext \<le> j \<Longrightarrow> live_list (drop j (stash_items (stash h))) = []"
proof -
  let ?ys = "stash_items (stash h)"
  note stD = stash_invD(1,2) [OF sinv]
  have j: "i - n \<le> j" "j \<le> (i - n) + (n + ext - i)"
    using skip_free_bounds [of "i - n" ?ys "n + ext - i"] by (simp_all add: j_def)
  then show "i \<le> n + j" by linarith
  show "live_list (drop i (slots h)) = live_list (drop j ?ys)"
  proof (cases "i < n + ext")
    case True
    then have "live_list (drop (i - n) ?ys) = live_list (drop j ?ys)"
      unfolding j_def by (intro skip_free_drop) (use past stD in \<open>simp add: ext_def\<close>)
    then show ?thesis using past by (simp add: slots_def n_def)
  next
    case False
    then have "j = i - n" by (simp add: j_def)
    then show ?thesis using past by (simp add: slots_def n_def)
  qed
  show "name (?ys ! j) \<noteq> KNull" if "j < ext"
  proof -
    have "j < (i - n) + (n + ext - i)" using past j that by linarith
    then show ?thesis using skip_free_live [of ?ys "i - n" "n + ext - i"] by (simp add: j_def)
  qed
  show "live_list (drop j ?ys) = []" if "ext \<le> j"
  proof -
    have "drop j ?ys = drop (j - ext) (drop ext ?ys)" using that by simp
    then have "set (drop j ?ys) \<subseteq> set (drop ext ?ys)" using set_drop_subset by metis
    then show ?thesis
      using stash_above_extent [OF stash_inv_shape [OF sinv]] unfolding ext_def
      by (intro live_list_none) blast
  qed
qed

text \<open>A step takes the first entry still to be visited, and ends only when there is none.\<close>

lemma enum_next_correct:
  assumes inv: "slots_inv h"
  shows "case coucal_enum_next h e of
      (Some loc, e') \<Rightarrow> valid_loc h loc \<and> name (item_at h loc) \<noteq> KNull \<and> index e' = Suc (slot_index h loc)
        \<and> index e \<le> slot_index h loc \<and> pending h e = entry (pool h) (item_at h loc) # pending h e'
    | (None, e') \<Rightarrow> pending h e = []"
proof -
  have tinv: "table_inv h" and sinv: "stash_inv (stash h)"
    using inv by (simp_all add: slots_inv_def)
  note tD = table_invD [OF tinv] and stD = stash_invD [OF sinv]
  let ?n = "2 ^ lg_size h :: nat" and ?ext = "extent (stash h)"
  have "(2::nat) ^ lg_size h \<le> 2 ^ 32" using tD(1) by (rule power_increasing) simp
  then have n: "?n < 2 ^ 33" by simp
  define i where "i = skip_free (items h) (index e) (?n - index e)"
  note i = skip_in_table [where h = h and e = e, unfolded tD(3), folded i_def]
  show ?thesis
  proof (cases "i < ?n")
    case True
    then have "live_list (drop i (slots h)) = items h ! i # live_list (drop (Suc i) (slots h))"
      using live_list_drop [of i "slots h"] i(3) by (simp add: slots_def nth_append tD(3))
    then show ?thesis using True n tD(1) i
      by (simp add: coucal_enum_next_def i_def [symmetric] Let_def valid_loc_def tD(3) item_at_def
          slot_index_def pending_def)
  next
    case False
    then have past: "length (items h) \<le> i" by (simp add: tD(3))
    define j where "j = skip_free (stash_items (stash h)) (i - ?n) (?n + ?ext - i)"
    note j = skip_in_stash [OF past sinv, unfolded tD(3), folded j_def]
    have limit: "size_add ?n ?ext = ?n + ?ext" using n stD(2) by simp
    show ?thesis
    proof (cases "j < ?ext")
      case True
      then have "live_list (drop j (stash_items (stash h))) =
          stash_items (stash h) ! j # live_list (drop (Suc j) (stash_items (stash h)))"
        using j(3) stD(1,2) by (intro live_list_drop) simp_all
      moreover have "index e \<le> ?n + j" using i(1) j(1) by linarith
      ultimately show ?thesis using False True n j(2,3) tD(1) stD(2) i(2) limit
        by (simp add: coucal_enum_next_def i_def [symmetric] j_def [symmetric] Let_def valid_loc_def
            tD(3) item_at_def slot_index_def pending_def) (simp add: slots_def tD(3))
    next
      case past: False
      then show ?thesis using False tD(1) i(2) j(2,4) limit
        by (simp add: coucal_enum_next_def i_def [symmetric] j_def [symmetric] Let_def pending_def)
    qed
  qed
qed

section \<open>The interface of the enumerator\<close>

text \<open>\<open>while ((item = next(&e)) != NULL) body\<close>, by the calls of \<open>next\<close> left; \<open>oof\<close> when none is left.\<close>

fun for_each ::
  "('c \<Rightarrow> 'x option \<times> 'c) \<Rightarrow> ('x \<Rightarrow> 's \<Rightarrow> 'e + 's) \<Rightarrow> 'e \<Rightarrow> 'c \<Rightarrow> 's \<Rightarrow> nat \<Rightarrow> 'e + 's"
where
  "for_each next_item body oof c s 0 = Inl oof"
| "for_each next_item body oof c s (Suc n) =
     (case next_item c of
        (None, c) \<Rightarrow> Inr s
      | (Some x, c) \<Rightarrow> bind_res (body x s) (\<lambda>s. for_each next_item body oof c s n))"

fun fold_res :: "('y \<Rightarrow> 's \<Rightarrow> 'e + 's) \<Rightarrow> 'y list \<Rightarrow> 's \<Rightarrow> 'e + 's" where
  "fold_res f [] s = Inr s"
| "fold_res f (y # ys) s = bind_res (f y s) (\<lambda>s. fold_res f ys s)"

text \<open>
  What a client relies on: in a container that is \<open>ok\<close>, a call of \<open>next_item\<close> yields a handle to the
  first of the entries \<open>left\<close>, or ends when none is left. A client that sees an entry only through
  its handle runs its loop over these entries, and reaches the end.
\<close>

locale enumerator =
  fixes ok :: "'t \<Rightarrow> bool"
    and next_item :: "'t \<Rightarrow> 'c \<Rightarrow> 'x option \<times> 'c"
    and entry_at :: "'t \<Rightarrow> 'x \<Rightarrow> 'y"
    and left :: "'t \<Rightarrow> 'c \<Rightarrow> 'y list"
  assumes next_some: "ok t \<Longrightarrow> next_item t c = (Some x, c') \<Longrightarrow> left t c = entry_at t x # left t c'"
    and next_none: "ok t \<Longrightarrow> next_item t c = (None, c') \<Longrightarrow> left t c = []"
begin

lemma for_each_left:
  assumes "ok t" and "length (left t c) < n"
    and body: "\<And>x s. body x s = f (entry_at t x) s"
  shows "for_each (next_item t) body oof c s n = fold_res f (left t c) s"
  using assms(2)
proof (induction n arbitrary: c s)
  case (Suc n)
  obtain r c' where step: "next_item t c = (r, c')" by fastforce
  show ?case
  proof (cases r)
    case None
    then show ?thesis using next_none [OF assms(1)] step by simp
  next
    case (Some x)
    then have "left t c = entry_at t x # left t c'" using next_some [OF assms(1)] step by simp
    moreover from this have "length (left t c') < n" using Suc.prems by simp
    ultimately show ?thesis using step Some Suc.IH by (simp add: body)
  qed
qed simp

end

interpretation table_enum: enumerator slots_inv coucal_enum_next
    "\<lambda>h loc. entry (pool h) (item_at h loc)" pending
proof unfold_locales
  fix h e loc e'
  assume "slots_inv h" "coucal_enum_next h e = (Some loc, e')"
  then show "pending h e = entry (pool h) (item_at h loc) # pending h e'"
    using enum_next_correct [of h e] by simp
next
  fix h e e'
  assume "slots_inv h" "coucal_enum_next h e = (None, e')"
  then show "pending h e = []" using enum_next_correct [of h e] by simp
qed

section \<open>A whole enumeration\<close>

lemma enum_loop_correct:
  assumes "slots_inv h" and "length (pending h e) < n"
  shows "map (\<lambda>loc. entry (pool h) (item_at h loc)) (enum_loop h e n) = pending h e
    \<and> (\<forall>loc \<in> set (enum_loop h e n). valid_loc h loc \<and> name (item_at h loc) \<noteq> KNull)
    \<and> sorted_wrt (<) (map (slot_index h) (enum_loop h e n))
    \<and> (\<forall>loc \<in> set (enum_loop h e n). index e \<le> slot_index h loc)"
  using assms(2)
proof (induction n arbitrary: e)
  case (Suc n)
  obtain r e' where nxt: "coucal_enum_next h e = (r, e')" by fastforce
  show ?case
  proof (cases r)
    case None
    then show ?thesis using enum_next_correct [OF assms(1), of e] nxt by simp
  next
    case (Some loc)
    then have step: "valid_loc h loc" "name (item_at h loc) \<noteq> KNull"
        "index e' = Suc (slot_index h loc)" "index e \<le> slot_index h loc"
        "pending h e = entry (pool h) (item_at h loc) # pending h e'"
      using enum_next_correct [OF assms(1), of e] nxt by simp_all
    have "length (pending h e') < n" using step(5) Suc.prems by simp
    from Suc.IH [OF this] show ?thesis using nxt Some step
      by (auto simp: Suc_le_eq intro: less_imp_le order_less_trans)
  qed
qed simp

lemma enum_all_correct:
  assumes inv: "coucal_inv h"
  shows "mset (map (\<lambda>loc. entry (pool h) (item_at h loc)) (enum_all h)) = entries h"
    and "distinct (enum_all h)"
    and "\<forall>loc \<in> set (enum_all h). valid_loc h loc \<and> name (item_at h loc) \<noteq> KNull"
proof -
  let ?e = "coucal_enum_new h"
  have slots: "slots_inv h" and used: "used h = size (entries h)"
    using inv by (simp_all add: coucal_inv_def)
  have "length (pending h ?e) = used h"
    using arg_cong [OF pending_new [of h], of size] used by simp
  then have "length (pending h ?e) < used h + 1" by simp
  note loop = enum_loop_correct [OF slots this, folded enum_all_def]
  show "mset (map (\<lambda>loc. entry (pool h) (item_at h loc)) (enum_all h)) = entries h"
    using loop pending_new [of h] by simp
  have "distinct (map (slot_index h) (enum_all h))"
    using loop by (simp add: strict_sorted_iff)
  then show "distinct (enum_all h)" by (simp add: distinct_map)
  show "\<forall>loc \<in> set (enum_all h). valid_loc h loc \<and> name (item_at h loc) \<noteq> KNull"
    using loop by blast
qed

section \<open>Changes while enumerating\<close>

text \<open>Two slots never hold the same key.\<close>

lemma slot_unique:
  assumes "keys_ok (custom h)" and "content_ok (custom h) (entries h)"
    and "i < length (slots h)" "j < length (slots h)" "i \<noteq> j" "item_is h s (slots h ! i)"
  shows "\<not> item_is h s (slots h ! j)"
proof
  assume hit: "item_is h s (slots h ! j)"
  let ?xs = "(slots h)[i := null_item]"
  have "live_of (slots h) = add_mset (slots h ! i) (live_of ?xs)"
    by (rule live_of_set_free) (use assms(3,6) in \<open>simp_all add: item_is_def\<close>)
  then have E: "entries h = add_mset (entry (pool h) (slots h ! i)) (image_mset (entry (pool h)) (live_of ?xs))"
    by (simp add: entries_def live_def slots_def)
  have "?xs ! j = slots h ! j" using assms(5) by simp
  then have "slots h ! j \<in># live_of ?xs"
    using nth_in_live_of [of j ?xs] assms(4) hit by (simp add: item_is_def)
  then have "has_entry (custom h) (image_mset (entry (pool h)) (live_of ?xs)) s (value (slots h ! j))"
    using hit by (auto simp: has_entry_def entry_def item_is_def)
  then show False
    using no_second_entry [of "custom h" "entry (pool h) (slots h ! i)"] assms(1,2,6) E
    by (simp add: entry_def item_is_def)
qed

abbreviation key_of :: "table_entry \<Rightarrow> byte list" where
  "key_of e \<equiv> the (fst e)"

lemma live_list_renamed:
  "list_all2 (renamed p p') xs ys \<Longrightarrow> map (entry p') (live_list ys) = map (entry p) (live_list xs)"
  by (induction rule: list_all2_induct) (auto simp: renamed_def entry_def)

lemma live_list_update_none:
  assumes "\<forall>j < length xs. name (xs ! j) \<noteq> KNull \<longrightarrow> (P (xs ! j) \<longleftrightarrow> j = i)"
  shows "live_list (xs[i := null_item]) = filter (\<lambda>it. \<not> P it) (live_list xs)"
  using assms
proof (induction xs arbitrary: i)
  case (Cons x xs)
  show ?case
  proof (cases i)
    case 0
    have "\<not> P it" if mem: "it \<in> set (live_list xs)" for it
    proof -
      obtain j where "j < length xs" "xs ! j = it" "name it \<noteq> KNull"
        using mem by (rule in_live_listE)
      then show ?thesis using Cons.prems [rule_format, of "Suc j"] 0 by simp
    qed
    moreover have "name x \<noteq> KNull \<Longrightarrow> P x" using Cons.prems [rule_format, of 0] 0 by simp
    ultimately show ?thesis using 0 by (simp add: filter_id_conv)
  next
    case (Suc k)
    have "live_list (xs[k := null_item]) = filter (\<lambda>it. \<not> P it) (live_list xs)"
    proof (rule Cons.IH, intro allI impI)
      fix j assume "j < length xs" "name (xs ! j) \<noteq> KNull"
      then show "P (xs ! j) \<longleftrightarrow> j = k" using Cons.prems [rule_format, of "Suc j"] Suc by simp
    qed
    moreover have "name x \<noteq> KNull \<Longrightarrow> \<not> P x" using Cons.prems [rule_format, of 0] Suc by simp
    ultimately show ?thesis using Suc by simp
  qed
qed simp

lemma drop_update_null:
  "drop n (xs[i := x]) = (if n \<le> i then (drop n xs)[i - n := x] else drop n xs)"
  by (simp add: drop_update_swap not_le)

text \<open>A removal takes the removed entry out of what is pending, and nothing else.\<close>

lemma pending_remove:
  assumes keys: "keys_ok (custom h)" and content: "content_ok (custom h) (entries h)"
    and rem: "removed h s h'"
  shows "pending h' e = filter (\<lambda>en. \<not> equals_of (custom h) (key_of en) s) (pending h e)"
proof -
  let ?n = "index e"
  obtain i where i: "i < length (slots h)" "item_is h s (slots h ! i)"
      "list_all2 (renamed (pool h) (pool h')) ((slots h)[i := null_item]) (slots h')"
    using rem by (auto simp: removed_def)
  have only: "item_is h s (slots h ! j) \<longleftrightarrow> j = i" if "j < length (slots h)" for j
    using slot_unique [OF keys content i(1) that _ i(2)] i(2) by blast
  have "live_list (drop ?n ((slots h)[i := null_item]))
      = filter (\<lambda>it. \<not> item_is h s it) (live_list (drop ?n (slots h)))"
  proof (cases "?n \<le> i")
    case True
    have "live_list ((drop ?n (slots h))[i - ?n := null_item])
        = filter (\<lambda>it. \<not> item_is h s it) (live_list (drop ?n (slots h)))"
      by (rule live_list_update_none) (use only True in \<open>auto simp: nth_drop\<close>)
    then show ?thesis using True by (simp add: drop_update_null)
  next
    case False
    have "\<not> item_is h s it" if mem: "it \<in> set (live_list (drop ?n (slots h)))" for it
    proof -
      obtain j where "j < length (drop ?n (slots h))" "drop ?n (slots h) ! j = it"
        using mem by (rule in_live_listE)
      then have "j < length (slots h) - ?n" "slots h ! (?n + j) = it"
        using i(1) False by simp_all
      then show ?thesis using only [of "?n + j"] False by auto
    qed
    then show ?thesis using False by (simp add: drop_update_null filter_id_conv)
  qed
  moreover have "map (entry (pool h')) (live_list (drop ?n (slots h')))
      = map (entry (pool h)) (live_list (drop ?n ((slots h)[i := null_item])))"
    by (rule live_list_renamed) (rule list_all2_dropI [OF i(3)])
  moreover have "item_is h s it \<longleftrightarrow> equals_of (custom h) (key_of (entry (pool h) it)) s"
    if "it \<in> set (live_list xs)" for it xs
    using that by (auto simp: live_list_def item_is_def entry_def)
  ultimately show ?thesis
    by (simp add: pending_def filter_map comp_def cong: filter_cong)
qed

text \<open>Replacing a value changes that value in what is pending.\<close>

lemma live_list_map:
  "(\<And>x. x \<in> set xs \<Longrightarrow> name (f x) = KNull \<longleftrightarrow> name x = KNull) \<Longrightarrow>
   live_list (map f xs) = map f (live_list xs)"
  by (induction xs) auto

lemma pending_replace:
  assumes keys: "keys_ok (custom h)" and content: "content_ok (custom h) (entries h)"
    and rep: "replaced h s v h'"
  shows "pending h' e = map (\<lambda>(k, w, hk). (k, if equals_of (custom h) (the k) s then v else w, hk)) (pending h e)"
proof -
  obtain i where i: "i < length (slots h)" "item_is h s (slots h ! i)" "pool h' = pool h"
      "slots h' = (slots h)[i := (slots h ! i)\<lparr>value := v\<rparr>]"
    using rep by (auto simp: replaced_def)
  define f where "f = (\<lambda>it. if item_is h s it then it\<lparr>value := v\<rparr> else it)"
  have only: "item_is h s (slots h ! j) \<longleftrightarrow> j = i" if "j < length (slots h)" for j
    using slot_unique [OF keys content i(1) that _ i(2)] i(2) by blast
  have "slots h' = map f (slots h)"
    by (rule nth_equalityI) (use only in \<open>auto simp: i(4) nth_list_update f_def\<close>)
  then have "live_list (drop (index e) (slots h')) = map f (live_list (drop (index e) (slots h)))"
    by (simp add: drop_map live_list_map f_def)
  then show ?thesis
    by (auto simp: pending_def i(3) entry_def f_def item_is_def live_list_def)
qed

end
