(* ===== verification/Api.thy ===== *)
theory Api
  imports Enumerate
begin

text \<open>
  The life cycle of a hashtable and its settings: \<open>coucal_new()\<close>, the functions that set the
  handlers, the sizes it reports and \<open>coucal_delete()\<close>. A \<open>coucal\<close> that may be \<open>NULL\<close> is an option.
\<close>

section \<open>Creating\<close>

text \<open>\<open>for(size = MIN_LG_SIZE ; acceptable(size) && POW2(size) < initial_size ; size++)\<close>\<close>

function get_pow2_loop :: "nat \<Rightarrow> nat \<Rightarrow> nat" where
  "get_pow2_loop initial_size lg =
     (if coucal_is_acceptable_pow2 lg \<and> POW2 lg < initial_size
      then get_pow2_loop initial_size (lg + 1) else lg)"
  by pat_completeness auto

termination
  by (relation "measure (\<lambda>(n, lg). 64 - lg)") (auto simp: coucal_is_acceptable_pow2_def)

declare get_pow2_loop.simps [simp del]

definition coucal_get_pow2 :: "nat \<Rightarrow> nat" where
  "coucal_get_pow2 initial_size = get_pow2_loop initial_size MIN_LG_SIZE"

text \<open>\<open>sizeof(struct_coucal)\<close> on an LP64 platform with 32-bit hashes.\<close>

definition sizeof_struct_coucal :: nat where "sizeof_struct_coucal = 632"

definition no_custom :: coucal_custom where
  "no_custom = \<lparr>value_free = None, value_arg = 0, key_dup = None, key_free = None, key_hash = None,
     key_equals = None, key_arg = 0, error_log = None, error_fatal = None, error_arg = 0,
     error_name = None, print_key = None, print_value = None, print_arg = 0\<rparr>"

definition no_stats :: coucal_stats where
  "no_stats = \<lparr>max_stash_size = 0, write_count = 0, add_count = 0, cuckoo_moved = 0,
     stash_added = 0, rehash_count = 0, pool_compact_count = 0, pool_realloc_count = 0\<rparr>"

definition no_pool :: coucal_pool where
  "no_pool = \<lparr>buffer = None, pool_size = 0, capacity = 0, pool_used = 0\<rparr>"

definition empty_stash :: coucal_stash where
  "empty_stash = \<lparr>stash_items = replicate STASH_SIZE null_item, stash_size = 0, extent = 0\<rparr>"

definition coucal_new :: "c_heap \<Rightarrow> nat \<Rightarrow> struct_coucal option \<times> c_heap" where
  "coucal_new hp initial_size =
     (let lg = coucal_get_pow2 initial_size in
      if \<not> coucal_is_acceptable_pow2 lg then (None, hp)
      else
        let (table, hp) = c_malloc hp sizeof_struct_coucal;
            (arr, hp) = c_malloc hp (size_mul (POW2 lg) sizeof_coucal_item)
        in if arr \<noteq> None \<and> table \<noteq> None then
             (Some \<lparr>items = replicate (POW2 lg) null_item, lg_size = lg, used = 0, stash = empty_stash,
                pool = no_pool, stats = no_stats, custom = no_custom, heap = hp, calls = []\<rparr>, hp)
           else (None, hp))"

text \<open>The items' pointer is null only once the structure itself is freed.\<close>

definition coucal_created :: "struct_coucal option \<Rightarrow> bool" where
  "coucal_created h \<longleftrightarrow> h \<noteq> None"

section \<open>Settings\<close>

definition coucal_value_is_malloc :: "struct_coucal \<Rightarrow> bool \<Rightarrow> struct_coucal" where
  "coucal_value_is_malloc h flag =
     (if flag then
        if value_free (custom h) = None
        then h\<lparr>custom := (custom h)\<lparr>value_free := Some DefaultFree, value_arg := 0\<rparr>\<rparr>
        else h
      else h\<lparr>custom := (custom h)\<lparr>value_free := None, value_arg := 0\<rparr>\<rparr>)"

definition coucal_set_name :: "struct_coucal \<Rightarrow> byte list option \<Rightarrow> struct_coucal" where
  "coucal_set_name h nm = h\<lparr>custom := (custom h)\<lparr>error_name := nm\<rparr>\<rparr>"

definition coucal_get_name :: "struct_coucal option \<Rightarrow> byte list option" where
  "coucal_get_name h = (case h of Some t \<Rightarrow> error_name (custom t) | None \<Rightarrow> None)"

definition coucal_value_set_value_handler ::
  "struct_coucal \<Rightarrow> t_coucal_value_freehandler option \<Rightarrow> coucal_opaque \<Rightarrow> struct_coucal" where
  "coucal_value_set_value_handler h f arg =
     h\<lparr>custom := (custom h)\<lparr>value_free := f, value_arg := arg\<rparr>\<rparr>"

definition coucal_value_set_key_handler ::
  "struct_coucal \<Rightarrow> t_coucal_duphandler option \<Rightarrow> t_coucal_key_freehandler option \<Rightarrow>
   t_coucal_hasheshandler option \<Rightarrow> t_coucal_cmphandler option \<Rightarrow> coucal_opaque \<Rightarrow> struct_coucal res" where
  "coucal_value_set_key_handler h dup free hash equals arg =
     bind_res (assert_res ((dup = None) = (free = None)) (AssertFailed A_dup_free_consistent)) (\<lambda>_.
       Inr (h\<lparr>custom := (custom h)\<lparr>key_dup := dup, key_free := free, key_hash := hash,
                               key_equals := equals, key_arg := arg\<rparr>\<rparr>))"

definition coucal_set_assert_handler ::
  "struct_coucal \<Rightarrow> t_coucal_loghandler option \<Rightarrow> t_coucal_asserthandler option \<Rightarrow> coucal_opaque \<Rightarrow>
   struct_coucal" where
  "coucal_set_assert_handler h log fatal arg =
     h\<lparr>custom := (custom h)\<lparr>error_log := log, error_fatal := fatal, error_arg := arg\<rparr>\<rparr>"

definition coucal_set_print_handler ::
  "struct_coucal \<Rightarrow> t_coucal_printkeyhandler option \<Rightarrow> t_coucal_printvaluehandler option \<Rightarrow>
   coucal_opaque \<Rightarrow> struct_coucal" where
  "coucal_set_print_handler h key val arg =
     h\<lparr>custom := (custom h)\<lparr>print_key := key, print_value := val, print_arg := arg\<rparr>\<rparr>"

section \<open>Sizes\<close>

definition coucal_nitems :: "struct_coucal option \<Rightarrow> nat" where
  "coucal_nitems h = (case h of Some t \<Rightarrow> used t | None \<Rightarrow> 0)"

definition coucal_memory_size :: "struct_coucal \<Rightarrow> nat" where
  "coucal_memory_size h =
     (let hash_size = size_mul (POW2 (lg_size h)) sizeof_coucal_item
      in size_add (size_add sizeof_struct_coucal hash_size) (capacity (pool h)))"

definition coucal_hash_size :: nat where
  "coucal_hash_size = COUCAL_HASH_SIZE"

section \<open>Deleting\<close>

text \<open>One turn of the loops over the table and over the stash.\<close>

definition delete_slot :: "bool \<Rightarrow> struct_coucal \<Rightarrow> location \<Rightarrow> struct_coucal res" where
  "delete_slot free_names h loc =
     (if name (item_at h loc) \<noteq> KNull then
        let h = coucal_del_value_i h loc
        in if free_names then coucal_del_name h loc else Inr h
      else Inr h)"

fun delete_slots :: "bool \<Rightarrow> struct_coucal \<Rightarrow> location list \<Rightarrow> struct_coucal res" where
  "delete_slots free_names h [] = Inr h"
| "delete_slots free_names h (loc # locs) =
     bind_res (delete_slot free_names h loc) (\<lambda>h. delete_slots free_names h locs)"

text \<open>
  The result: what is behind the caller's pointer afterwards, and the calls made to the handlers.
  \<open>None\<close> outside is the null \<open>phashtable\<close>.
\<close>

definition coucal_delete ::
  "struct_coucal option option \<Rightarrow> (struct_coucal option option \<times> handler_call list) res" where
  "coucal_delete ph =
     (case ph of
        None \<Rightarrow> Inr (None, [])
      | Some None \<Rightarrow> Inr (Some None, [])
      | Some (Some h) \<Rightarrow>
          let free_names = (key_free (custom h) \<noteq> None) in
          bind_res (delete_slots free_names h (map InTable [0..<POW2 (lg_size h)])) (\<lambda>h.
          bind_res (delete_slots free_names h (map InStash [0..<extent (stash h)])) (\<lambda>h.
            Inr (Some None, calls h))))"

section \<open>A new table\<close>

lemma get_pow2_loop_correct:
  assumes "4 \<le> lg" and "lg \<le> 33" and "lg = 4 \<or> 2 ^ (lg - 1) < n"
  shows "let r = get_pow2_loop n lg in
    4 \<le> r \<and> r \<le> 33 \<and> (r = 4 \<or> 2 ^ (r - 1) < n) \<and> (r \<le> 32 \<longrightarrow> n \<le> 2 ^ r)"
  using assms
proof (induction n lg rule: get_pow2_loop.induct)
  case (1 n lg)
  show ?case
  proof (cases "coucal_is_acceptable_pow2 lg \<and> POW2 lg < n")
    case True
    then have "lg \<le> 32" by (simp add: coucal_is_acceptable_pow2_def COUCAL_HASH_SIZE_def)
    then have "2 ^ lg < n" using True by simp
    then show ?thesis using 1 True \<open>lg \<le> 32\<close> by (subst get_pow2_loop.simps) simp
  next
    case False
    then have "get_pow2_loop n lg = lg" by (subst get_pow2_loop.simps) auto
    moreover have "n \<le> 2 ^ lg" if "lg \<le> 32"
      using False that by (auto simp: coucal_is_acceptable_pow2_def COUCAL_HASH_SIZE_def)
    ultimately show ?thesis using 1(2-4) by simp
  qed
qed

lemma coucal_get_pow2_correct:
  "4 \<le> coucal_get_pow2 n" "coucal_get_pow2 n \<le> 33"
  "coucal_get_pow2 n = 4 \<or> 2 ^ (coucal_get_pow2 n - 1) < n"
  "coucal_get_pow2 n \<le> 32 \<Longrightarrow> n \<le> 2 ^ coucal_get_pow2 n"
  using get_pow2_loop_correct [of 4 n] by (simp_all add: coucal_get_pow2_def MIN_LG_SIZE_def Let_def)

lemma empty_table_map:
  assumes "coucal_inv h" and "entries h = {#}"
  shows "table_map h = Map.empty"
proof (rule ext, rule option_extI)
  fix s v
  show "table_map h s = Some v \<longleftrightarrow> None = Some v"
    using table_map_has [OF lookup_map_inv [OF coucal_inv_lookup [OF assms(1)]], of s v] assms(2)
    by (simp add: has_entry_def)
qed

lemma empty_table_inv:
  assumes "items h = replicate (2 ^ lg_size h) null_item" and "4 \<le> lg_size h" "lg_size h \<le> 32"
    and "stash h = empty_stash" "pool h = no_pool" "used h = 0"
    and "keys_ok (custom h)" "dup_ok (custom h)"
  shows "coucal_inv h" and "entries h = {#}" and "table_map h = Map.empty"
proof -
  have live: "live h = {#}" using assms(1,4) by (simp add: live_def empty_stash_def)
  then show E: "entries h = {#}" by (simp add: entries_def)
  have "slots_inv h"
    using assms(1-4) by (simp add: slots_inv_def table_inv_def placed_def stash_inv_def stash_core_def
        empty_stash_def MIN_LG_SIZE_def COUCAL_HASH_SIZE_def)
  moreover have "storage_inv h"
    using live by (simp add: storage_inv_def live_names_def assms(5) no_pool_def pool_inv_def)
  ultimately show inv: "coucal_inv h"
    using assms(6-8) by (simp add: coucal_inv_def E content_ok_def)
  show "table_map h = Map.empty" by (rule empty_table_map [OF inv E])
qed

lemma no_custom_ok [simp]: "keys_ok no_custom" "dup_ok no_custom"
  by (auto simp: no_custom_def dup_ok_def intro: keys_ok_default)

lemma coucal_new_correct:
  "case fst (coucal_new hp n) of
     Some h \<Rightarrow> coucal_inv h \<and> table_map h = Map.empty \<and> entries h = {#} \<and> custom h = no_custom \<and>
       n \<le> 2 ^ lg_size h \<and> (lg_size h = 4 \<or> 2 ^ (lg_size h - 1) < n) \<and>
       calls h = [] \<and> (heap_refuses (heap h) \<longleftrightarrow> heap_refuses hp)
   | None \<Rightarrow> 2 ^ 32 < n \<or> heap_refuses hp"
proof -
  note pow2 = coucal_get_pow2_correct [of n]
  define lg where "lg = coucal_get_pow2 n"
  show ?thesis
  proof (cases "lg \<le> 32")
    case False
    then have "lg = 33" using pow2(2) by (simp add: lg_def)
    then have "coucal_new hp n = (None, hp)"
      by (simp add: coucal_new_def coucal_is_acceptable_pow2_def COUCAL_HASH_SIZE_def flip: lg_def)
    then show ?thesis using pow2(3) \<open>lg = 33\<close> by (simp flip: lg_def)
  next
    case True
    then have acc: "coucal_is_acceptable_pow2 lg"
      by (simp add: coucal_is_acceptable_pow2_def COUCAL_HASH_SIZE_def)
    obtain t hp1 where t: "c_malloc hp sizeof_struct_coucal = (t, hp1)" by fastforce
    obtain a hp2 where a: "c_malloc hp1 (size_mul (POW2 lg) sizeof_coucal_item) = (a, hp2)"
      by fastforce
    have "(2::nat) ^ lg \<le> 2 ^ 32" using True by (rule power_increasing) simp
    then have small: "sizeof_struct_coucal \<le> ptrdiff_max"
        "size_mul (POW2 lg) sizeof_coucal_item \<le> ptrdiff_max"
      using True by (simp_all add: sizeof_struct_coucal_def sizeof_coucal_item_def ptrdiff_max_def)
    have refuse: "heap_refuses hp1 = heap_refuses hp" "heap_refuses hp2 = heap_refuses hp"
      using c_malloc_cases [OF t] c_malloc_cases [OF a] by (simp_all add: heap_refuses_def)
    show ?thesis
    proof (cases "a \<noteq> None \<and> t \<noteq> None")
      case none: False
      then have "coucal_new hp n = (None, hp2)"
        using acc t a by (simp add: coucal_new_def Let_def flip: lg_def)
      moreover have "heap_refuses hp"
        using none c_malloc_refused [OF _ small(1), of hp] c_malloc_refused [OF _ small(2), of hp1]
          t a refuse by auto
      ultimately show ?thesis by simp
    next
      case some: True
      define h where "h = \<lparr>items = replicate (POW2 lg) null_item, lg_size = lg, used = 0,
        stash = empty_stash, pool = no_pool, stats = no_stats, custom = no_custom, heap = hp2,
        calls = []\<rparr>"
      have "coucal_new hp n = (Some h, hp2)"
        using acc t a some by (simp add: coucal_new_def Let_def h_def flip: lg_def)
      moreover have "coucal_inv h \<and> entries h = {#} \<and> table_map h = Map.empty"
        using empty_table_inv [of h] True pow2(1) by (simp add: h_def lg_def)
      ultimately show ?thesis using pow2(3,4) True refuse(2) by (simp add: h_def lg_def)
    qed
  qed
qed

lemma new_table:
  assumes "coucal_new hp n = (Some h, hp')"
  shows "coucal_inv h" "entries h = {#}" "calls h = []" "pool h = no_pool" "live_names h = {#}"
    "table_map h = Map.empty" "custom h = no_custom"
proof -
  show "coucal_inv h" "calls h = []" "table_map h = Map.empty" "custom h = no_custom"
    using coucal_new_correct [where hp = hp and n = n] assms by simp_all
  show E: "entries h = {#}" using coucal_new_correct [where hp = hp and n = n] assms by simp
  then show "live_names h = {#}" by (simp add: entries_def live_names_def)
  show "pool h = no_pool"
    using assms by (auto simp: coucal_new_def Let_def split: if_splits prod.splits)
qed

section \<open>Settings keep the invariant\<close>

text \<open>
  Settings that do not concern keys keep it always; the key handlers may change while the table
  is empty, provided they meet their contract.
\<close>

lemma coucal_inv_custom:
  assumes "items h' = items h" "stash h' = stash h" "pool h' = pool h" "heap h' = heap h"
    "used h' = used h" "lg_size h' = lg_size h"
    and "key_dup (custom h') = key_dup (custom h)" "key_free (custom h') = key_free (custom h)"
    "key_hash (custom h') = key_hash (custom h)" "key_equals (custom h') = key_equals (custom h)"
    "key_arg (custom h') = key_arg (custom h)"
  shows "coucal_inv h' = coucal_inv h" and "table_map h' = table_map h" and "entries h' = entries h"
proof -
  have hash: "hash_of (custom h') = hash_of (custom h)"
    by (rule ext) (simp add: hash_of_def assms split: option.split)
  have eq: "equals_of (custom h') = equals_of (custom h)"
    by (rule ext, rule ext) (simp add: equals_of_def assms split: option.split)
  have live: "live h' = live h" by (simp add: live_def assms)
  show E: "entries h' = entries h" by (simp add: entries_def live assms)
  have names: "live_names h' = live_names h" by (simp add: live_names_def live)
  have "slots_inv h' = slots_inv h" by (simp add: slots_inv_def table_inv_def assms)
  moreover have "storage_inv h' = storage_inv h" by (simp add: storage_inv_def names assms)
  moreover have "content_ok (custom h') = content_ok (custom h)"
    by (simp add: fun_eq_iff content_ok_def entry_ok_def distinct_keys_def hash eq
        pairwise_mset_def split: option.split)
  moreover have "keys_ok (custom h') = keys_ok (custom h)" by (simp add: keys_ok_def hash eq)
  moreover have "dup_ok (custom h') = dup_ok (custom h)"
    by (simp add: dup_ok_def eq assms split: option.split)
  ultimately show "coucal_inv h' = coucal_inv h" by (simp add: coucal_inv_def E assms)
  have "item_is h' = item_is h" by (simp add: fun_eq_iff item_is_def eq assms)
  then show "table_map h' = table_map h" by (intro ext) (simp add: table_map_def assms)
qed

lemma settings_keep_inv:
  "coucal_inv (coucal_value_is_malloc h flag) = coucal_inv h"
  "coucal_inv (coucal_set_name h nm) = coucal_inv h"
  "coucal_inv (coucal_value_set_value_handler h f arg) = coucal_inv h"
  "coucal_inv (coucal_set_assert_handler h log fatal arg) = coucal_inv h"
  "coucal_inv (coucal_set_print_handler h pk pv arg) = coucal_inv h"
  by (rule coucal_inv_custom(1); simp add: coucal_value_is_malloc_def coucal_set_name_def
      coucal_value_set_value_handler_def coucal_set_assert_handler_def coucal_set_print_handler_def)+

lemma set_key_handler_inv:
  assumes inv: "coucal_inv h" and "entries h = {#}" and p: "pool h = no_pool"
    and set: "coucal_value_set_key_handler h dup free hash equals arg = Inr h'"
    and "keys_ok (custom h')" "dup_ok (custom h')"
  shows "coucal_inv h'"
proof -
  have h': "h' = h\<lparr>custom := custom h'\<rparr>"
    using set by (auto simp: coucal_value_set_key_handler_def split: if_splits)
  have live: "live h = {#}" using assms(2) by (simp add: entries_def)
  then have "live h' = {#}" by (subst h') (simp add: live_def)
  moreover have "slots_inv h'" using inv
    by (subst h') (simp add: coucal_inv_def slots_inv_def table_inv_def)
  moreover have "pool h' = no_pool" "used h' = 0"
    using p inv assms(2) by (subst h', simp add: coucal_inv_def)+
  ultimately show ?thesis using assms(5,6)
    by (simp add: coucal_inv_def storage_inv_def live_names_def no_pool_def pool_inv_def
        entries_def content_ok_def)
qed

section \<open>Deleting hands every value and key to its handler once\<close>

definition release_calls :: "coucal_custom \<Rightarrow> coucal_item \<Rightarrow> handler_call list" where
  "release_calls c it =
     (if name it = KNull then [] else freed c (value it) @ key_free_calls c (name it))"

lemma item_at_other: "loc \<noteq> loc' \<Longrightarrow> item_at (set_at h loc it) loc' = item_at h loc'"
  by (cases loc; cases loc')
    (auto simp: item_at_def set_at_def set_item_def set_stash_item_def)

lemma item_at_same:
  "valid_loc h loc \<Longrightarrow> extent (stash h) \<le> length (stash_items (stash h)) \<Longrightarrow>
   item_at (set_at h loc it) loc = it"
  by (auto simp: item_at_def set_at_def set_item_def set_stash_item_def valid_loc_def
      split: location.splits)

lemma delete_slot_correct:
  assumes loc: "valid_loc h loc" "extent (stash h) \<le> length (stash_items (stash h))"
    and free: "free_names = (key_free (custom h) \<noteq> None)"
  shows "\<exists>h'. delete_slot free_names h loc = Inr h' \<and> custom h' = custom h \<and>
    calls h' = calls h @ release_calls (custom h) (item_at h loc) \<and>
    (\<forall>l. l \<noteq> loc \<longrightarrow> item_at h' l = item_at h l) \<and> (\<forall>l. valid_loc h' l = valid_loc h l) \<and>
    lg_size h' = lg_size h \<and> extent (stash h') = extent (stash h) \<and>
    length (stash_items (stash h')) = length (stash_items (stash h))"
proof -
  have len: "length (stash_items (stash (set_at k loc it))) = length (stash_items (stash k))" for k it
    by (simp add: set_at_def set_item_def set_stash_item_def split: location.split)
  define it where "it = item_at h loc"
  define h1 where "h1 = coucal_del_value_i h loc"
  have val: "h1 = (if value it = 0 then h
      else set_at (h\<lparr>calls := calls h @ freed (custom h) (value it)\<rparr>) loc (it\<lparr>value := 0\<rparr>))"
    by (simp add: h1_def del_value_eq it_def Let_def)
  have same: "custom h1 = custom h" "lg_size h1 = lg_size h" "extent (stash h1) = extent (stash h)"
      "length (stash_items (stash h1)) = length (stash_items (stash h))"
      "valid_loc h1 l = valid_loc h l" "l \<noteq> loc \<Longrightarrow> item_at h1 l = item_at h l" for l
    by (simp_all add: val len item_at_other)
  have calls1: "calls h1 = calls h @ freed (custom h) (value it)" by (simp add: val freed_def)
  have name1: "name (item_at h1 loc) = name it"
    using loc item_at_same [of "h\<lparr>calls := cs\<rparr>" loc for cs] by (simp add: val it_def)
  show ?thesis
  proof (cases "name it = KNull")
    case True
    then show ?thesis by (simp add: delete_slot_def release_calls_def it_def)
  next
    case live: False
    show ?thesis
    proof (cases "key_free (custom h)")
      case None
      then have "delete_slot free_names h loc = Inr h1"
        using live free by (simp add: delete_slot_def it_def h1_def)
      moreover have "calls h1 = calls h @ release_calls (custom h) it"
        using calls1 live None by (simp add: release_calls_def key_free_calls_def)
      ultimately show ?thesis using same by (simp add: it_def)
    next
      case (Some f)
      define h2 where "h2 = set_at h1 loc ((item_at h1 loc)\<lparr>name := KNull, hashes := null_hashkeys\<rparr>)"
      let ?h' = "h2\<lparr>calls := calls h2 @ [CallKeyFree f (key_arg (custom h)) (name it)]\<rparr>"
      have run: "delete_slot free_names h loc = Inr ?h'"
        using live free Some name1 same(1)
        by (simp add: delete_slot_def it_def coucal_del_name_def coucal_free_key_def Let_def
            flip: h1_def) (simp add: h2_def)
      have "calls ?h' = calls h @ release_calls (custom h) it"
        using calls1 live Some by (simp add: release_calls_def key_free_calls_def h2_def)
      then show ?thesis unfolding run using same
        by (simp add: it_def) (simp add: h2_def len item_at_other)
    qed
  qed
qed

lemma delete_slots_correct:
  assumes "\<forall>loc \<in> set locs. valid_loc h loc" "extent (stash h) \<le> length (stash_items (stash h))"
    and "free_names = (key_free (custom h) \<noteq> None)" and "distinct locs"
  shows "\<exists>h'. delete_slots free_names h locs = Inr h' \<and> custom h' = custom h \<and>
    calls h' = calls h @ concat (map (\<lambda>l. release_calls (custom h) (item_at h l)) locs) \<and>
    (\<forall>l. l \<notin> set locs \<longrightarrow> item_at h' l = item_at h l) \<and> (\<forall>l. valid_loc h' l = valid_loc h l) \<and>
    extent (stash h') = extent (stash h) \<and>
    length (stash_items (stash h')) = length (stash_items (stash h))"
  using assms
proof (induction locs arbitrary: h)
  case (Cons loc locs)
  obtain h1 where h1: "delete_slot free_names h loc = Inr h1" "custom h1 = custom h"
      "calls h1 = calls h @ release_calls (custom h) (item_at h loc)"
      "\<forall>l. l \<noteq> loc \<longrightarrow> item_at h1 l = item_at h l" "\<forall>l. valid_loc h1 l = valid_loc h l"
      "extent (stash h1) = extent (stash h)"
      "length (stash_items (stash h1)) = length (stash_items (stash h))"
    using delete_slot_correct [of h loc free_names] Cons.prems by auto
  obtain h2 where h2: "delete_slots free_names h1 locs = Inr h2" "custom h2 = custom h1"
      "calls h2 = calls h1 @ concat (map (\<lambda>l. release_calls (custom h1) (item_at h1 l)) locs)"
      "\<forall>l. l \<notin> set locs \<longrightarrow> item_at h2 l = item_at h1 l" "\<forall>l. valid_loc h2 l = valid_loc h1 l"
      "extent (stash h2) = extent (stash h1)"
      "length (stash_items (stash h2)) = length (stash_items (stash h1))"
    using Cons.IH [of h1] Cons.prems h1 by auto
  have "map (\<lambda>l. release_calls (custom h1) (item_at h1 l)) locs
      = map (\<lambda>l. release_calls (custom h) (item_at h l)) locs"
    using h1(2,4) Cons.prems(4) by auto
  then have "concat (map (\<lambda>l. release_calls (custom h1) (item_at h1 l)) locs)
      = concat (map (\<lambda>l. release_calls (custom h) (item_at h l)) locs)" by (rule arg_cong)
  then show ?case using h1 h2 by auto
qed simp

lemma coucal_delete_correct:
  assumes inv: "coucal_inv h"
  shows "coucal_delete (Some (Some h)) =
    Inr (Some None, calls h @ concat (map (release_calls (custom h)) (slots h)))"
proof -
  have tinv: "table_inv h" and sinv: "stash_inv (stash h)"
    using inv by (simp_all add: coucal_inv_def slots_inv_def)
  note tD = table_invD [OF tinv] and stD = stash_invD [OF sinv]
  let ?fn = "key_free (custom h) \<noteq> None"
  let ?t = "map InTable [0..<2 ^ lg_size h]" and ?s = "map InStash [0..<extent (stash h)]"
  have d: "distinct ?t" "distinct ?s" by (simp_all add: distinct_map inj_on_def)
  obtain h1 where h1: "delete_slots ?fn h ?t = Inr h1" "custom h1 = custom h"
      "calls h1 = calls h @ concat (map (\<lambda>l. release_calls (custom h) (item_at h l)) ?t)"
      "\<forall>l. l \<notin> set ?t \<longrightarrow> item_at h1 l = item_at h l" "\<forall>l. valid_loc h1 l = valid_loc h l"
      "extent (stash h1) = extent (stash h)"
      "length (stash_items (stash h1)) = length (stash_items (stash h))"
    using delete_slots_correct [of ?t h ?fn] stD(1,2) d(1) tD(3) by (auto simp: valid_loc_def)
  obtain h2 where h2: "delete_slots ?fn h1 ?s = Inr h2"
      "calls h2 = calls h1 @ concat (map (\<lambda>l. release_calls (custom h1) (item_at h1 l)) ?s)"
    using delete_slots_correct [of ?s h1 ?fn] stD(1,2) d(2) h1 by (auto simp: valid_loc_def)
  have "map (\<lambda>l. release_calls (custom h) (item_at h l)) ?t = map (release_calls (custom h)) (items h)"
    by (rule nth_equalityI) (simp_all add: item_at_def tD(3))
  moreover have "concat (map (\<lambda>l. release_calls (custom h1) (item_at h1 l)) ?s)
      = concat (map (release_calls (custom h)) (stash_items (stash h)))"
  proof -
    have "map (\<lambda>l. release_calls (custom h1) (item_at h1 l)) ?s
        = map (release_calls (custom h)) (take (extent (stash h)) (stash_items (stash h)))"
    proof (rule nth_equalityI)
      fix i assume "i < length (map (\<lambda>l. release_calls (custom h1) (item_at h1 l)) ?s)"
      moreover have "item_at h1 (InStash i) = item_at h (InStash i)" using h1(4) by auto
      ultimately show "map (\<lambda>l. release_calls (custom h1) (item_at h1 l)) ?s ! i
          = map (release_calls (custom h)) (take (extent (stash h)) (stash_items (stash h))) ! i"
        using h1(2) stD(1,2) by simp (simp add: item_at_def)
    qed (use stD(1,2) in simp)
    moreover have "concat (map (release_calls (custom h)) (drop (extent (stash h)) (stash_items (stash h)))) = []"
      using stash_above_extent [OF stash_inv_shape [OF sinv]] by (auto simp: release_calls_def)
    ultimately show ?thesis
      by (metis append_Nil2 append_take_drop_id concat_append map_append)
  qed
  ultimately show ?thesis
    using h1(1,3,6) h2 tD(1) by (simp add: coucal_delete_def slots_def Let_def)
qed

section \<open>The size of a table\<close>

text \<open>
  The memory a table reports is exactly the sum of the structure, the slots and the pool's
  capacity, without wrap-around, and at most \<open>2 ^ 63 + 2 ^ 37\<close> bytes.
\<close>

lemma memory_size_exact:
  assumes "coucal_inv h" and "capacity (pool h) \<le> ptrdiff_max"
  shows "coucal_memory_size h = 632 + 24 * length (items h) + capacity (pool h)"
proof -
  have "lg_size h \<le> 32" "length (items h) = 2 ^ lg_size h"
    using assms by (simp_all add: coucal_inv_def slots_inv_def table_inv_def COUCAL_HASH_SIZE_def)
  moreover from this have "(2::nat) ^ lg_size h \<le> 2 ^ 32" by (intro power_increasing) simp_all
  ultimately show ?thesis
    using assms(2) by (simp add: coucal_memory_size_def sizeof_coucal_item_def sizeof_struct_coucal_def Let_def
        ptrdiff_max_def)
qed

section \<open>Settings\<close>

text \<open>
  The key handlers are set together, and \<open>coucal_value_is_malloc()\<close> keeps a value handler that was
  set before, so the two calls on values do not commute.
\<close>

lemma handler_settings:
  "((\<exists>h'. coucal_value_set_key_handler h dup free hash equals arg = Inr h') \<longleftrightarrow>
      (dup = None \<longleftrightarrow> free = None)) \<and>
   coucal_value_is_malloc (coucal_value_set_value_handler h (Some f) arg) True =
     coucal_value_set_value_handler h (Some f) arg \<and>
   value_free (custom (coucal_value_is_malloc h False)) = None"
  by (auto simp: coucal_value_set_key_handler_def coucal_value_is_malloc_def
      coucal_value_set_value_handler_def)

end
