(* ===== verification/Store.thy ===== *)
theory Store
  imports Api
begin

text \<open>
  The hashtable as a finite map. First the effect of the writing operations on the table's map,
  for any handlers that meet their contract; then the interface \<open>string_store\<close> that a client
  with string keys programs against, a simulation of any sequence of its operations by the same
  sequence on a map, proved once from the interface's laws, and the interpretation of the
  interface on the model of the code with its default handlers.
\<close>

section \<open>The map after an operation\<close>

lemma coucal_inv_map: "coucal_inv h \<Longrightarrow> map_inv h"
  by (rule lookup_map_inv [OF coucal_inv_lookup])

lemma equals_cong:
  assumes "keys_ok c" and "equals_of c t s"
  shows "equals_of c t = equals_of c s"
  using keys_okD(2,3) [OF assms(1)] assms(2) by blast

lemma write_ok_map:
  assumes inv: "coucal_inv h" and ok: "write_ok h s v h' ret"
  shows "table_map h' = (\<lambda>u. if equals_of (custom h) s u then Some v else table_map h u)"
    and "ret = (if table_map h s = None then 1 else 0)" and "coucal_inv h'"
proof -
  have keys: "keys_ok (custom h)" and same: "custom h' = custom h" and inv': "coucal_inv h'"
    using inv ok by (simp add: coucal_inv_def, simp_all add: write_ok_def)
  show "coucal_inv h'" by (rule inv')
  note m = coucal_inv_map [OF inv] and m' = coucal_inv_map [OF inv']
  show "table_map h' = (\<lambda>u. if equals_of (custom h) s u then Some v else table_map h u)"
  proof (cases "ret = 0")
    case True
    then obtain t old E where "equals_of (custom h) t s"
        "entries h = add_mset (Some t, old, hash_of (custom h) s) E"
        "entries h' = add_mset (Some t, v, hash_of (custom h) s) E"
      using ok by (auto simp: write_ok_def replaced_def)
    then show ?thesis using table_map_replace [OF m m' same] equals_cong [OF keys] by simp
  next
    case False
    then obtain t where "equals_of (custom h) t s"
        "entries h' = add_mset (Some t, v, hash_of (custom h) s) (entries h)"
      using ok by (auto simp: write_ok_def added_def)
    then show ?thesis using table_map_add [OF m m' same] equals_cong [OF keys] by simp
  qed
  show "ret = (if table_map h s = None then 1 else 0)"
  proof (cases "ret = 0")
    case True
    then obtain t old E where E: "equals_of (custom h) t s"
        "entries h = add_mset (Some t, old, hash_of (custom h) s) E"
      using ok by (auto simp: write_ok_def replaced_def)
    then have "has_entry (custom h) (entries h) s old" by (simp add: has_entry_add)
    then show ?thesis using True table_map_has [OF m, of s old] by simp
  next
    case False
    then have "\<not> (\<exists>w. has_entry (custom h) (entries h) s w)" "ret = 1"
      using ok by (auto simp: write_ok_def added_def)
    then show ?thesis using table_map_has [OF m, of s] by (cases "table_map h s") auto
  qed
qed

lemma remove_ok_map:
  assumes inv: "coucal_inv h" and ok: "remove_ok h s h' ret"
  shows "table_map h' = (\<lambda>u. if equals_of (custom h) s u then None else table_map h u)"
    and "ret = (if table_map h s = None then 0 else 1)" and "coucal_inv h'"
proof -
  have keys: "keys_ok (custom h)" and same: "custom h' = custom h" and inv': "coucal_inv h'"
    using inv ok by (simp add: coucal_inv_def, simp_all add: remove_ok_def)
  show "coucal_inv h'" by (rule inv')
  note m = coucal_inv_map [OF inv] and m' = coucal_inv_map [OF inv']
  have both: "table_map h' = (\<lambda>u. if equals_of (custom h) s u then None else table_map h u) \<and>
      ret = (if table_map h s = None then 0 else 1)"
  proof (cases "ret = 0")
    case True
    then have none: "table_map h s = None" "h' = h" using ok by (simp_all add: remove_ok_def)
    have "table_map h u = None" if eq: "equals_of (custom h) s u" for u
    proof -
      have "has_entry (custom h) (entries h) u w \<Longrightarrow> has_entry (custom h) (entries h) s w" for w
        using keys_okD(3) [OF keys _ keys_okD(2) [OF keys eq]] unfolding has_entry_def by blast
      then have "table_map h u = Some w \<Longrightarrow> table_map h s = Some w" for w
        by (simp add: table_map_has [OF m])
      then show ?thesis using none(1) by (cases "table_map h u") auto
    qed
    then show ?thesis using none True by auto
  next
    case False
    then obtain t v where E: "equals_of (custom h) t s" "ret = 1"
        "entries h = add_mset (Some t, v, hash_of (custom h) s) (entries h')"
      using ok by (auto simp: remove_ok_def removed_def)
    then have "has_entry (custom h) (entries h) s v" by (simp add: has_entry_add)
    then have "table_map h s = Some v" using table_map_has [OF m] by simp
    then show ?thesis using table_map_del [OF m m' same E(3)] equals_cong [OF keys E(1)] E(2) by simp
  qed
  then show "table_map h' = (\<lambda>u. if equals_of (custom h) s u then None else table_map h u)"
    and "ret = (if table_map h s = None then 0 else 1)" by blast+
qed

text \<open>Adding to a counter: in place, without a call to any handler, or by a write when absent.\<close>

text \<open>What an increment by \<open>n\<close> does, whether the key is new or not.\<close>

definition inc_ok :: "struct_coucal \<Rightarrow> byte list \<Rightarrow> coucal_value \<Rightarrow> struct_coucal \<Rightarrow> coucal_value \<Rightarrow> bool" where
  "inc_ok h s n h' r \<longleftrightarrow>
     coucal_inv h' \<and> custom h' = custom h \<and>
     r = (case table_map h s of None \<Rightarrow> n | Some v \<Rightarrow> v + n) \<and>
     table_map h' = (\<lambda>u. if equals_of (custom h) s u then Some r else table_map h u) \<and>
     pool_size (pool h') \<le> pool_size (pool h) + Suc (length s) \<and>
     (calls h' = calls h \<and> live_names h' = live_names h \<or> write_ok h s n h' 1)"

lemma inc_new:
  assumes inv: "coucal_inv h" and nm: "deref (pool h) nm = Some s" and fits: "fits h s"
    and none: "table_map h s = None" and fetch: "coucal_fetch_value h nm = Inr None"
  shows "(\<exists>a. coucal_inc_i h nm n = Inl (AssertFailed a) \<and> write_failure h a)
    \<or> (\<exists>h' r. coucal_inc_i h nm n = Inr (h', r) \<and> inc_ok h s n h' r)"
proof -
  have run: "coucal_inc_i h nm n = bind_res (coucal_write_value h nm n) (\<lambda>(h, ret).
           if ret \<noteq> 0 then Inr (h, n) else Inl (AssertFailed A_inc_ret))"
    using fetch by (simp add: coucal_inc_i_def coucal_write_def)
  consider (bad) a where "coucal_write_value h nm n = Inl (AssertFailed a)" "write_failure h a"
    | (good) h' ret where "coucal_write_value h nm n = Inr (h', ret)" "write_ok h s n h' ret"
    using write_value_correct [OF inv nm fits] by blast
  then show ?thesis
  proof cases
    case bad
    then show ?thesis using run by simp
  next
    case good
    note map = write_ok_map [OF inv good(2)]
    have "custom h' = custom h" "pool_size (pool h') \<le> pool_size (pool h) + Suc (length s)"
      using good(2) by (simp_all add: write_ok_def)
    moreover have "ret = 1" using map(2) none by simp
    ultimately show ?thesis using run good map none by (simp add: inc_ok_def)
  qed
qed

lemma inc_present:
  assumes inv: "coucal_inv h" and some: "table_map h s = Some (value (item_at h loc))"
    and fetch: "coucal_fetch_value h nm = Inr (Some loc)"
    and loc: "valid_loc h loc" "item_is h s (item_at h loc)"
  shows "\<exists>h' r. coucal_inc_i h nm n = Inr (h', r) \<and> inc_ok h s n h' r"
proof -
  define v where "v = value (item_at h loc) + n"
  define h' where "h' = set_at h loc ((item_at h loc)\<lparr>value := v\<rparr>)"
  have parts: "slots_inv h" "keys_ok (custom h)" using inv by (simp_all add: coucal_inv_def)
  have "h' = set_at (h\<lparr>calls := calls h\<rparr>) loc ((item_at h loc)\<lparr>value := v\<rparr>)" by (simp add: h'_def)
  note set = set_at_value_correct [OF inv loc this]
  have run: "coucal_inc_i h nm n = Inr (h', v)"
    using fetch item_at_set_at [OF parts(1) loc(1)]
    by (simp add: coucal_inc_i_def set_value_def h'_def v_def Let_def)
  have same: "custom h' = custom h" "pool h' = pool h" "calls h' = calls h"
    by (simp_all add: h'_def)
  obtain t E where "equals_of (custom h) t s"
      "entries h = add_mset (Some t, value (item_at h loc), hash_of (custom h) s) E"
      "entries h' = add_mset (Some t, v, hash_of (custom h) s) E"
    using set(2) by blast
  then have "table_map h' = (\<lambda>u. if equals_of (custom h) s u then Some v else table_map h u)"
    using table_map_replace [OF coucal_inv_map [OF inv] coucal_inv_map [OF set(1)] same(1)]
      equals_cong [OF parts(2)] by simp
  moreover have "v = (case table_map h s of None \<Rightarrow> n | Some x \<Rightarrow> x + n)" by (simp add: some v_def)
  ultimately have "inc_ok h s n h' v" unfolding inc_ok_def using set(1,3) same by simp
  then show ?thesis using run by blast
qed

lemma inc_i_correct:
  assumes inv: "coucal_inv h" and nm: "deref (pool h) nm = Some s" and fits: "fits h s"
  shows "(\<exists>a. coucal_inc_i h nm n = Inl (AssertFailed a) \<and> write_failure h a)
    \<or> (\<exists>h' r. coucal_inc_i h nm n = Inr (h', r) \<and> inc_ok h s n h' r)"
proof -
  obtain r where r: "coucal_fetch_value h nm = Inr r"
      "table_map h s = map_option (\<lambda>loc. value (item_at h loc)) r"
      "\<forall>loc. r = Some loc \<longrightarrow> valid_loc h loc \<and> item_is h s (item_at h loc)"
    using fetch_value_map [OF coucal_inv_lookup [OF inv] nm] by blast
  then show ?thesis
    using inc_new [OF inv nm fits] inc_present [OF inv] by (cases r) simp_all
qed

text \<open>With \<open>strcmp\<close> as the comparison the table has as many items as its map has keys.\<close>

lemma used_card:
  assumes inv: "coucal_inv h" and eq: "key_equals (custom h) = None"
  shows "finite (dom (table_map h))" and "used h = card (dom (table_map h))"
proof -
  have strcmp: "equals_of (custom h) = (=)" using eq by (simp add: fun_eq_iff equals_of_def)
  have content: "content_ok (custom h) (entries h)" and used: "used h = size (entries h)"
    using inv by (simp_all add: coucal_inv_def)
  have dom: "dom (table_map h) = (\<lambda>e. the (fst e)) ` set_mset (entries h)"
    using table_map_has [OF coucal_inv_map [OF inv]]
    by (force simp: dom_def has_entry_def strcmp)
  then show "finite (dom (table_map h))" by simp
  have "card ((\<lambda>e. the (fst e)) ` set_mset E) = size E"
    if "pairwise_mset (distinct_keys (custom h)) E" for E
    using that
  proof (induction E)
    case (add e E)
    then have "pairwise_mset (distinct_keys (custom h)) E" "\<forall>e' \<in># E. distinct_keys (custom h) e e'"
      using pairwise_mset_add [of "distinct_keys (custom h)" e E, OF distinct_keys_sym] inv
      by (simp_all add: coucal_inv_def)
    moreover from this have "card ((\<lambda>e. the (fst e)) ` set_mset E) = size E" by (intro add.IH)
    ultimately show ?case by (auto simp: distinct_keys_def strcmp card_insert_if)
  qed simp
  then show "used h = card (dom (table_map h))"
    using content by (simp add: used dom content_ok_def)
qed

section \<open>The interface of a string store\<close>

datatype store_op =
    Write "byte list" coucal_value
  | Remove "byte list"
  | Lookup "byte list"
  | Inc "byte list"

datatype store_result =
    Wrote int
  | Removed int
  | Found "coucal_value option"
  | Counted coucal_value

fun op_key :: "store_op \<Rightarrow> byte list" where
  "op_key (Write s v) = s"
| "op_key (Remove s) = s"
| "op_key (Lookup s) = s"
| "op_key (Inc s) = s"

text \<open>What the operation does to a map, and its result.\<close>

fun spec_step ::
  "(byte list \<Rightarrow> coucal_value option) \<Rightarrow> store_op \<Rightarrow> (byte list \<Rightarrow> coucal_value option) \<times> store_result"
where
  "spec_step m (Write s v) = (m(s \<mapsto> v), Wrote (if m s = None then 1 else 0))"
| "spec_step m (Remove s) = (m(s := None), Removed (if m s = None then 0 else 1))"
| "spec_step m (Lookup s) = (m, Found (m s))"
| "spec_step m (Inc s) =
     (let v = (case m s of None \<Rightarrow> 1 | Some v \<Rightarrow> v + 1) in (m(s \<mapsto> v), Counted v))"

fun spec_run ::
  "(byte list \<Rightarrow> coucal_value option) \<Rightarrow> store_op list \<Rightarrow> (byte list \<Rightarrow> coucal_value option) \<times> store_result list"
where
  "spec_run m [] = (m, [])"
| "spec_run m (x # xs) =
     (let (m, r) = spec_step m x; (m, rs) = spec_run m xs in (m, r # rs))"

text \<open>A sequence of operations on a state that offers one function for an operation.\<close>

fun run_ops ::
  "('s \<Rightarrow> store_op \<Rightarrow> 'e + 's \<times> store_result) \<Rightarrow> 's \<Rightarrow> store_op list \<Rightarrow> 'e + 's \<times> store_result list"
where
  "run_ops step t [] = Inr (t, [])"
| "run_ops step t (x # xs) =
     bind_res (step t x) (\<lambda>(t, r). bind_res (run_ops step t xs) (\<lambda>(t, rs). Inr (t, r # rs)))"

text \<open>
  The laws: in a state that satisfies the invariant an operation on a key the store accepts has
  the effect and the result it has on the map, or fails in one of the ways a client has to
  expect; \<open>room\<close> measures the space the store has used for keys.
\<close>

locale string_store =
  fixes invar :: "'s \<Rightarrow> bool"
    and lookup :: "'s \<Rightarrow> byte list \<Rightarrow> coucal_value option"
    and room :: "'s \<Rightarrow> nat"
    and step :: "'s \<Rightarrow> store_op \<Rightarrow> 'e + 's \<times> store_result"
    and count :: "'s \<Rightarrow> nat"
    and excused :: "'e \<Rightarrow> bool"
  assumes step_law: "invar t \<Longrightarrow> 0 \<notin> set (op_key x) \<Longrightarrow> room t + length (op_key x) < 2 ^ 62 \<Longrightarrow>
      step t x = Inr (t', r) \<Longrightarrow>
      invar t' \<and> (lookup t', r) = spec_step (lookup t) x \<and> room t' \<le> room t + Suc (length (op_key x))"
    and step_fail: "invar t \<Longrightarrow> 0 \<notin> set (op_key x) \<Longrightarrow> room t + length (op_key x) < 2 ^ 62 \<Longrightarrow>
      step t x = Inl e \<Longrightarrow> excused e"
    and count_law: "invar t \<Longrightarrow> count t = card (dom (lookup t))"
begin

lemma run_law:
  assumes "invar t" and "\<forall>x \<in> set xs. 0 \<notin> set (op_key x)"
    and "room t + sum_list (map (\<lambda>x. Suc (length (op_key x))) xs) < 2 ^ 62"
  shows "case run_ops step t xs of
      Inl e \<Rightarrow> excused e
    | Inr (t', rs) \<Rightarrow> invar t' \<and> (lookup t', rs) = spec_run (lookup t) xs"
  using assms
proof (induction xs arbitrary: t)
  case (Cons x xs)
  have pre: "0 \<notin> set (op_key x)" "room t + length (op_key x) < 2 ^ 62"
    using Cons.prems(2,3) by simp_all
  show ?case
  proof (cases "step t x")
    case (Inl e)
    then show ?thesis using step_fail [OF Cons.prems(1) pre] by simp
  next
    case (Inr p)
    obtain t1 r where p: "p = (t1, r)" by fastforce
    note law = step_law [OF Cons.prems(1) pre Inr [unfolded p]]
    have "room t1 + sum_list (map (\<lambda>x. Suc (length (op_key x))) xs) < 2 ^ 62"
      using law Cons.prems(3) by simp
    then have IH: "case run_ops step t1 xs of
        Inl e \<Rightarrow> excused e
      | Inr (t', rs) \<Rightarrow> invar t' \<and> (lookup t', rs) = spec_run (lookup t1) xs"
      using Cons.IH law Cons.prems(2) by simp
    have spec: "spec_step (lookup t) x = (lookup t1, r)" using law by simp
    show ?thesis
    proof (cases "run_ops step t1 xs")
      case (Inl e)
      then show ?thesis using IH Inr p by simp
    next
      case rest: (Inr q)
      obtain t2 rs where q: "q = (t2, rs)" by fastforce
      then have "invar t2" "spec_run (lookup t1) xs = (lookup t2, rs)" using IH rest by simp_all
      then show ?thesis using Inr p spec rest q by simp
    qed
  qed
qed simp

lemma run_count:
  assumes "invar t" and "\<forall>x \<in> set xs. 0 \<notin> set (op_key x)"
    and "room t + sum_list (map (\<lambda>x. Suc (length (op_key x))) xs) < 2 ^ 62"
    and "run_ops step t xs = Inr (t', rs)"
  shows "count t' = card (dom (fst (spec_run (lookup t) xs)))"
proof -
  have "invar t'" "(lookup t', rs) = spec_run (lookup t) xs"
    using run_law [OF assms(1-3)] assms(4) by simp_all
  then show ?thesis using count_law [of t'] by (metis fst_conv)
qed

end

section \<open>The hashtable as a string store\<close>

text \<open>The client's key is a C string of its own; the store is a table with the default handlers.\<close>

definition coucal_step ::
  "struct_coucal \<Rightarrow> store_op \<Rightarrow> (struct_coucal \<times> store_result) res" where
  "coucal_step h x =
     (case x of
        Write s v \<Rightarrow> bind_res (coucal_write_value h (KExt 0 s) v) (\<lambda>(h, r). Inr (h, Wrote r))
      | Remove s \<Rightarrow> bind_res (coucal_remove h (KExt 0 s)) (\<lambda>(h, r). Inr (h, Removed r))
      | Lookup s \<Rightarrow> bind_res (coucal_read_value h (KExt 0 s) (Some 0)) (\<lambda>(r, v).
          Inr (h, Found (if r = 0 then None else v)))
      | Inc s \<Rightarrow> bind_res (coucal_inc_i h (KExt 0 s) 1) (\<lambda>(h, v). Inr (h, Counted v)))"

definition default_store :: "struct_coucal \<Rightarrow> bool" where
  "default_store h \<longleftrightarrow> coucal_inv h \<and> key_equals (custom h) = None \<and> key_dup (custom h) = None"

text \<open>The failures a client has to expect: no memory, a full stash, a table that cannot grow.\<close>

definition resource_error :: "coucal_error \<Rightarrow> bool" where
  "resource_error e \<longleftrightarrow>
     (\<exists>a. e = AssertFailed a \<and>
        a \<in> {A_hashtable_allocation_error, A_cuckoo_stash_collision, A_acceptable_pow2} \<union> pool_errors)"

lemma write_failure_resource: "write_failure h a \<Longrightarrow> resource_error (AssertFailed a)"
  by (auto simp: write_failure_def resource_error_def)

lemma strcmp_fun: "key_equals c = None \<Longrightarrow> equals_of c s u \<longleftrightarrow> s = u"
  by (simp add: equals_of_def)

lemma deref_ext [simp]: "deref p (KExt a s) = Some s"
  by (simp add: deref_def)

text \<open>The law of each operation, on a table with the default handlers.\<close>

definition step_law_at :: "struct_coucal \<Rightarrow> store_op \<Rightarrow> bool" where
  "step_law_at h x \<longleftrightarrow>
     (case coucal_step h x of
        Inl e \<Rightarrow> resource_error e
      | Inr (h', r) \<Rightarrow> default_store h' \<and> (table_map h', r) = spec_step (table_map h) x \<and>
          pool_size (pool h') \<le> pool_size (pool h) + Suc (length (op_key x)))"

lemma strcmp_update:
  "key_equals c = None \<Longrightarrow> (\<lambda>u. if equals_of c s u then v else m u) = m(s := v)"
  by (auto simp: strcmp_fun)

lemma default_storeD:
  assumes "default_store h"
  shows "coucal_inv h" and "key_equals (custom h) = None" and "key_dup (custom h) = None"
  using assms by (simp_all add: default_store_def)

lemma step_law_write:
  assumes store: "default_store h" and "0 \<notin> set s" and "pool_size (pool h) + length s < 2 ^ 62"
  shows "step_law_at h (Write s v)"
proof -
  note D = default_storeD [OF store]
  consider (bad) a where "coucal_write_value h (KExt 0 s) v = Inl (AssertFailed a)" "write_failure h a"
    | (good) h' ret where "coucal_write_value h (KExt 0 s) v = Inr (h', ret)" "write_ok h s v h' ret"
    using write_value_correct [OF D(1), of "KExt 0 s" s v] assms(2,3) by (auto simp: fits_def)
  then show ?thesis
  proof cases
    case bad
    then show ?thesis using write_failure_resource by (simp add: coucal_step_def step_law_at_def)
  next
    case good
    have "custom h' = custom h" "pool_size (pool h') \<le> pool_size (pool h) + Suc (length s)"
      using good(2) by (simp_all add: write_ok_def)
    then show ?thesis using good(1) write_ok_map [OF D(1) good(2)] store strcmp_update [OF D(2)]
      by (simp add: coucal_step_def step_law_at_def default_store_def)
  qed
qed

lemma step_law_remove:
  assumes store: "default_store h"
  shows "step_law_at h (Remove s)"
proof -
  note D = default_storeD [OF store]
  consider (bad) "coucal_remove h (KExt 0 s) = Inl (AssertFailed A_pool_compaction_error)"
    | (good) h' ret where "coucal_remove h (KExt 0 s) = Inr (h', ret)" "remove_ok h s h' ret"
    using remove_correct [OF D(1), of "KExt 0 s" s] by auto
  then show ?thesis
  proof cases
    case bad
    then show ?thesis by (simp add: coucal_step_def step_law_at_def resource_error_def pool_errors_def)
  next
    case good
    have "custom h' = custom h" "pool_size (pool h') \<le> pool_size (pool h)"
      using good(2) by (simp_all add: remove_ok_def)
    then show ?thesis using good(1) remove_ok_map [OF D(1) good(2)] store strcmp_update [OF D(2)]
      by (simp add: coucal_step_def step_law_at_def default_store_def)
  qed
qed

lemma step_law_inc:
  assumes store: "default_store h" and "0 \<notin> set s" and "pool_size (pool h) + length s < 2 ^ 62"
  shows "step_law_at h (Inc s)"
proof -
  note D = default_storeD [OF store]
  consider (bad) a where "coucal_inc_i h (KExt 0 s) 1 = Inl (AssertFailed a)" "write_failure h a"
    | (good) h' r where "coucal_inc_i h (KExt 0 s) 1 = Inr (h', r)" "inc_ok h s 1 h' r"
    using inc_i_correct [OF D(1), of "KExt 0 s" s 1] assms(2,3) by (auto simp: fits_def)
  then show ?thesis
  proof cases
    case bad
    then show ?thesis using write_failure_resource by (simp add: coucal_step_def step_law_at_def)
  next
    case good
    then have "table_map h' = (table_map h)(s \<mapsto> r)"
      unfolding inc_ok_def strcmp_update [OF D(2)] by blast
    moreover have "r = (case table_map h s of None \<Rightarrow> 1 | Some v \<Rightarrow> v + 1)" "default_store h'"
        "pool_size (pool h') \<le> pool_size (pool h) + Suc (length s)"
      using good(2) store by (simp_all add: inc_ok_def default_store_def)
    ultimately show ?thesis using good(1) by (simp add: coucal_step_def step_law_at_def Let_def)
  qed
qed

lemma coucal_step_law:
  assumes store: "default_store h" and z: "0 \<notin> set (op_key x)"
    and room: "pool_size (pool h) + length (op_key x) < 2 ^ 62"
  shows "step_law_at h x"
proof (cases x)
  case (Lookup s)
  then show ?thesis
    using read_value_map [OF coucal_inv_lookup [OF default_storeD(1) [OF store]], of "KExt 0 s" s "Some 0"]
      store
    by (cases "table_map h s") (simp_all add: coucal_step_def step_law_at_def)
qed (use assms step_law_write step_law_remove step_law_inc in auto)

interpretation coucal_strings: string_store default_store table_map "\<lambda>h. pool_size (pool h)"
    coucal_step used resource_error
proof unfold_locales
  fix h x h' r assume "default_store h" "0 \<notin> set (op_key x)"
    "pool_size (pool h) + length (op_key x) < 2 ^ 62" "coucal_step h x = Inr (h', r)"
  then show "default_store h' \<and> (table_map h', r) = spec_step (table_map h) x \<and>
      pool_size (pool h') \<le> pool_size (pool h) + Suc (length (op_key x))"
    using coucal_step_law [of h x] by (simp add: step_law_at_def)
next
  fix h x e assume "default_store h" "0 \<notin> set (op_key x)"
    "pool_size (pool h) + length (op_key x) < 2 ^ 62" "coucal_step h x = Inl e"
  then show "resource_error e" using coucal_step_law [of h x] by (simp add: step_law_at_def)
next
  fix h assume "default_store h"
  then show "used h = card (dom (table_map h))" by (simp add: default_store_def used_card)
qed

end
