(* ===== verification/Reach.thy ===== *)
theory Reach
  imports Store
begin

text \<open>
  The life of a table as a state machine: created, its key handlers set while it is empty, then
  any calls of the API that change it. The invariant holds in every reachable state, and so does
  the balance of the client's keys: each key its \<open>dup\<close> handler returned is either the key of one
  live item or was handed back to its \<open>free\<close> handler, once.
\<close>

section \<open>The step relation\<close>

inductive api_step :: "struct_coucal \<Rightarrow> struct_coucal \<Rightarrow> bool" where
  do_write: "deref (pool h) nm = Some s \<Longrightarrow> fits h s \<Longrightarrow>
    coucal_write_value h nm v = Inr (h', ret) \<Longrightarrow> api_step h h'"
| do_inc: "deref (pool h) nm = Some s \<Longrightarrow> fits h s \<Longrightarrow>
    coucal_inc_i h nm n = Inr (h', r) \<Longrightarrow> api_step h h'"
| do_remove: "deref (pool h) nm = Some s \<Longrightarrow> coucal_remove h nm = Inr (h', ret) \<Longrightarrow> api_step h h'"
| is_malloc: "api_step h (coucal_value_is_malloc h flag)"
| value_handler: "api_step h (coucal_value_set_value_handler h f arg)"
| set_name: "api_step h (coucal_set_name h nm)"
| assert_handler: "api_step h (coucal_set_assert_handler h log fatal arg)"
| print_handler: "api_step h (coucal_set_print_handler h pk pv arg)"

inductive_cases api_stepE: "api_step h h'"

inductive reachable :: "struct_coucal \<Rightarrow> bool" where
  new: "coucal_new hp n = (Some h, hp') \<Longrightarrow> reachable h"
| new_with_handlers: "coucal_new hp n = (Some h, hp') \<Longrightarrow>
    coucal_value_set_key_handler h dup free hash equals arg = Inr h' \<Longrightarrow>
    keys_ok (custom h') \<Longrightarrow> dup_ok (custom h') \<Longrightarrow> reachable h'"
| step: "reachable h \<Longrightarrow> api_step h h' \<Longrightarrow> reachable h'"

section \<open>The balance of the client's keys\<close>

definition balanced :: "struct_coucal \<Rightarrow> bool" where
  "balanced h \<longleftrightarrow>
     (key_dup (custom h) \<noteq> None \<longrightarrow> dup_keys (calls h) = freed_keys (calls h) + live_names h)"

lemma write_balanced:
  assumes "balanced h" and "write_ok h s v h' ret"
  shows "balanced h'"
proof -
  have same: "custom h' = custom h" using assms(2) by (simp add: write_ok_def)
  show ?thesis
  proof (cases "ret = 0")
    case True
    then have "replaced h s v h'" using assms(2) by (simp add: write_ok_def)
    then obtain old where "calls h' = calls h @ freed (custom h) old" "live_names h' = live_names h"
      unfolding replaced_def by blast
    then show ?thesis using assms(1) by (simp add: balanced_def same)
  next
    case False
    then have "added h s v h'" using assms(2) by (simp add: write_ok_def)
    then have "calls h' = calls h @ dup_calls h s"
      "key_dup (custom h) \<noteq> None \<longrightarrow> live_names h' = dup_keys (dup_calls h s) + live_names h"
      unfolding added_def by blast+
    then show ?thesis using assms(1) by (auto simp: balanced_def same)
  qed
qed

lemma remove_balanced:
  assumes "balanced h" and "coucal_inv h" and "remove_ok h s h' ret"
  shows "balanced h'"
proof (cases "ret = 0")
  case True
  then show ?thesis using assms(1,3) by (simp add: remove_ok_def)
next
  case False
  then have same: "custom h' = custom h" and "removed h s h'"
    using assms(3) by (simp_all add: remove_ok_def)
  then obtain k v where r: "calls h' = calls h @ freed (custom h) v @ key_free_calls (custom h) k"
      "key_dup (custom h) \<noteq> None \<longrightarrow> live_names h = add_mset k (live_names h')"
    unfolding removed_def by blast
  have "key_dup (custom h) \<noteq> None \<Longrightarrow> key_free (custom h) \<noteq> None"
    using assms(2) by (auto simp: coucal_inv_def dup_ok_def split: option.splits)
  then show ?thesis using assms(1) r by (auto simp: balanced_def same)
qed

lemma settings_keep_balance:
  "balanced (coucal_value_is_malloc h flag) = balanced h"
  "balanced (coucal_set_name h nm) = balanced h"
  "balanced (coucal_value_set_value_handler h f arg) = balanced h"
  "balanced (coucal_set_assert_handler h log fatal arg) = balanced h"
  "balanced (coucal_set_print_handler h pk pv arg) = balanced h"
  by (simp_all add: balanced_def live_names_eq coucal_value_is_malloc_def coucal_set_name_def
      coucal_value_set_value_handler_def coucal_set_assert_handler_def coucal_set_print_handler_def)

section \<open>The balance of the client's values\<close>

definition freed_values :: "handler_call list \<Rightarrow> coucal_value multiset" where
  "freed_values cs = mset (concat (map (\<lambda>c. case c of CallValueFree f a v \<Rightarrow> [v] | _ \<Rightarrow> []) cs))"

definition live_values :: "struct_coucal \<Rightarrow> coucal_value multiset" where
  "live_values h = filter_mset (\<lambda>v. v \<noteq> 0) (image_mset (\<lambda>e. fst (snd e)) (entries h))"

definition nonnull :: "coucal_value \<Rightarrow> coucal_value multiset" where
  "nonnull v = (if v = 0 then {#} else {#v#})"

lemma freed_values_simps [simp]:
  "freed_values [] = {#}" "freed_values (cs @ cs') = freed_values cs + freed_values cs'"
  "value_free c \<noteq> None \<Longrightarrow> freed_values (freed c v) = nonnull v"
  "freed_values (dup_calls h s) = {#}" "freed_values (key_free_calls c k) = {#}"
  by (auto simp: freed_values_def freed_def nonnull_def dup_calls_def key_free_calls_def
      split: option.splits)

lemma write_values:
  assumes "write_ok h s v h' ret" and "value_free (custom h) \<noteq> None"
  shows "freed_values (calls h') + live_values h' = freed_values (calls h) + live_values h + nonnull v"
proof (cases "ret = 0")
  case True
  then have "replaced h s v h'" using assms(1) by (simp add: write_ok_def)
  then obtain t old E where "entries h = add_mset (Some t, old, hash_of (custom h) s) E"
      "entries h' = add_mset (Some t, v, hash_of (custom h) s) E"
      "calls h' = calls h @ freed (custom h) old"
    unfolding replaced_def by blast
  then show ?thesis using assms(2) by (auto simp: live_values_def nonnull_def)
next
  case False
  then have "added h s v h'" using assms(1) by (simp add: write_ok_def)
  then obtain t where "entries h' = add_mset (Some t, v, hash_of (custom h) s) (entries h)"
      "calls h' = calls h @ dup_calls h s"
    unfolding added_def by blast
  then show ?thesis by (auto simp: live_values_def nonnull_def)
qed

lemma remove_values:
  assumes "remove_ok h s h' ret" and "value_free (custom h) \<noteq> None"
  shows "freed_values (calls h') + live_values h' = freed_values (calls h) + live_values h"
proof (cases "ret = 0")
  case True
  then show ?thesis using assms(1) by (simp add: remove_ok_def)
next
  case False
  then have "removed h s h'" using assms(1) by (simp add: remove_ok_def)
  then obtain k t v where "entries h = add_mset (Some t, v, hash_of (custom h) s) (entries h')"
      "calls h' = calls h @ freed (custom h) v @ key_free_calls (custom h) k"
    unfolding removed_def by blast
  then show ?thesis using assms(2) by (auto simp: live_values_def nonnull_def)
qed

section \<open>Reachable states\<close>

lemma api_step_inv:
  assumes "api_step h h'" and inv: "coucal_inv h" and "balanced h"
  shows "coucal_inv h' \<and> balanced h'"
  using assms(1)
proof cases
  case (do_write nm s v ret)
  then have "write_ok h s v h' ret" using write_value_correct [OF inv do_write(1,2), of v] by auto
  then show ?thesis using write_ok_map(3) [OF inv] write_balanced [OF assms(3)] by blast
next
  case (do_inc nm s n r)
  then have "coucal_inv h'" "calls h' = calls h \<and> live_names h' = live_names h \<or> write_ok h s n h' 1"
      "custom h' = custom h"
    using inc_i_correct [OF inv do_inc(1,2), of n] by (auto simp: inc_ok_def)
  then show ?thesis using write_balanced [OF assms(3)] assms(3) by (auto simp: balanced_def)
next
  case (do_remove nm s ret)
  then have "remove_ok h s h' ret" using remove_correct [OF inv do_remove(1)] by auto
  then show ?thesis using remove_ok_map(3) [OF inv] remove_balanced [OF assms(3) inv] by blast
qed (use inv assms(3) in \<open>simp_all add: settings_keep_inv settings_keep_balance\<close>)

lemma set_key_handler_frame:
  assumes "coucal_value_set_key_handler h dup free hash equals arg = Inr h'"
  shows "calls h' = calls h" and "live_names h' = live_names h"
  using assms by (auto simp: coucal_value_set_key_handler_def live_names_eq split: if_splits)

lemma reachable_inv: "reachable h \<Longrightarrow> coucal_inv h \<and> balanced h"
proof (induction rule: reachable.induct)
  case new
  then show ?case using new_table [OF new] by (simp add: balanced_def)
next
  case new_with_handlers
  note fresh = new_table [OF new_with_handlers(1)]
  from set_key_handler_frame [OF new_with_handlers(2)] show ?case
    using set_key_handler_inv [OF fresh(1,2,4) new_with_handlers(2-4)] fresh(3,5)
    by (simp add: balanced_def)
next
  case (step h h')
  then show ?case using api_step_inv by blast
qed

section \<open>What a deletion hands over\<close>

lemma live_slots: "live h = live_of (slots h)"
  by (simp add: live_def live_of_def slots_def)

lemma freed_values_none: "value_free c = None \<Longrightarrow> freed_values (freed c v) = {#}"
  by (simp add: freed_def)

lemma release_values:
  "freed_values (concat (map (release_calls c) xs)) =
     (if value_free c = None then {#} else filter_mset (\<lambda>v. v \<noteq> 0) (image_mset value (live_of xs)))"
  by (induction xs) (simp_all add: release_calls_def live_of_def nonnull_def freed_values_none)

lemma release_keys:
  "freed_keys (concat (map (release_calls c) xs)) = (if key_free c = None then {#} else names xs)"
  by (induction xs) (auto simp: release_calls_def names_def live_of_def key_free_calls_def
      freed_keys_def freed_def split: option.split)

lemma live_values_slots: "live_values h = filter_mset (\<lambda>v. v \<noteq> 0) (image_mset value (live_of (slots h)))"
  by (simp add: live_values_def entries_def entry_def live_slots multiset.map_comp o_def)

lemma live_names_slots: "live_names h = names (slots h)"
  by (simp add: live_names_def names_def live_slots)

end
