(* ===== verification/Demo.thy ===== *)
theory Demo
  imports Reach "HOL-Library.Code_Target_Nat"
begin

text \<open>
  Concrete tables, for applying the properties: an allocator that grants every request and moves
  every block, a hash handler under which all keys collide, and tables built with them by the
  model's own operations.
\<close>

definition demo_heap :: c_heap where
  "demo_heap = \<lparr>hp_next = 0, hp_ok = \<lambda>r n. True, hp_move = \<lambda>r. True\<rparr>"

definition demo_hash :: "coucal_opaque \<Rightarrow> byte list \<Rightarrow> coucal_hashkeys" where
  "demo_hash a s = \<lparr>hash1 = 1, hash2 = 2\<rparr>"

definition demo_custom :: coucal_custom where
  "demo_custom = no_custom\<lparr>key_hash := Some demo_hash, value_free := Some DefaultFree\<rparr>"

definition demo0 :: struct_coucal where
  "demo0 = (case coucal_new demo_heap 0 of
              (Some h, hp) \<Rightarrow> h\<lparr>custom := demo_custom\<rparr> | (None, hp) \<Rightarrow> undefined)"

definition demo_write :: "struct_coucal \<Rightarrow> byte list \<Rightarrow> coucal_value \<Rightarrow> struct_coucal" where
  "demo_write h s v = (case coucal_write_value h (KExt 0 s) v of Inr (h', r) \<Rightarrow> h' | Inl e \<Rightarrow> h)"

text \<open>Three keys that collide: two in the table, one in the stash.\<close>

definition demo3 :: struct_coucal where
  "demo3 = demo_write (demo_write (demo_write demo0 [97] 7) [98] 8) [99, 100] 9"

definition demo_view ::
  "struct_coucal \<Rightarrow> coucal_item list \<times> coucal_stash \<times> coucal_pool \<times> nat \<times> nat \<times> handler_call list"
where
  "demo_view h = (items h, stash h, pool h, lg_size h, used h, calls h)"

lemma demo3_view:
  "demo_view demo3 =
     (null_item # \<lparr>name = KPool 2 4, value = 9, hashes = \<lparr>hash1 = 1, hash2 = 2\<rparr>\<rparr>
       # \<lparr>name = KPool 2 0, value = 7, hashes = \<lparr>hash1 = 1, hash2 = 2\<rparr>\<rparr> # replicate 13 null_item,
      \<lparr>stash_items = \<lparr>name = KPool 2 2, value = 8, hashes = \<lparr>hash1 = 1, hash2 = 2\<rparr>\<rparr> # replicate 15 null_item,
       stash_size = 1, extent = 1\<rparr>,
      \<lparr>buffer = Some (2, [97, 0, 98, 0, 99, 100, 0]), pool_size = 7, capacity = 256, pool_used = 7\<rparr>,
      4, 3, [])"
  by code_simp

end
