(* ===== verification/Examples.thy ===== *)
theory Examples
  imports Demo
begin

text \<open>
  What the concrete tables of \<open>Demo\<close> satisfy: the invariant, which the model's own operations
  establish, and the fields the evaluation shows.
\<close>

lemmas demo3_fields = demo3_view [unfolded demo_view_def prod.inject]

lemma demo3_simps [simp]:
  "lg_size demo3 = 4" "used demo3 = 3" "calls demo3 = []" "stash_size (stash demo3) = 1"
  "extent (stash demo3) = 1" "pool_size (pool demo3) = 7" "capacity (pool demo3) = 256"
  "buffer (pool demo3) = Some (2, [97, 0, 98, 0, 99, 100, 0])" "pool_used (pool demo3) = 7"
  using demo3_fields by simp_all

section \<open>Their invariants\<close>

lemma pool_size_no_pool [simp]: "pool_size no_pool = 0"
  by (simp add: no_pool_def)

lemma find_skip [simp]: "\<not> P x \<Longrightarrow> find P (replicate n x @ ys) = find P ys"
  by (induction n) simp_all

lemma find_skip_all [simp]: "\<not> P x \<Longrightarrow> find P (replicate n x) = None"
  by (induction n) simp_all

lemma demo_heap_grants [simp]: "\<not> heap_refuses demo_heap"
  by (simp add: heap_refuses_def demo_heap_def)

lemma demo_keys [simp]: "keys_ok demo_custom" "dup_ok demo_custom"
  by (rule keys_ok_default) (simp_all add: demo_custom_def no_custom_def dup_ok_def)

lemma demo0_facts [simp]:
  "coucal_inv demo0" "custom demo0 = demo_custom" "pool_size (pool demo0) = 0"
  "heap_refuses (heap demo0) = False" "table_map demo0 = Map.empty" "calls demo0 = []"
  "entries demo0 = {#}" "pool demo0 = no_pool" "hp_next (heap demo0) = 2"
proof -
  have "4 = coucal_get_pow2 0"
    by (simp add: coucal_get_pow2_def get_pow2_loop.simps MIN_LG_SIZE_def)
  then have eq: "coucal_get_pow2 0 = 4" by simp
  have new: "demo0 = \<lparr>items = replicate 16 null_item, lg_size = 4, used = 0, stash = empty_stash,
      pool = no_pool, stats = no_stats, custom = demo_custom, heap = demo_heap\<lparr>hp_next := 2\<rparr>, calls = []\<rparr>"
    by (simp add: demo0_def coucal_new_def eq coucal_is_acceptable_pow2_def COUCAL_HASH_SIZE_def
        c_malloc_def demo_heap_def ptrdiff_max_def sizeof_struct_coucal_def sizeof_coucal_item_def)
  show "custom demo0 = demo_custom" "pool_size (pool demo0) = 0" "calls demo0 = []" "pool demo0 = no_pool"
    by (simp_all add: new no_pool_def)
  show "hp_next (heap demo0) = 2" by (simp add: new)
  show "heap_refuses (heap demo0) = False" by (simp add: new heap_refuses_def demo_heap_def)
  show "coucal_inv demo0" "entries demo0 = {#}" "table_map demo0 = Map.empty"
    by (rule empty_table_inv; simp add: new)+
qed

lemma demo_write_facts:
  assumes "coucal_inv h" and "custom h = demo_custom" and "0 \<notin> set s"
    and "pool_size (pool h) + length s < 2 ^ 62"
  shows "coucal_inv (demo_write h s v)" and "custom (demo_write h s v) = demo_custom"
    and "pool_size (pool (demo_write h s v)) \<le> pool_size (pool h) + Suc (length s)"
    and "heap_refuses (heap (demo_write h s v)) = heap_refuses (heap h)"
proof -
  have "fits h s" using assms(3,4) by (simp add: fits_def)
  from write_value_correct [OF assms(1) _ this, of "KExt 0 s" v]
  consider (bad) a where "coucal_write_value h (KExt 0 s) v = Inl (AssertFailed a)"
    | (good) h' ret where "coucal_write_value h (KExt 0 s) v = Inr (h', ret)" "write_ok h s v h' ret"
    by auto
  note cases = this
  show "coucal_inv (demo_write h s v)" "custom (demo_write h s v) = demo_custom"
    "pool_size (pool (demo_write h s v)) \<le> pool_size (pool h) + Suc (length s)"
    "heap_refuses (heap (demo_write h s v)) = heap_refuses (heap h)"
    by (cases rule: cases; use assms in \<open>simp add: demo_write_def write_ok_def\<close>)+
qed

lemma demo3_facts [simp]:
  "coucal_inv demo3" "custom demo3 = demo_custom" "heap_refuses (heap demo3) = False"
proof -
  define d1 where "d1 = demo_write demo0 [97] 7"
  define d2 where "d2 = demo_write d1 [98] 8"
  have d1: "coucal_inv d1" "custom d1 = demo_custom" "pool_size (pool d1) \<le> 2" "\<not> heap_refuses (heap d1)"
    using demo_write_facts [of demo0 "[97]" 7] by (simp_all add: d1_def)
  have d2: "coucal_inv d2" "custom d2 = demo_custom" "pool_size (pool d2) \<le> 4" "\<not> heap_refuses (heap d2)"
    using demo_write_facts [of d1 "[98]" 8] d1 by (simp_all add: d2_def)
  show "coucal_inv demo3" "custom demo3 = demo_custom" "heap_refuses (heap demo3) = False"
    using demo_write_facts [of d2 "[99, 100]" 9] d2 by (simp_all add: demo3_def d1_def d2_def)
qed

lemma demo3_parts [simp]:
  "slots_inv demo3" "lookup_inv demo3" "pool_ok demo3" "key_dup (custom demo3) = None"
  using demo3_facts coucal_inv_lookup [of demo3]
  by (simp_all add: coucal_inv_def storage_inv_def demo_custom_def no_custom_def)

lemma demo_custom_simps [simp]:
  "equals_of demo_custom = (=)" "hash_of demo_custom s = \<lparr>hash1 = 1, hash2 = 2\<rparr>"
  "key_dup demo_custom = None" "key_free demo_custom = None" "key_equals demo_custom = None"
  "value_free demo_custom = Some DefaultFree" "value_arg demo_custom = 0"
  by (simp_all add: fun_eq_iff equals_of_def hash_of_def demo_custom_def no_custom_def demo_hash_def)

lemma demo3_key: "deref (pool demo3) (KPool 2 2) = Some [98]"
  by (simp add: deref_def c_string_at_def)

lemma demo3_map: "table_map demo3 [97] = Some 7" "table_map demo3 [98] = Some 8"
  "table_map demo3 [99, 100] = Some 9" "table_map demo3 [100] = None"
  using demo3_fields by (simp_all add: table_map_def item_is_def deref_def c_string_at_def)

text \<open>The same table when the allocator refuses every request from now on.\<close>

definition demo_refused :: struct_coucal where
  "demo_refused = demo3\<lparr>heap := (heap demo3)\<lparr>hp_ok := \<lambda>r n. False\<rparr>\<rparr>"

lemma demo_refused_facts [simp]:
  "coucal_inv demo_refused" "heap_refuses (heap demo_refused)" "custom demo_refused = demo_custom"
  "pool demo_refused = pool demo3" "table_map demo_refused = table_map demo3"
proof -
  show same: "custom demo_refused = demo_custom" "pool demo_refused = pool demo3"
    by (simp_all add: demo_refused_def)
  show "heap_refuses (heap demo_refused)" by (auto simp: demo_refused_def heap_refuses_def ptrdiff_max_def intro: exI [of _ 0])
  have live: "live demo_refused = live demo3" by (simp add: demo_refused_def live_def)
  have slots: "slots_inv demo_refused" using demo3_parts(1) by (simp add: demo_refused_def slots_inv_def table_inv_def)
  have eqs: "entries demo_refused = entries demo3" "live_names demo_refused = live_names demo3"
    using live by (simp_all add: entries_def live_names_def same)
  have "pool_inv (pool demo3) (heap demo_refused) (live_names demo3)"
    by (rule pool_inv_later [where hp = "heap demo3"]) (use demo3_parts(3) in \<open>simp_all add: demo_refused_def\<close>)
  then show "coucal_inv demo_refused"
    using demo3_facts(1) slots by (simp add: coucal_inv_def storage_inv_def eqs same) (simp add: demo_refused_def)
  have "item_is demo_refused = item_is demo3" by (intro ext) (simp add: item_is_def same)
  moreover have "items demo_refused = items demo3" "stash demo_refused = stash demo3"
    by (simp_all add: demo_refused_def)
  ultimately show "table_map demo_refused = table_map demo3" by (intro ext) (simp add: table_map_def)
qed

section \<open>A table of one key\<close>

text \<open>One key of one byte, in a pool of 256 bytes.\<close>

definition demo1 :: struct_coucal where
  "demo1 = demo_write demo0 [97] 7"

lemma demo1_view:
  "demo_view demo1 =
     (null_item # \<lparr>name = KPool 2 0, value = 7, hashes = \<lparr>hash1 = 1, hash2 = 2\<rparr>\<rparr> # replicate 14 null_item,
      empty_stash, \<lparr>buffer = Some (2, [97, 0]), pool_size = 2, capacity = 256, pool_used = 2\<rparr>, 4, 1, [])"
  by code_simp

lemma demo1_facts:
  "coucal_inv demo1" "custom demo1 = demo_custom" "\<not> heap_refuses (heap demo1)" "lg_size demo1 = 4"
  "used demo1 = 1" "pool_used (pool demo1) = 2" "pool_size (pool demo1) = 2" "capacity (pool demo1) = 256"
  "table_map demo1 [97] = Some 7"
proof -
  show facts: "coucal_inv demo1" "custom demo1 = demo_custom" "\<not> heap_refuses (heap demo1)"
    using demo_write_facts [of demo0 "[97]" 7] by (simp_all flip: demo1_def)
  show "lg_size demo1 = 4" "used demo1 = 1" "pool_used (pool demo1) = 2" "pool_size (pool demo1) = 2"
    "capacity (pool demo1) = 256" "table_map demo1 [97] = Some 7"
    using demo1_view [unfolded demo_view_def prod.inject] facts(2)
    by (simp_all add: table_map_def item_is_def deref_def c_string_at_def)
qed

section \<open>A table with a full stash\<close>

text \<open>
  The two positions of \<open>demo3\<close> where all its keys go are taken; here its stash is full too, of items
  with the same two positions.
\<close>

definition demo_item :: "nat \<Rightarrow> coucal_item" where
  "demo_item i = \<lparr>name = KExt i [of_nat (65 + i)], value = of_nat i, hashes = \<lparr>hash1 = 1, hash2 = 2\<rparr>\<rparr>"

definition demo_full :: struct_coucal where
  "demo_full = coucal_set_print_handler
     (demo3\<lparr>stash := \<lparr>stash_items = map demo_item [0..<16], stash_size = 16, extent = 16\<rparr>\<rparr>) (Some 1) (Some 2) 0"

lemma demo_full_simps [simp]:
  "lg_size demo_full = 4" "stash_size (stash demo_full) = 16" "extent (stash demo_full) = 16"
  "stash_items (stash demo_full) = map demo_item [0..<16]" "items demo_full = items demo3"
  "print_key (custom demo_full) = Some 1" "print_value (custom demo_full) = Some 2"
  by (simp_all add: demo_full_def coucal_set_print_handler_def)

lemma demo_item_simps [simp]: "name (demo_item i) \<noteq> KNull" "hash1 (hashes (demo_item i)) = 1"
    "hash2 (hashes (demo_item i)) = 2"
  by (simp_all add: demo_item_def)

lemma demo_full_inv: "slots_inv demo_full"
proof -
  have "size (live_of (map demo_item xs)) = length xs" for xs by (induction xs) simp_all
  then have "stash_inv (stash demo_full)" by (simp add: stash_inv_def stash_core_def STASH_SIZE_def)
  then show ?thesis using demo3_parts(1) by (simp add: slots_inv_def table_inv_def)
qed

lemma demo_full_refuses:
  "coucal_add_item_i demo_full (demo_item 16) = Inl (AssertFailed A_cuckoo_stash_collision)"
proof -
  have pos: "coucal_hash_to_pos_i 4 1 = Suc 0" "coucal_hash_to_pos_i 4 2 = Suc (Suc 0)"
    by (simp_all add: coucal_hash_to_pos_mod)
  note runs = cuckoo_loop.simps(2) [of 15, unfolded Suc_numeral add_num_simps]
    cuckoo_loop.simps(2) [of 14, unfolded Suc_numeral add_num_simps]
  have items: "items demo3 = null_item # \<lparr>name = KPool 2 4, value = 9, hashes = \<lparr>hash1 = 1, hash2 = 2\<rparr>\<rparr>
      # \<lparr>name = KPool 2 0, value = 7, hashes = \<lparr>hash1 = 1, hash2 = 2\<rparr>\<rparr> # replicate 13 null_item"
    using demo3_fields by simp
  show ?thesis
    by (simp add: coucal_add_item_i_def Let_def coucal_is_free_def coucal_hash_to_pos_def pos items runs
        next_cuckoo_hash_def set_item_def count_move_def emergency_stash_def STASH_SIZE_def)
qed

end
