(* ===== verification/Log.thy ===== *)
theory Log
  imports Api
begin

text \<open>
  Logging and failed assertions (\<open>src/coucal.c\<close>, \<open>src/coucal.h\<close>): the levels and the ones a build
  compiles in, the routing of a message to the table's handler, the global one or \<open>stderr\<close>, and
  what a failed assertion does before the process ends. A call to a handler or an output is an
  event; the text of a message is left out, only whether there is one.
\<close>

section \<open>Levels\<close>

datatype coucal_loglevel =
    coucal_log_critical
  | coucal_log_warning
  | coucal_log_info
  | coucal_log_debug
  | coucal_log_trace

text \<open>The numbers \<open>COUCAL_LOG_CRITICAL\<close> to \<open>COUCAL_LOG_TRACE\<close> of the compile-time setting.\<close>

fun level_number :: "coucal_loglevel \<Rightarrow> nat" where
  "level_number coucal_log_critical = 1"
| "level_number coucal_log_warning = 2"
| "level_number coucal_log_info = 3"
| "level_number coucal_log_debug = 4"
| "level_number coucal_log_trace = 5"

lemma level_number_inj [simp]: "level_number a = level_number b \<longleftrightarrow> a = b"
  by (cases a; cases b) simp_all

instantiation coucal_loglevel :: linorder
begin

definition less_eq_coucal_loglevel :: "coucal_loglevel \<Rightarrow> coucal_loglevel \<Rightarrow> bool" where
  "a \<le> b \<longleftrightarrow> level_number a \<le> level_number b"

definition less_coucal_loglevel :: "coucal_loglevel \<Rightarrow> coucal_loglevel \<Rightarrow> bool" where
  "a < b \<longleftrightarrow> level_number a < level_number b"

instance
  by standard (auto simp: less_eq_coucal_loglevel_def less_coucal_loglevel_def
      simp flip: level_number_inj)

end

text \<open>A value of \<open>COUCAL_LOG_LEVEL\<close> the header does not reject.\<close>

definition valid_log_level :: "nat \<Rightarrow> bool" where
  "valid_log_level n \<longleftrightarrow> \<not> (n < 1 \<or> 5 < n)"

text \<open>The five macros: critical messages are never compiled out.\<close>

definition compiled_in :: "nat \<Rightarrow> coucal_loglevel \<Rightarrow> bool" where
  "compiled_in n level =
     (case level of
        coucal_log_critical \<Rightarrow> True
      | coucal_log_warning \<Rightarrow> n \<ge> 2
      | coucal_log_info \<Rightarrow> n \<ge> 3
      | coucal_log_debug \<Rightarrow> n \<ge> 4
      | coucal_log_trace \<Rightarrow> n \<ge> 5)"

section \<open>Routing\<close>

record coucal_globals =
  global_assert_handler :: "nat option"
  global_log_handler :: "nat option"

definition no_globals :: coucal_globals where
  "no_globals = \<lparr>global_assert_handler = None, global_log_handler = None\<rparr>"

definition coucal_set_global_assert_handler ::
  "coucal_globals \<Rightarrow> nat option \<Rightarrow> nat option \<Rightarrow> coucal_globals" where
  "coucal_set_global_assert_handler g log fatal =
     g\<lparr>global_log_handler := log, global_assert_handler := fatal\<rparr>"

datatype log_event =
    TableLog nat coucal_opaque coucal_loglevel
  | GlobalLog nat coucal_loglevel
  | StderrLog coucal_loglevel
  | TableFatal nat coucal_opaque
  | GlobalFatal nat
  | StderrFatal
  | Aborted

text \<open>The part of \<open>coucal_log()\<close> after its assertion.\<close>

definition log_route ::
  "coucal_globals \<Rightarrow> struct_coucal option \<Rightarrow> coucal_loglevel \<Rightarrow> log_event" where
  "log_route g h level =
     (case map_option (\<lambda>t. (error_log (custom t), error_arg (custom t))) h of
        Some (Some f, arg) \<Rightarrow> TableLog f arg level
      | _ \<Rightarrow> (case global_log_handler g of Some f \<Rightarrow> GlobalLog f level | None \<Rightarrow> StderrLog level))"

text \<open>\<open>coucal_fail()\<close> prints and aborts; after any handler the process aborts all the same.\<close>

definition coucal_fail :: "log_event list" where
  "coucal_fail = [StderrFatal, Aborted]"

definition coucal_assert_failed :: "coucal_globals \<Rightarrow> struct_coucal option \<Rightarrow> log_event list" where
  "coucal_assert_failed g h =
     log_route g h coucal_log_critical #
     (case map_option (\<lambda>t. (error_fatal (custom t), error_arg (custom t))) h of
        Some (Some f, arg) \<Rightarrow> [TableFatal f arg, Aborted]
      | _ \<Rightarrow> (case global_assert_handler g of
                Some f \<Rightarrow> [GlobalFatal f, Aborted]
              | None \<Rightarrow> coucal_fail))"

definition coucal_log ::
  "coucal_globals \<Rightarrow> struct_coucal option \<Rightarrow> coucal_loglevel \<Rightarrow> string option \<Rightarrow> log_event list" where
  "coucal_log g h level format =
     (if format = None then coucal_assert_failed g h else [log_route g h level])"

text \<open>A call of \<open>coucal_crit()\<close> to \<open>coucal_trace()\<close> in a build with \<open>COUCAL_LOG_LEVEL\<close> \<open>n\<close>.\<close>

definition log_call ::
  "nat \<Rightarrow> coucal_globals \<Rightarrow> struct_coucal option \<Rightarrow> coucal_loglevel \<Rightarrow> string \<Rightarrow> log_event list" where
  "log_call n g h level format =
     (if compiled_in n level then coucal_log g h level (Some format) else [])"

section \<open>Facts\<close>

lemma compiled_in_level:
  "valid_log_level n \<Longrightarrow> compiled_in n level \<longleftrightarrow> level_number level \<le> n"
  by (auto simp: valid_log_level_def compiled_in_def split: coucal_loglevel.split)

lemma compiled_in_down: "valid_log_level n \<Longrightarrow> compiled_in n b \<Longrightarrow> a \<le> b \<Longrightarrow> compiled_in n a"
  by (simp add: compiled_in_level less_eq_coucal_loglevel_def)

text \<open>
  A failed assertion logs one critical message, makes one fatal call and aborts, whatever the
  handlers do: the table's handlers when it has some, else the global ones, else \<open>stderr\<close>.
\<close>

lemma failed_assertion_aborts:
  "last (coucal_assert_failed g h) = Aborted \<and> Aborted \<notin> set (butlast (coucal_assert_failed g h)) \<and>
   coucal_assert_failed g (Some (coucal_set_assert_handler t (Some a) (Some b) arg)) =
     [TableLog a arg coucal_log_critical, TableFatal b arg, Aborted] \<and>
   coucal_assert_failed (coucal_set_global_assert_handler g (Some a) (Some b)) None =
     [GlobalLog a coucal_log_critical, GlobalFatal b, Aborted] \<and>
   coucal_assert_failed no_globals None = [StderrLog coucal_log_critical, StderrFatal, Aborted]"
  by (auto simp: coucal_assert_failed_def coucal_fail_def log_route_def no_globals_def
      coucal_set_assert_handler_def coucal_set_global_assert_handler_def split: option.splits prod.splits)

text \<open>
  A build with \<open>COUCAL_LOG_LEVEL\<close> \<open>n\<close> logs exactly the messages of the levels numbered at most \<open>n\<close>,
  so a message that is logged stays logged at any more severe level, and critical messages
  always are.
\<close>

lemma log_levels:
  assumes "valid_log_level n"
  shows "(log_call n g h level m \<noteq> [] \<longleftrightarrow> level_number level \<le> n) \<and>
    (level' \<le> level \<and> log_call n g h level m \<noteq> [] \<longrightarrow> log_call n g h level' m \<noteq> []) \<and>
    log_call n g h coucal_log_critical m \<noteq> []"
  using compiled_in_level [OF assms] compiled_in_down [OF assms]
  by (auto simp: log_call_def coucal_log_def compiled_in_def)

lemma log_levels_witness:
  "log_call 3 no_globals None coucal_log_info ''m'' \<noteq> [] \<and>
   log_call 3 no_globals None coucal_log_debug ''m'' = []"
  using log_levels [of 3 no_globals None coucal_log_info "''m''" coucal_log_info]
    log_levels [of 3 no_globals None coucal_log_debug "''m''" coucal_log_info]
  by (simp add: valid_log_level_def)

end
