(* ===== verification/Diag.thy ===== *)
theory Diag
  imports Log
begin

text \<open>
  What the library reports about a table (\<open>src/coucal.c\<close>): the summary of \<open>coucal_log_stats()\<close>,
  and the report of \<open>coucal_add_item_()\<close> when neither the table nor the stash has room. The
  arguments of the messages are kept, their formatting is not. Here it is shown that the process is
  aborted after the report; its lines are given one by one in theory \<open>Report\<close>.
\<close>

section \<open>The summary\<close>

text \<open>
  The arguments of the message; the average is the quotient of the two counters given, \<open>None\<close>
  standing for \<open>0.0\<close> when nothing was added.
\<close>

record stats_summary =
  sum_name :: "byte list option"
  sum_size :: nat
  sum_lg_size :: nat
  sum_used :: nat
  sum_stash_size :: nat
  sum_pool_size :: nat
  sum_pool_capacity :: nat
  sum_pool_used :: nat
  sum_writes :: u64
  sum_new :: u64
  sum_moved :: u64
  sum_stashed :: u64
  sum_max_stash_size :: nat
  sum_avg_moved :: "(u64 \<times> u64) option"
  sum_rehash :: u64
  sum_pool_compact :: u64
  sum_pool_realloc :: u64
  sum_memory :: nat

definition stats_arguments :: "struct_coucal \<Rightarrow> stats_summary" where
  "stats_arguments h =
     (let st = stats h;
          avg_moved = (if add_count st \<noteq> 0 then Some (cuckoo_moved st, add_count st) else None)
      in \<lparr>sum_name = coucal_get_name (Some h),
          sum_size = POW2 (lg_size h), sum_lg_size = lg_size h, sum_used = used h,
          sum_stash_size = stash_size (stash h), sum_pool_size = pool_size (pool h),
          sum_pool_capacity = capacity (pool h), sum_pool_used = pool_used (pool h),
          sum_writes = write_count st, sum_new = add_count st, sum_moved = cuckoo_moved st,
          sum_stashed = stash_added st, sum_max_stash_size = max_stash_size st,
          sum_avg_moved = avg_moved, sum_rehash = rehash_count st,
          sum_pool_compact = pool_compact_count st, sum_pool_realloc = pool_realloc_count st,
          sum_memory = coucal_memory_size h\<rparr>)"

section \<open>The report on a full stash\<close>

text \<open>The printing handlers are calls; a cast of a position to \<open>int\<close> wraps.\<close>

definition c_int :: "nat \<Rightarrow> int" where
  "c_int n = sint (of_nat n :: u32)"

record item_text =
  text_key :: "nat \<times> coucal_opaque \<times> coucal_key"
  text_value :: "nat \<times> coucal_opaque \<times> coucal_value"
  text_pos1 :: int
  text_pos2 :: int
  text_hash1 :: u64
  text_hash2 :: u64

datatype dump_line = StashLine int item_text | CollidingLine item_text | FreeLine int

definition print_item :: "struct_coucal \<Rightarrow> nat \<Rightarrow> nat \<Rightarrow> coucal_item \<Rightarrow> item_text" where
  "print_item h f g it =
     \<lparr>text_key = (f, print_arg (custom h), name it),
      text_value = (g, print_arg (custom h), value it),
      text_pos1 = c_int (coucal_hash_to_pos h (hash1 (hashes it))),
      text_pos2 = c_int (coucal_hash_to_pos h (hash2 (hashes it))),
      text_hash1 = ucast (hash1 (hashes it)), text_hash2 = ucast (hash2 (hashes it))\<rparr>"

definition dump_neighbour :: "struct_coucal \<Rightarrow> nat \<Rightarrow> nat \<Rightarrow> nat \<Rightarrow> dump_line" where
  "dump_neighbour h f g pos =
     (if \<not> coucal_is_free h pos then CollidingLine (print_item h f g (items h ! pos))
      else FreeLine (c_int pos))"

definition dump_slot :: "struct_coucal \<Rightarrow> nat \<Rightarrow> nat \<Rightarrow> nat \<Rightarrow> dump_line list" where
  "dump_slot h f g i =
     (let item = stash_items (stash h) ! i;
          pos1 = coucal_hash_to_pos h (hash1 (hashes item));
          pos2 = coucal_hash_to_pos h (hash2 (hashes item))
      in if name item = KNull then []
         else [StashLine (c_int i) (print_item h f g item),
               dump_neighbour h f g pos1, dump_neighbour h f g pos2])"

definition stash_dump :: "struct_coucal \<Rightarrow> dump_line list" where
  "stash_dump h =
     (case (print_key (custom h), print_value (custom h)) of
        (Some f, Some g) \<Rightarrow> concat (map (dump_slot h f g) [0..<extent (stash h)])
      | _ \<Rightarrow> [])"

section \<open>The messages in order\<close>

datatype message_text = DumpText dump_line | SummaryText stats_summary | AssertionText

definition coucal_log_stats ::
  "nat \<Rightarrow> coucal_globals \<Rightarrow> struct_coucal \<Rightarrow> (log_event \<times> message_text) list" where
  "coucal_log_stats n g h =
     map (\<lambda>e. (e, SummaryText (stats_arguments h))) (log_call n g (Some h) coucal_log_info [])"

definition log_dump_line ::
  "nat \<Rightarrow> coucal_globals \<Rightarrow> struct_coucal \<Rightarrow> dump_line \<Rightarrow> (log_event \<times> message_text) list" where
  "log_dump_line n g h line =
     map (\<lambda>e. (e, DumpText line)) (log_call n g (Some h) coucal_log_critical [])"

text \<open>The branch of \<open>coucal_add_item_()\<close> that \<open>emergency_stash\<close> models by its failed assertion.\<close>

definition report_full_stash ::
  "nat \<Rightarrow> coucal_globals \<Rightarrow> struct_coucal \<Rightarrow> (log_event \<times> message_text) list" where
  "report_full_stash n g h =
     concat (map (log_dump_line n g h) (stash_dump h)) @ coucal_log_stats n g h @
     map (\<lambda>e. (e, AssertionText)) (coucal_assert_failed g (Some h))"

section \<open>The end of the report\<close>

lemma last_assert_failed: "coucal_assert_failed g h \<noteq> []" "last (coucal_assert_failed g h) = Aborted"
  by (auto simp: coucal_assert_failed_def coucal_fail_def split: option.splits)

lemma report_ends_aborted: "fst (last (report_full_stash n g h)) = Aborted"
  by (simp add: report_full_stash_def last_map last_assert_failed)

end
