(* ===== verification/Messages.thy ===== *)
theory Messages
  imports Diag Remove
begin

text \<open>
  The messages the operations of \<open>src/coucal.c\<close> log on their way, with their arguments and levels,
  and computations that log: the messages so far and the result. Printing a key as a string reads
  it, so a message can fail on a key that is not live. The facts are about the projections of a
  computation and about how the messages of a build depend on its \<open>COUCAL_LOG_LEVEL\<close>.
\<close>

section \<open>Messages\<close>

text \<open>What stands for a key in a message: a call of the client's handler, or the key as a string.\<close>

datatype key_text = PrintedBy nat coucal_opaque coucal_key | AsString "byte list"

datatype message =
    CollisionWith key_text nat u64      \<comment> \<open>debug:collision with ... at ... (...)\<close>
  | PlacingCuckoo key_text nat u64      \<comment> \<open>debug:placing cuckoo ... at ... (...)\<close>
  | FreePosition
  | KickedFrom1                         \<comment> \<open>debug:position 1\<close>
  | KickedFrom2                         \<comment> \<open>debug:position 2\<close>
  | UsedStash int                       \<comment> \<open>used stash because of collision\<close>
  | MovedFromStash int
  | DeletedInStash int
  | StashStillFull nat nat
  | TableAllocationError nat
  | ExpandedTable nat
  | ReducedStash nat nat
  | StashHasStill nat
  | CompactionError nat
  | CompactedPool nat nat nat
  | PoolAllocationError nat
  | ReallocatedPool nat nat
  | KeyStagingError nat
  | DumpMessage dump_line
  | SummaryMessage stats_summary
  | AssertionMessage assertion          \<comment> \<open>hashtable ...: ... failed at ...\<close>

fun message_level :: "message \<Rightarrow> coucal_loglevel" where
  "message_level (CollisionWith k pos hk) = coucal_log_trace"
| "message_level (PlacingCuckoo k pos hk) = coucal_log_trace"
| "message_level FreePosition = coucal_log_trace"
| "message_level KickedFrom1 = coucal_log_trace"
| "message_level KickedFrom2 = coucal_log_trace"
| "message_level (UsedStash k) = coucal_log_debug"
| "message_level (MovedFromStash k) = coucal_log_debug"
| "message_level (DeletedInStash k) = coucal_log_debug"
| "message_level (StashStillFull n k) = coucal_log_warning"
| "message_level (TableAllocationError n) = coucal_log_critical"
| "message_level (ExpandedTable n) = coucal_log_debug"
| "message_level (ReducedStash old k) = coucal_log_debug"
| "message_level (StashHasStill k) = coucal_log_trace"
| "message_level (CompactionError n) = coucal_log_debug"
| "message_level (CompactedPool c old k) = coucal_log_debug"
| "message_level (PoolAllocationError n) = coucal_log_critical"
| "message_level (ReallocatedPool c n) = coucal_log_debug"
| "message_level (KeyStagingError n) = coucal_log_critical"
| "message_level (DumpMessage line) = coucal_log_critical"
| "message_level (SummaryMessage s) = coucal_log_info"
| "message_level (AssertionMessage a) = coucal_log_critical"

definition compiled :: "nat \<Rightarrow> message \<Rightarrow> bool" where
  "compiled n msg = compiled_in n (message_level msg)"

abbreviation critical :: "message \<Rightarrow> bool" where
  "critical msg \<equiv> message_level msg = coucal_log_critical"

section \<open>Computations that log\<close>

type_synonym 'a logged = "message list \<times> 'a res"

definition bind_log :: "'a logged \<Rightarrow> ('a \<Rightarrow> 'b logged) \<Rightarrow> 'b logged" where
  "bind_log m f =
     (case snd m of Inl e \<Rightarrow> (fst m, Inl e) | Inr x \<Rightarrow> (fst m @ fst (f x), snd (f x)))"

definition done_log :: "'a \<Rightarrow> 'a logged" where
  "done_log x = ([], Inr x)"

text \<open>A step that logs nothing of its own; an assertion that fails in it logs its message.\<close>

definition run_log :: "'a res \<Rightarrow> 'a logged" where
  "run_log r = (case r of Inl (AssertFailed a) \<Rightarrow> [AssertionMessage a] | _ \<Rightarrow> [], r)"

text \<open>A call of a logging function in a build with \<open>COUCAL_LOG_LEVEL\<close> \<open>n\<close>; several calls in a row.\<close>

definition say :: "nat \<Rightarrow> message \<Rightarrow> unit logged" where
  "say n msg = (if compiled n msg then [msg] else [], Inr ())"

definition say_all :: "nat \<Rightarrow> message list \<Rightarrow> unit logged" where
  "say_all n msgs = (filter (compiled n) msgs, Inr ())"

definition coucal_print_key :: "struct_coucal \<Rightarrow> coucal_key \<Rightarrow> key_text res" where
  "coucal_print_key h nm =
     (case print_key (custom h) of
        Some f \<Rightarrow> Inr (PrintedBy f (print_arg (custom h)) nm)
      | None \<Rightarrow> bind_res (read_key h nm) (\<lambda>s. Inr (AsString s)))"

text \<open>\<open>coucal_trace()\<close> of a key; when it is compiled out its arguments are not evaluated.\<close>

definition trace_key ::
  "nat \<Rightarrow> struct_coucal \<Rightarrow> coucal_key \<Rightarrow> (key_text \<Rightarrow> message) \<Rightarrow> unit logged" where
  "trace_key n h nm msg =
     (if compiled_in n coucal_log_trace
      then bind_log (run_log (coucal_print_key h nm)) (\<lambda>t. say n (msg t))
      else done_log ())"

text \<open>What a message is for the outside: a failed assertion also calls the fatal handler.\<close>

definition deliver :: "coucal_globals \<Rightarrow> struct_coucal \<Rightarrow> message list \<Rightarrow> log_event list" where
  "deliver g h msgs =
     concat (map (\<lambda>msg. case msg of
         AssertionMessage a \<Rightarrow> coucal_assert_failed g (Some h)
       | _ \<Rightarrow> coucal_log g (Some h) (message_level msg) (Some [])) msgs)"

section \<open>The result without the messages\<close>

named_theorems erase_simps "the result of a computation that logs"

lemma snd_bind_log [erase_simps]: "snd (bind_log m f) = bind_res (snd m) (\<lambda>x. snd (f x))"
  by (cases "snd m") (simp_all add: bind_log_def)

lemma snd_steps [simp, erase_simps]:
  "snd (done_log x) = Inr x" "snd (run_log r) = r" "snd (say n msg) = Inr ()"
  "snd (say_all n msgs) = Inr ()"
  by (simp_all add: done_log_def run_log_def say_def say_all_def)

lemma snd_trace_key [erase_simps]:
  "snd (trace_key n h nm msg) =
     (if compiled_in n coucal_log_trace \<and> print_key (custom h) = None \<and> deref (pool h) nm = None
      then Inl BadPointer else Inr ())"
  by (simp add: trace_key_def snd_bind_log coucal_print_key_def read_key_def split: option.split)

lemma bind_log_cong [fundef_cong]:
  "m = m' \<Longrightarrow> (\<And>x. snd m' = Inr x \<Longrightarrow> f x = f' x) \<Longrightarrow> bind_log m f = bind_log m' f'"
  by (auto simp: bind_log_def split: sum.split)

lemma bind_log_eq_Inr:
  "snd (bind_log m f) = Inr y \<longleftrightarrow> (\<exists>x. snd m = Inr x \<and> snd (f x) = Inr y)"
  by (simp add: snd_bind_log bind_res_eq_Inr)

lemma fst_bind_log: "snd m = Inr x \<Longrightarrow> fst (bind_log m f) = fst m @ fst (f x)"
  by (simp add: bind_log_def)

lemma bind_done_log [simp]: "bind_log (done_log x) f = f x"
  by (simp add: bind_log_def done_log_def)

section \<open>What every operation's messages satisfy\<close>

text \<open>
  The end of the log by the result: no critical message when the operation succeeds; when an
  assertion fails its message is the last, and the only one of its kind.
\<close>

fun is_assertion :: "message \<Rightarrow> bool" where
  "is_assertion (AssertionMessage a) = True"
| "is_assertion msg = False"

lemma assertion_critical: "is_assertion msg \<Longrightarrow> critical msg"
  by (cases msg) simp_all

definition log_ends :: "message list \<Rightarrow> 'a res \<Rightarrow> bool" where
  "log_ends msgs r \<longleftrightarrow>
     (case r of
        Inr x \<Rightarrow> \<not> (\<exists>msg \<in> set msgs. critical msg)
      | Inl (AssertFailed a) \<Rightarrow>
          msgs \<noteq> [] \<and> last msgs = AssertionMessage a \<and> \<not> (\<exists>msg \<in> set (butlast msgs). is_assertion msg)
      | Inl e \<Rightarrow> \<not> (\<exists>msg \<in> set msgs. is_assertion msg))"

text \<open>
  The contract of a family of computations by the log level: at each level the result is \<open>r\<close>, the
  messages are those of the trace level that are compiled in, and the log ends as the result asks.
\<close>

definition logs :: "(nat \<Rightarrow> 'a logged) \<Rightarrow> 'a res \<Rightarrow> bool" where
  "logs m r \<longleftrightarrow>
     (\<forall>n. valid_log_level n \<longrightarrow>
        snd (m n) = r \<and> fst (m n) = filter (compiled n) (fst (m 5)) \<and> log_ends (fst (m n)) r)"

lemma valid_trace_level: "valid_log_level 5"
  by (simp add: valid_log_level_def)

lemma compiled_all [simp]: "compiled_in 5 level" "compiled 5 msg"
  by (simp_all add: compiled_def compiled_in_def split: coucal_loglevel.split)

lemma compiled_critical [simp]: "critical msg \<Longrightarrow> compiled n msg"
  by (simp add: compiled_def compiled_in_def)

lemma logsD:
  assumes "logs m r" and "valid_log_level n"
  shows "snd (m n) = r" and "fst (m n) = filter (compiled n) (fst (m 5))" and "log_ends (fst (m n)) r"
proof -
  have "snd (m n) = r \<and> fst (m n) = filter (compiled n) (fst (m 5)) \<and> log_ends (fst (m n)) r"
    using assms unfolding logs_def by blast
  then show "snd (m n) = r" and "fst (m n) = filter (compiled n) (fst (m 5))" and "log_ends (fst (m n)) r"
    by blast+
qed

lemma logs_run [intro]: "logs (\<lambda>n. run_log r) r"
  by (auto simp: logs_def run_log_def log_ends_def split: sum.split coucal_error.split)

lemma logs_done [intro]: "logs (\<lambda>n. done_log x) (Inr x)"
  by (simp add: logs_def done_log_def log_ends_def)

lemma logs_say [intro]: "\<not> critical msg \<Longrightarrow> logs (\<lambda>n. say n msg) (Inr ())"
  by (simp add: logs_def say_def log_ends_def)

lemma log_ends_bind:
  assumes "log_ends ms r" and "\<And>x. r = Inr x \<Longrightarrow> log_ends ms' (f x)"
  shows "log_ends (case r of Inl e \<Rightarrow> ms | Inr x \<Rightarrow> ms @ ms') (bind_res r f)"
proof (cases r)
  case (Inr x)
  then have quiet: "\<not> (\<exists>msg \<in> set ms. critical msg)" and "log_ends ms' (f x)"
    using assms by (simp_all add: log_ends_def)
  moreover have "\<not> (\<exists>msg \<in> set ms. is_assertion msg)" using quiet assertion_critical by blast
  ultimately show ?thesis
    by (cases "f x") (use Inr in \<open>auto simp: log_ends_def butlast_append
        split: coucal_error.splits\<close>)
qed (use assms(1) in \<open>auto simp: log_ends_def split: coucal_error.splits\<close>)

lemma logs_bind:
  assumes m: "logs m r" and f: "\<And>x. r = Inr x \<Longrightarrow> logs (\<lambda>n. f n x) (g x)"
  shows "logs (\<lambda>n. bind_log (m n) (f n)) (bind_res r g)"
  unfolding logs_def
proof (intro allI impI)
  fix n assume n: "valid_log_level n"
  note M = logsD [OF m] and n5 = valid_trace_level
  show "snd (bind_log (m n) (f n)) = bind_res r g \<and>
      fst (bind_log (m n) (f n)) = filter (compiled n) (fst (bind_log (m 5) (f 5))) \<and>
      log_ends (fst (bind_log (m n) (f n))) (bind_res r g)"
  proof (cases r)
    case (Inl e)
    then show ?thesis using M [OF n] M [OF n5] by (simp add: bind_log_def log_ends_def)
  next
    case (Inr x)
    note F = logsD [OF f [OF Inr]]
    have "log_ends (fst (m n) @ fst (f n x)) (bind_res r g)"
      using log_ends_bind [of "fst (m n)" r "fst (f n x)" g] M(3) [OF n] F(3) [OF n] Inr by simp
    then show ?thesis
      using Inr M(1,2) [OF n] M(1) [OF n5] F(1,2) [OF n] by (simp add: bind_log_def)
  qed
qed

lemma logs_say_then [intro]:
  "\<not> critical msg \<Longrightarrow> logs m r \<Longrightarrow> logs (\<lambda>n. bind_log (say n msg) (\<lambda>_. m n)) r"
  using logs_bind [OF logs_say, of msg "\<lambda>n _. m n" "\<lambda>_. r"] by simp

text \<open>Critical messages only come before a failed assertion.\<close>

lemma logs_complain:
  assumes "\<not> (\<exists>msg \<in> set msgs. is_assertion msg)"
  shows "logs (\<lambda>n. bind_log (say_all n msgs) (\<lambda>_. run_log (Inl (AssertFailed a)))) (Inl (AssertFailed a))"
  using assms by (auto simp: logs_def bind_log_def say_all_def run_log_def log_ends_def)

lemma logs_trace_key:
  assumes "print_key (custom h) = None \<longrightarrow> deref (pool h) nm \<noteq> None" and "\<And>t. message_level (msg t) = coucal_log_trace"
  shows "logs (\<lambda>n. trace_key n h nm msg) (Inr ())"
  using assms
  by (auto simp: logs_def trace_key_def bind_log_def run_log_def coucal_print_key_def read_key_def say_def
      done_log_def compiled_def log_ends_def split: option.splits)

text \<open>What the outside sees of a failure: one fatal call at the end, and the process aborts.\<close>

lemma deliver_append [simp]: "deliver g h (xs @ ys) = deliver g h xs @ deliver g h ys"
  by (simp add: deliver_def)

lemma deliver_assertion [simp]: "deliver g h [AssertionMessage a] = coucal_assert_failed g (Some h)"
  by (simp add: deliver_def)

lemma deliver_quiet:
  "\<not> (\<exists>msg \<in> set msgs. is_assertion msg) \<Longrightarrow>
   deliver g h msgs = map (\<lambda>msg. log_route g (Some h) (message_level msg)) msgs"
  by (induction msgs) (auto simp: deliver_def coucal_log_def split: message.split)

end
