(* ===== verification/Trace.thy ===== *)
theory Trace
  imports Messages
begin

text \<open>
  The operations of \<open>src/coucal.c\<close> with the messages they log: adding an item with its cuckoo moves,
  draining and merging the stash, growing and compacting the pool, and the write and the removal
  built of them. \<open>n\<close> is the \<open>COUCAL_LOG_LEVEL\<close> of the build. Each function follows its C function
  call by call; steps that log nothing are those of the theories \<open>Table\<close>, \<open>Pool\<close>, \<open>Write\<close> and
  \<open>Remove\<close>, under \<open>run_log\<close>.
\<close>

section \<open>Adding an item\<close>

definition next_cuckoo_hash_log ::
  "nat \<Rightarrow> struct_coucal \<Rightarrow> nat \<Rightarrow> coucal_item \<Rightarrow> u32 logged" where
  "next_cuckoo_hash_log n h pos item =
     (if pos = coucal_hash_to_pos h (hash1 (hashes item)) then
        bind_log (say n KickedFrom1) (\<lambda>_. done_log (hash2 (hashes item)))
      else if pos = coucal_hash_to_pos h (hash2 (hashes item)) then
        bind_log (say n KickedFrom2) (\<lambda>_. done_log (hash1 (hashes item)))
      else run_log (Inl (AssertFailed A_unexpected_position)))"

fun cuckoo_loop_log ::
  "nat \<Rightarrow> nat \<Rightarrow> struct_coucal \<Rightarrow> coucal_item \<Rightarrow> u32 \<Rightarrow> u32 \<Rightarrow> (struct_coucal \<times> coucal_item option) logged"
where
  "cuckoo_loop_log n 0 h item cuckoo_hash initial_cuckoo_hash = done_log (h, Some item)"
| "cuckoo_loop_log n (Suc loops) h item cuckoo_hash initial_cuckoo_hash =
     (let pos = coucal_hash_to_pos h cuckoo_hash in
      bind_log (trace_key n h (name item) (\<lambda>t. PlacingCuckoo t pos (ucast cuckoo_hash))) (\<lambda>_.
      if coucal_is_free h pos then
        bind_log (say n FreePosition) (\<lambda>_. done_log (set_item h pos item, None))
      else
        let backup_item = items h ! pos;
            h = count_move (set_item h pos item);
            item = backup_item
        in bind_log (next_cuckoo_hash_log n h pos item) (\<lambda>cuckoo_hash.
             if cuckoo_hash = initial_cuckoo_hash then done_log (h, Some item)
             else cuckoo_loop_log n loops h item cuckoo_hash initial_cuckoo_hash)))"

definition emergency_stash_log ::
  "nat \<Rightarrow> struct_coucal \<Rightarrow> coucal_item \<Rightarrow> (struct_coucal \<times> int) logged" where
  "emergency_stash_log n h item =
     (if stash_size (stash h) < STASH_SIZE then
        bind_log (run_log (emergency_stash h item)) (\<lambda>(h, ret).
        bind_log (say n (UsedStash (c_int (stash_size (stash h))))) (\<lambda>_. done_log (h, ret)))
      else
        bind_log (say_all n (map DumpMessage (stash_dump h) @ [SummaryMessage (stats_arguments h)])) (\<lambda>_.
          run_log (Inl (AssertFailed A_cuckoo_stash_collision))))"

text \<open>The position told with the first message is that of the second hash, the hash is the first.\<close>

definition coucal_add_item_log ::
  "nat \<Rightarrow> struct_coucal \<Rightarrow> coucal_item \<Rightarrow> (struct_coucal \<times> int) logged" where
  "coucal_add_item_log n h item =
     (let pos = coucal_hash_to_pos h (hash1 (hashes item)) in
      if coucal_is_free h pos then done_log (set_item h pos item, 1)
      else
        let pos = coucal_hash_to_pos h (hash2 (hashes item)) in
        if coucal_is_free h pos then done_log (set_item h pos item, 1)
        else
          let cuckoo_hash = hash1 (hashes item) in
          bind_log (trace_key n h (name item) (\<lambda>t. CollisionWith t pos (ucast cuckoo_hash))) (\<lambda>_.
          bind_log (cuckoo_loop_log n (POW2 (lg_size h)) h item cuckoo_hash cuckoo_hash) (\<lambda>r.
            case r of
              (h, None) \<Rightarrow> done_log (h, 1)
            | (h, Some item) \<Rightarrow> emergency_stash_log n h item)))"

section \<open>Draining the stash\<close>

definition drain_slot_log :: "nat \<Rightarrow> struct_coucal \<Rightarrow> nat \<Rightarrow> struct_coucal logged" where
  "drain_slot_log n h i =
     (let item = stash_items (stash h) ! i in
      if name item \<noteq> KNull \<and>
         (coucal_is_free h (coucal_hash_to_pos h (hash1 (hashes item))) \<or>
          coucal_is_free h (coucal_hash_to_pos h (hash2 (hashes item)))) then
        let h = drain_slot h i in
        bind_log (say n (MovedFromStash (c_int (stash_size (stash h))))) (\<lambda>_. done_log h)
      else done_log h)"

fun drain_slots_log :: "nat \<Rightarrow> struct_coucal \<Rightarrow> nat list \<Rightarrow> struct_coucal logged" where
  "drain_slots_log n h [] = done_log h"
| "drain_slots_log n h (i # is) = bind_log (drain_slot_log n h i) (\<lambda>h. drain_slots_log n h is)"

definition coucal_drain_stash_log :: "nat \<Rightarrow> struct_coucal \<Rightarrow> struct_coucal logged" where
  "coucal_drain_stash_log n h =
     bind_log (drain_slots_log n h [0..<extent (stash h)]) (\<lambda>h.
       done_log (set_extent h (trim_extent (stash_items (stash h)) (extent (stash h)))))"

section \<open>The pool\<close>

text \<open>\<open>count\<close> in \<open>coucal_compact_pool()\<close> and \<open>coucal_realloc_pool()\<close>: the strings moved.\<close>

definition pooled_count :: "struct_coucal \<Rightarrow> nat" where
  "pooled_count h =
     length (filter (\<lambda>it. name it \<noteq> KNull \<and> name it \<noteq> KEmpty)
       (take (POW2 (lg_size h)) (items h) @ take (extent (stash h)) (stash_items (stash h))))"

text \<open>The message of a compaction that fails is a debug message, unlike the other failures.\<close>

definition coucal_compact_pool_log :: "nat \<Rightarrow> struct_coucal \<Rightarrow> nat \<Rightarrow> struct_coucal logged" where
  "coucal_compact_pool_log n h cap =
     bind_log (run_log (assert_res (key_dup (custom h) = None) (AssertFailed A_no_dup_handler))) (\<lambda>_.
     bind_log (if fst (c_malloc (heap h) cap) = None then say n (CompactionError cap) else done_log ()) (\<lambda>_.
     bind_log (run_log (coucal_compact_pool h cap)) (\<lambda>h'.
     bind_log (say n (CompactedPool (pooled_count h) (pool_size (pool h)) (pool_size (pool h')))) (\<lambda>_.
       done_log h'))))"

text \<open>The strings are counted only when the block moves.\<close>

definition coucal_realloc_pool_log :: "nat \<Rightarrow> struct_coucal \<Rightarrow> nat \<Rightarrow> struct_coucal logged" where
  "coucal_realloc_pool_log n h cap =
     bind_log (run_log (assert_res (key_dup (custom h) = None) (AssertFailed A_no_dup_handler))) (\<lambda>_.
     if pool_used (pool h) < size_mul (pool_size (pool h)) 3 div 4 then coucal_compact_pool_log n h cap
     else
       let oldbase = map_option fst (buffer (pool h)); r = fst (c_realloc (heap h) oldbase cap) in
       if r = None then
         bind_log (say_all n [PoolAllocationError cap]) (\<lambda>_.
           run_log (Inl (AssertFailed A_pool_allocation_error)))
       else
         bind_log (run_log (coucal_realloc_pool h cap)) (\<lambda>h'.
         bind_log (say n (ReallocatedPool (if r \<noteq> oldbase then pooled_count h else 0) cap)) (\<lambda>_.
           done_log h')))"

definition stage_key_log ::
  "nat \<Rightarrow> struct_coucal \<Rightarrow> coucal_key \<Rightarrow> nat \<Rightarrow> (struct_coucal \<times> coucal_key) logged" where
  "stage_key_log n h nm len =
     (if coucal_is_pooled h nm \<and> fst (c_malloc (heap h) len) = None then
        bind_log (say_all n [KeyStagingError len]) (\<lambda>_. run_log (Inl (AssertFailed A_key_staging_error)))
      else run_log (stage_key h nm len))"

definition expand_pool_log ::
  "nat \<Rightarrow> struct_coucal \<Rightarrow> coucal_key \<Rightarrow> nat \<Rightarrow> (struct_coucal \<times> coucal_key) logged" where
  "expand_pool_log n h nm len =
     bind_log (stage_key_log n h nm len) (\<lambda>(h, nm).
       case pool_capacity_for MIN_POOL_CAPACITY (size_add (pool_size (pool h)) len) of
         None \<Rightarrow> run_log (Inl Diverges)
       | Some cap \<Rightarrow>
           bind_log (run_log (assert_res (pool_size (pool h) < cap) (AssertFailed A_pool_size_lt_capacity)))
             (\<lambda>_. bind_log (coucal_realloc_pool_log n h cap) (\<lambda>h. done_log (h, nm))))"

definition coucal_dup_name_internal_log ::
  "nat \<Rightarrow> struct_coucal \<Rightarrow> coucal_key \<Rightarrow> (struct_coucal \<times> coucal_key) logged" where
  "coucal_dup_name_internal_log n h nm =
     bind_log (run_log (read_key h nm)) (\<lambda>s.
       let len = size_add (length s) 1 in
       if len = 1 then done_log (h, KEmpty)
       else
         bind_log (run_log (assert_res (pool_size (pool h) \<le> capacity (pool h))
                     (AssertFailed A_pool_size_le_capacity))) (\<lambda>_.
         bind_log
           (if size_sub (capacity (pool h)) (pool_size (pool h)) < len then expand_pool_log n h nm len
            else done_log (h, nm))
           (\<lambda>(h, nm). run_log (append_key h nm len))))"

definition coucal_dup_name_log ::
  "nat \<Rightarrow> struct_coucal \<Rightarrow> coucal_key \<Rightarrow> (struct_coucal \<times> coucal_key) logged" where
  "coucal_dup_name_log n h nm =
     (if key_dup (custom h) = None then coucal_dup_name_internal_log n h nm
      else run_log (coucal_dup_name h nm))"

definition compact_holes_log :: "nat \<Rightarrow> struct_coucal \<Rightarrow> struct_coucal logged" where
  "compact_holes_log n h =
     (let p = pool h in
      if pool_used p \<noteq> 0 \<and> pool_used p < pool_size p div 2 then
        let cap = (if pool_used p < capacity p div 4 then capacity p div 2 else capacity p)
        in bind_log (run_log (assert_res (pool_used p < cap) (AssertFailed A_pool_used_lt_capacity)))
             (\<lambda>_. coucal_compact_pool_log n h cap)
      else done_log h)"

definition coucal_free_key_internal_log :: "nat \<Rightarrow> struct_coucal \<Rightarrow> coucal_key \<Rightarrow> struct_coucal logged" where
  "coucal_free_key_internal_log n h nm =
     bind_log (run_log (read_key h nm)) (\<lambda>s.
       let len = size_add (length s) 1 in
       if len = 1 \<and> nm = KEmpty then done_log h
       else
         bind_log (run_log (assert_res (s \<noteq> []) (AssertFailed A_duplicate_or_bad_release))) (\<lambda>_.
           case (nm, buffer (pool h)) of
             (KPool b off, Some (b', bs)) \<Rightarrow>
               bind_log (run_log (poke bs off 0)) (\<lambda>bs.
                 compact_holes_log n
                   (h\<lparr>pool := (pool h)\<lparr>pool_used := size_sub (pool_used (pool h)) len,
                                     buffer := Some (b', bs)\<rparr>\<rparr>))
           | _ \<Rightarrow> run_log (Inl BadPointer)))"

definition coucal_free_key_log :: "nat \<Rightarrow> struct_coucal \<Rightarrow> coucal_key \<Rightarrow> struct_coucal logged" where
  "coucal_free_key_log n h nm =
     (if key_free (custom h) = None then coucal_free_key_internal_log n h nm
      else run_log (coucal_free_key h nm))"

section \<open>Writing\<close>

definition add_new_log ::
  "nat \<Rightarrow> struct_coucal \<Rightarrow> coucal_key \<Rightarrow> coucal_value \<Rightarrow> coucal_hashkeys \<Rightarrow> (struct_coucal \<times> int) logged" where
  "add_new_log n h nm v hk =
     (let h = count_add h in
      bind_log (if stash_size (stash h) \<noteq> 0 then coucal_drain_stash_log n h else done_log h) (\<lambda>h.
      bind_log (coucal_dup_name_log n h nm) (\<lambda>(h, k).
        coucal_add_item_log n h \<lparr>name = k, value = v, hashes = hk\<rparr>)))"

definition coucal_write_value_i_log ::
  "nat \<Rightarrow> struct_coucal \<Rightarrow> coucal_key \<Rightarrow> coucal_value \<Rightarrow> (struct_coucal \<times> int) logged" where
  "coucal_write_value_i_log n h nm v =
     bind_log (run_log (coucal_calc_hashes h nm)) (\<lambda>hk.
      let h = count_write h;
          pos = coucal_hash_to_pos h (hash1 hk) in
      bind_log (run_log (coucal_matches h pos nm hk)) (\<lambda>m.
      if m then done_log (set_value (coucal_del_value h pos) (InTable pos) v, 0)
      else
        let pos = coucal_hash_to_pos h (hash2 hk) in
        bind_log (run_log (coucal_matches h pos nm hk)) (\<lambda>m.
        if m then done_log (set_value (coucal_del_value h pos) (InTable pos) v, 0)
        else
          bind_log (run_log (if stash_size (stash h) \<noteq> 0 then stash_search h nm hk 0 (extent (stash h))
                             else Inr None)) (\<lambda>r.
          case r of
            Some i \<Rightarrow> done_log (set_value (coucal_del_value_i h (InStash i)) (InStash i) v, 0)
          | None \<Rightarrow> add_new_log n h nm v hk))))"

fun merge_items_log :: "nat \<Rightarrow> struct_coucal \<Rightarrow> coucal_item list \<Rightarrow> struct_coucal logged" where
  "merge_items_log n h [] = done_log h"
| "merge_items_log n h (it # xs) =
     (if name it \<noteq> KNull then
        bind_log (coucal_add_item_log n h it) (\<lambda>(h, ret).
          if ret = 0 then run_log (Inl (AssertFailed A_duplicate_merging_stash))
          else merge_items_log n h xs)
      else merge_items_log n h xs)"

definition merge_stash_log :: "nat \<Rightarrow> struct_coucal \<Rightarrow> struct_coucal logged" where
  "merge_stash_log n h =
     (if stash_size (stash h) \<noteq> 0 then
        let old_extent = extent (stash h); old_size = stash_size (stash h);
            saved = stash_items (stash h);
            h = h\<lparr>stash := \<lparr>stash_items = replicate STASH_SIZE null_item, stash_size = 0, extent = 0\<rparr>\<rparr>
        in bind_log (merge_items_log n h (take old_extent saved)) (\<lambda>h.
             if stash_size (stash h) \<le> old_size then
               bind_log (if stash_size (stash h) < old_size
                         then say n (ReducedStash old_size (stash_size (stash h)))
                         else say n (StashHasStill (stash_size (stash h)))) (\<lambda>_. done_log h)
             else run_log (Inl (AssertFailed A_stash_size_le_old_size)))
      else done_log h)"

definition expand_table_log :: "nat \<Rightarrow> struct_coucal \<Rightarrow> nat \<Rightarrow> struct_coucal logged" where
  "expand_table_log n h half_size =
     (let prev_power = lg_size h;
          prev_size = size_mul half_size 2;
          prev_alloc_size = size_mul prev_size sizeof_coucal_item;
          size_overflow = (prev_size > size_max div (2 * sizeof_coucal_item));
          alloc_size = (if size_overflow then 0 else size_mul prev_alloc_size 2) in
      bind_log
        (if STASH_SIZE div 2 \<le> stash_size (stash h) \<and> POW2 16 < half_size \<and> used h < half_size div 4
         then say n (StashStillFull (used h) (size_mul half_size 2)) else done_log ()) (\<lambda>_.
      let h = count_rehash h;
          h = h\<lparr>lg_size := size_add (lg_size h) 1\<rparr>
      in bind_log (run_log (assert_res (coucal_is_acceptable_pow2 (lg_size h)) (AssertFailed A_acceptable_pow2))) (\<lambda>_.
         bind_log (run_log (assert_res (\<not> size_overflow) (AssertFailed A_size_overflow))) (\<lambda>_.
         let (r, hp) = c_malloc (heap h) alloc_size; h = h\<lparr>heap := hp\<rparr> in
         case r of
           None \<Rightarrow> bind_log (say_all n [TableAllocationError alloc_size]) (\<lambda>_.
             run_log (Inl (AssertFailed A_hashtable_allocation_error)))
         | Some b \<Rightarrow>
             let h = h\<lparr>items := take prev_size (items h) @ replicate prev_size null_item\<rparr>
             in bind_log (run_log (relocate_lower prev_power prev_size h 0 prev_size)) (\<lambda>h.
                bind_log (say n (ExpandedTable (POW2 (lg_size h)))) (\<lambda>_. merge_stash_log n h))))))"

definition coucal_write_value_log ::
  "nat \<Rightarrow> struct_coucal \<Rightarrow> coucal_key \<Rightarrow> coucal_value \<Rightarrow> (struct_coucal \<times> int) logged" where
  "coucal_write_value_log n h nm v =
     bind_log (coucal_write_value_i_log n h nm v) (\<lambda>(h, ret).
       if ret \<noteq> 0 then
         let half_size = POW2 (size_sub (lg_size h) 1);
             half_stash_size = STASH_SIZE div 2;
             h = h\<lparr>used := size_add (used h) 1\<rparr>
         in if half_size \<le> used h \<or> half_stash_size \<le> stash_size (stash h) then
              bind_log (expand_table_log n h half_size) (\<lambda>h. done_log (h, ret))
            else done_log (h, ret)
       else done_log (h, ret))"

definition coucal_inc_i_log ::
  "nat \<Rightarrow> struct_coucal \<Rightarrow> coucal_key \<Rightarrow> u64 \<Rightarrow> (struct_coucal \<times> u64) logged" where
  "coucal_inc_i_log n h nm inc =
     bind_log (run_log (coucal_fetch_value h nm)) (\<lambda>r.
       case r of
         Some loc \<Rightarrow>
           let h = set_value h loc (value (item_at h loc) + inc)
           in done_log (h, value (item_at h loc))
       | None \<Rightarrow>
           bind_log (coucal_write_value_log n h nm inc) (\<lambda>(h, ret).
             if ret \<noteq> 0 then done_log (h, inc) else run_log (Inl (AssertFailed A_inc_ret))))"

section \<open>Removing and deleting\<close>

definition coucal_del_name_log :: "nat \<Rightarrow> struct_coucal \<Rightarrow> location \<Rightarrow> struct_coucal logged" where
  "coucal_del_name_log n h loc =
     (let it = item_at h loc; nm = name it;
          h = set_at h loc (it\<lparr>name := KNull, hashes := null_hashkeys\<rparr>)
      in coucal_free_key_log n h nm)"

definition coucal_del_item_log :: "nat \<Rightarrow> struct_coucal \<Rightarrow> location \<Rightarrow> struct_coucal logged" where
  "coucal_del_item_log n h loc = coucal_del_name_log n (coucal_del_value_i h loc) loc"

definition coucal_remove_i_log ::
  "nat \<Rightarrow> struct_coucal \<Rightarrow> coucal_key \<Rightarrow> coucal_hashkeys \<Rightarrow> (struct_coucal \<times> int) logged" where
  "coucal_remove_i_log n h nm hk =
     (let pos = coucal_hash_to_pos h (hash1 hk) in
      bind_log (run_log (coucal_matches h pos nm hk)) (\<lambda>m.
      if m then bind_log (coucal_del_item_log n h (InTable pos)) (\<lambda>h. done_log (h, 1))
      else
        let pos = coucal_hash_to_pos h (hash2 hk) in
        bind_log (run_log (coucal_matches h pos nm hk)) (\<lambda>m.
        if m then bind_log (coucal_del_item_log n h (InTable pos)) (\<lambda>h. done_log (h, 1))
        else
          bind_log (run_log (if stash_size (stash h) \<noteq> 0 then stash_search h nm hk 0 (extent (stash h))
                             else Inr None)) (\<lambda>r.
          case r of
            Some i \<Rightarrow> bind_log (coucal_del_item_log n h (InStash i)) (\<lambda>h.
              let h = trim_stash h in
              bind_log (say n (DeletedInStash (c_int (stash_size (stash h))))) (\<lambda>_. done_log (h, 1)))
          | None \<Rightarrow> done_log (h, 0)))))"

definition coucal_remove_log :: "nat \<Rightarrow> struct_coucal \<Rightarrow> coucal_key \<Rightarrow> (struct_coucal \<times> int) logged" where
  "coucal_remove_log n h nm =
     bind_log (run_log (coucal_calc_hashes h nm)) (\<lambda>hk.
     bind_log (coucal_remove_i_log n h nm hk) (\<lambda>(h, ret).
       if ret \<noteq> 0 then
         bind_log (run_log (assert_res (used h \<noteq> 0) (AssertFailed A_used_nonzero))) (\<lambda>_.
           done_log (h\<lparr>used := size_sub (used h) 1\<rparr>, ret))
       else done_log (h, ret)))"

definition coucal_delete_log ::
  "nat \<Rightarrow> struct_coucal option option \<Rightarrow> (struct_coucal option option \<times> handler_call list) logged" where
  "coucal_delete_log n ph =
     (case ph of
        Some (Some h) \<Rightarrow>
          bind_log (say n (SummaryMessage (stats_arguments h))) (\<lambda>_. run_log (coucal_delete ph))
      | _ \<Rightarrow> run_log (coucal_delete ph))"

end
