(* ===== verification/TraceCorrect.thy ===== *)
theory TraceCorrect
  imports Trace
begin

text \<open>
  Logging does not interfere: at each log level an operation has the result it has without its
  messages, the messages are those of the trace level that are compiled in, and they end as the
  result asks. For the messages that print a key as a string this rests on the invariant: the key
  is that of a live item or the one in hand, whose string is in the pool when it is printed.
\<close>

section \<open>Rules for the contract\<close>

lemma logs_eq: "logs m r' \<Longrightarrow> r' = r \<Longrightarrow> logs m r"
  by simp

lemma logs_if:
  "(c \<Longrightarrow> logs m r) \<Longrightarrow> (\<not> c \<Longrightarrow> logs m' r') \<Longrightarrow>
   logs (\<lambda>n. if c then m n else m' n) (if c then r else r')"
  by simp

lemma logs_option:
  "logs m r \<Longrightarrow> (\<And>x. z = Some x \<Longrightarrow> logs (\<lambda>n. m' n x) (r' x)) \<Longrightarrow>
   logs (\<lambda>n. case z of None \<Rightarrow> m n | Some x \<Rightarrow> m' n x) (case z of None \<Rightarrow> r | Some x \<Rightarrow> r' x)"
  by (cases z) simp_all

lemma logs_pair:
  "(\<And>x y. z = (x, y) \<Longrightarrow> logs (\<lambda>n. m n x y) (r x y)) \<Longrightarrow>
   logs (\<lambda>n. case z of (x, y) \<Rightarrow> m n x y) (case z of (x, y) \<Rightarrow> r x y)"
  by (cases z) simp

lemma logs_key:
  "logs m r \<Longrightarrow> logs m' r' \<Longrightarrow> (\<And>b off. logs (\<lambda>n. mp n b off) (rp b off)) \<Longrightarrow>
   (\<And>a s. logs (\<lambda>n. me n a s) (re a s)) \<Longrightarrow>
   logs (\<lambda>n. case k of KNull \<Rightarrow> m n | KEmpty \<Rightarrow> m' n | KPool b off \<Rightarrow> mp n b off | KExt a s \<Rightarrow> me n a s)
     (case k of KNull \<Rightarrow> r | KEmpty \<Rightarrow> r' | KPool b off \<Rightarrow> rp b off | KExt a s \<Rightarrow> re a s)"
  by (cases k) simp_all

text \<open>
  A loud failure is matched before the general rule for a bind, whose first part must be quiet.
\<close>

lemma logs_message: "message_level msg \<noteq> coucal_log_critical \<Longrightarrow> logs (\<lambda>n. say n msg) (Inr ())"
  by (rule logs_say)

lemmas logs_rules = logs_complain logs_bind logs_if logs_option logs_pair logs_key logs_run logs_done logs_message

lemma bind_res_Inr [simp]: "bind_res r Inr = r" "bind_res q (\<lambda>(x, y). Inr (x, y)) = q"
  by (cases r; simp) (cases q; auto)

section \<open>The pool's messages\<close>

lemma logs_compact_pool:
  "logs (\<lambda>n. coucal_compact_pool_log n h cap) (coucal_compact_pool h cap)"
  unfolding coucal_compact_pool_log_def
  by (rule logs_eq, (rule logs_rules | (simp; fail))+) (simp add: coucal_compact_pool_def Let_def)

lemma realloc_pool_refused:
  assumes "key_dup (custom h) = None" and "\<not> pool_used (pool h) < size_mul (pool_size (pool h)) 3 div 4"
    and "fst (c_realloc (heap h) (map_option fst (buffer (pool h))) cap) = None"
  shows "coucal_realloc_pool h cap = Inl (AssertFailed A_pool_allocation_error)"
proof -
  obtain hp where "c_realloc (heap h) (map_option fst (buffer (pool h))) cap = (None, hp)"
    using assms(3) by (metis prod.collapse)
  then show ?thesis using assms(1,2) by (simp add: coucal_realloc_pool_def count_realloc_def Let_def)
qed

lemma realloc_pool_compacts:
  "key_dup (custom h) = None \<Longrightarrow> pool_used (pool h) < size_mul (pool_size (pool h)) 3 div 4 \<Longrightarrow>
   coucal_realloc_pool h cap = coucal_compact_pool h cap"
  by (simp add: coucal_realloc_pool_def)

lemma realloc_pool_handler:
  "key_dup (custom h) \<noteq> None \<Longrightarrow> coucal_realloc_pool h cap = Inl (AssertFailed A_no_dup_handler)"
  by (auto simp: coucal_realloc_pool_def Let_def)

lemma logs_realloc_pool:
  "logs (\<lambda>n. coucal_realloc_pool_log n h cap) (coucal_realloc_pool h cap)"
  unfolding coucal_realloc_pool_log_def Let_def
  by (rule logs_eq, (rule logs_rules logs_compact_pool | (simp; fail))+)
    (use realloc_pool_handler realloc_pool_compacts realloc_pool_refused in auto)

lemma logs_stage_key: "logs (\<lambda>n. stage_key_log n h nm len) (stage_key h nm len)"
  unfolding stage_key_log_def
  by (rule logs_eq, (rule logs_rules | (simp; fail))+) (auto simp: stage_key_def Let_def split: prod.splits)

lemma logs_expand_pool: "logs (\<lambda>n. expand_pool_log n h nm len) (expand_pool h nm len)"
  unfolding expand_pool_log_def expand_pool_def
  by (rule logs_eq, (rule logs_rules logs_stage_key logs_realloc_pool | (simp; fail))+)

lemma logs_dup_name: "logs (\<lambda>n. coucal_dup_name_log n h nm) (coucal_dup_name h nm)"
proof -
  have "logs (\<lambda>n. coucal_dup_name_internal_log n h nm) (coucal_dup_name_internal h nm)"
    unfolding coucal_dup_name_internal_log_def coucal_dup_name_internal_def Let_def
    by (rule logs_eq, (rule logs_rules logs_expand_pool | (simp; fail))+)
  then show ?thesis
    by (cases "key_dup (custom h)") (auto simp: coucal_dup_name_log_def coucal_dup_name_def)
qed

lemma logs_free_key: "logs (\<lambda>n. coucal_free_key_log n h nm) (coucal_free_key h nm)"
proof -
  have holes: "logs (\<lambda>n. compact_holes_log n h) (compact_holes h)" for h
    unfolding compact_holes_log_def compact_holes_def Let_def
    by (rule logs_eq, (rule logs_rules logs_compact_pool | (simp; fail))+)
  have "logs (\<lambda>n. coucal_free_key_internal_log n h nm) (coucal_free_key_internal h nm)"
    unfolding coucal_free_key_internal_log_def coucal_free_key_internal_def Let_def
    by (rule logs_eq, (rule logs_rules holes | (simp; fail))+)
  then show ?thesis
    by (cases "key_free (custom h)") (auto simp: coucal_free_key_log_def coucal_free_key_def)
qed

section \<open>The messages of the table and the stash\<close>

text \<open>A key that a message may show: one the client's handler prints, or one whose string is there.\<close>

definition printable :: "struct_coucal \<Rightarrow> coucal_key \<Rightarrow> bool" where
  "printable h k \<longleftrightarrow> print_key (custom h) = None \<longrightarrow> deref (pool h) k \<noteq> None"

definition all_printable :: "struct_coucal \<Rightarrow> coucal_item multiset \<Rightarrow> bool" where
  "all_printable h M \<longleftrightarrow> (\<forall>it \<in># M. printable h (name it))"

lemma printable_cong:
  assumes "pool h' = pool h" and "custom h' = custom h"
  shows "printable h' k = printable h k" and "all_printable h' M = all_printable h M"
  using assms by (simp_all add: all_printable_def printable_def)

lemma all_printable_simps [simp]:
  "all_printable h {#}"
  "all_printable h (add_mset it M) \<longleftrightarrow> printable h (name it) \<and> all_printable h M"
  "all_printable h (M + M') \<longleftrightarrow> all_printable h M \<and> all_printable h M'"
  by (auto simp: all_printable_def)

lemma all_printable_take: "all_printable h (live_of xs) \<Longrightarrow> all_printable h (live_of (take n xs))"
  unfolding all_printable_def by (metis in_live_of in_set_takeD)

lemma content_printable: "content_ok (custom h) (entries h) \<Longrightarrow> all_printable h (live h)"
  unfolding all_printable_def printable_def by (metis live_entry option.distinct(1))

lemma logs_trace:
  "printable h k \<Longrightarrow> (\<And>t. message_level (msg t) = coucal_log_trace) \<Longrightarrow>
   logs (\<lambda>n. trace_key n h k msg) (Inr ())"
  by (rule logs_trace_key) (simp_all add: printable_def)

lemma logs_next_cuckoo_hash:
  "logs (\<lambda>n. next_cuckoo_hash_log n h pos it) (next_cuckoo_hash h pos it)"
  unfolding next_cuckoo_hash_log_def
  by (rule logs_eq, (rule logs_rules | (simp; fail))+) (simp add: next_cuckoo_hash_def)

lemma logs_cuckoo_loop:
  assumes "table_inv h" and "name item \<noteq> KNull" and "ch \<in> {hash1 (hashes item), hash2 (hashes item)}"
    and "all_printable h (add_mset item (live_of (items h)))"
  shows "logs (\<lambda>n. cuckoo_loop_log n loops h item ch ch0) (cuckoo_loop loops h item ch ch0)"
  using assms
proof (induction loops arbitrary: h item ch)
  case 0
  then show ?case by (simp add: logs_done)
next
  case (Suc loops)
  let ?pos = "coucal_hash_to_pos h ch"
  let ?h = "count_move (set_item h ?pos item)" and ?it = "items h ! ?pos"
  have rest: "logs (\<lambda>n. cuckoo_loop_log n loops ?h ?it ch' ch0) (cuckoo_loop loops ?h ?it ch' ch0)"
    if taken: "\<not> coucal_is_free h ?pos" and hash: "next_cuckoo_hash ?h ?pos ?it = Inr ch'" for ch'
  proof -
    have name: "name ?it \<noteq> KNull" using taken by (simp add: coucal_is_free_def)
    note D = displace_correct [OF Suc.prems(1-3) name]
    have same: "pool ?h = pool h" "custom ?h = custom h" by (simp_all add: count_move_def set_item_def)
    have "all_printable ?h (add_mset ?it (live_of (items ?h)))"
      using Suc.prems(4) unfolding D(4) printable_cong [OF same] .
    moreover have "ch' \<in> {hash1 (hashes ?it), hash2 (hashes ?it)}" using D(3) hash by auto
    ultimately show ?thesis using Suc.IH [OF D(1) name] by blast
  qed
  have "printable h (name item)" using Suc.prems(4) by simp
  then show ?case
    unfolding cuckoo_loop_log.simps Let_def
    by - (rule logs_eq, (rule logs_trace logs_next_cuckoo_hash rest logs_rules | assumption | (simp; fail))+,
      simp add: Let_def)
qed

lemma logs_emergency_stash: "logs (\<lambda>n. emergency_stash_log n h item) (emergency_stash h item)"
proof (cases "stash_size (stash h) < STASH_SIZE")
  case True
  then show ?thesis
    unfolding emergency_stash_log_def
    by simp (rule logs_eq, (rule logs_rules | (simp; fail))+)
next
  case False
  have "\<not> (\<exists>msg \<in> set (map DumpMessage (stash_dump h) @ [SummaryMessage (stats_arguments h)]). is_assertion msg)"
    by auto
  from logs_complain [OF this] False show ?thesis
    by (simp add: emergency_stash_log_def emergency_stash_def)
qed

lemma logs_add_item:
  assumes inv: "slots_inv h" and "name item \<noteq> KNull" and print: "all_printable h (add_mset item (live h))"
  shows "logs (\<lambda>n. coucal_add_item_log n h item) (coucal_add_item_i h item)"
proof -
  have loop: "logs (\<lambda>n. cuckoo_loop_log n (POW2 (lg_size h)) h item (hash1 (hashes item)) (hash1 (hashes item)))
      (cuckoo_loop (POW2 (lg_size h)) h item (hash1 (hashes item)) (hash1 (hashes item)))"
    using assms by (intro logs_cuckoo_loop) (simp_all add: slots_inv_def live_def)
  have "printable h (name item)" using print by simp
  then show ?thesis
    unfolding coucal_add_item_log_def coucal_add_item_i_def Let_def
    by - (rule logs_eq, (rule logs_trace loop logs_emergency_stash logs_rules | assumption | (simp; fail))+)
qed

lemma logs_drain_stash: "logs (\<lambda>n. coucal_drain_stash_log n h) (Inr (coucal_drain_stash h))"
proof -
  have slot: "logs (\<lambda>n. drain_slot_log n h i) (Inr (drain_slot h i))" for h i
    unfolding drain_slot_log_def Let_def
    by (rule logs_eq, (rule logs_rules | (simp; fail))+) (auto simp: drain_slot_def Let_def)
  have slots: "logs (\<lambda>n. drain_slots_log n h is) (Inr (foldl drain_slot h is))" for h "is"
  proof (induction "is" arbitrary: h)
    case (Cons i "is")
    show ?case
      unfolding drain_slots_log.simps by (rule logs_eq, (rule slot Cons.IH logs_rules)+) simp
  qed (simp add: logs_done)
  show ?thesis
    unfolding coucal_drain_stash_log_def
    by (rule logs_eq, (rule slots logs_rules | (simp; fail))+)
      (simp add: coucal_drain_stash_def Let_def)
qed

section \<open>The messages of a rehash\<close>

lemma logs_merge_items:
  assumes "slots_inv h" and "all_printable h (live h + live_of xs)"
  shows "logs (\<lambda>n. merge_items_log n h xs) (merge_items h xs)"
  using assms
proof (induction xs arbitrary: h)
  case (Cons it xs)
  show ?case
  proof (cases "name it = KNull")
    case True
    then show ?thesis using Cons by simp
  next
    case False
    have add: "logs (\<lambda>n. coucal_add_item_log n h it) (coucal_add_item_i h it)"
      using Cons.prems False by (intro logs_add_item) simp_all
    have rest: "logs (\<lambda>n. merge_items_log n h' xs) (merge_items h' xs)"
      if "coucal_add_item_i h it = Inr (h', ret)" for h' ret
    proof -
      from coucal_add_item_correct [OF Cons.prems(1) False] that
      have h': "slots_frame h h'" "slots_inv h'" "live h' = add_mset it (live h)" by auto
      note same = slots_frameD [OF h'(1)]
      have "all_printable h' (live h' + live_of xs)"
        using Cons.prems(2) False by (simp add: printable_cong [OF same(3,4)] h'(3))
      then show ?thesis by (rule Cons.IH [OF h'(2)])
    qed
    have "logs (\<lambda>n. merge_items_log n (fst p) xs) (merge_items (fst p) xs)"
      if "coucal_add_item_i h it = Inr p" for p
      using rest [of "fst p" "snd p"] that by simp
    then show ?thesis
      using False logs_bind [OF add, where f = "\<lambda>n (h, ret). if ret = 0 then run_log (Inl (AssertFailed A_duplicate_merging_stash))
          else merge_items_log n h xs"]
      by (simp add: case_prod_beta' logs_if logs_run)
  qed
qed (simp add: logs_done)

lemma logs_merge_stash:
  assumes inv: "slots_inv h" and print: "all_printable h (live h)"
  shows "logs (\<lambda>n. merge_stash_log n h) (merge_stash h)"
proof -
  let ?h = "h\<lparr>stash := \<lparr>stash_items = replicate STASH_SIZE null_item, stash_size = 0, extent = 0\<rparr>\<rparr>"
  have "slots_inv ?h"
    using inv by (simp add: slots_inv_def table_inv_def stash_inv_def stash_core_def STASH_SIZE_def)
  moreover have "all_printable ?h (live ?h + live_of (take (extent (stash h)) (stash_items (stash h))))"
    using print all_printable_take [of h "stash_items (stash h)"]
      printable_cong(2) [of ?h h] by (simp add: live_def)
  ultimately have items: "logs (\<lambda>n. merge_items_log n ?h (take (extent (stash h)) (stash_items (stash h))))
      (merge_items ?h (take (extent (stash h)) (stash_items (stash h))))"
    by (rule logs_merge_items)
  show ?thesis
    unfolding merge_stash_log_def merge_stash_def Let_def
    by (rule logs_eq, (rule items logs_rules | (simp; fail))+) (simp cong: if_cong)
qed

lemma relocated_facts:
  assumes inv: "slots_inv h" and "coucal_is_acceptable_pow2 (size_add (lg_size h) 1)"
    and size: "prev_size = size_mul (2 ^ (lg_size h - 1)) 2"
    and "hp = (heap h)\<lparr>hp_next := Suc (hp_next (heap h))\<rparr>"
    and run: "relocate_lower (lg_size h) prev_size
      (count_rehash h\<lparr>lg_size := size_add (lg_size h) 1, heap := hp,
         items := take prev_size (items h) @ replicate prev_size null_item\<rparr>) 0 prev_size = Inr h2"
  shows "slots_inv h2" and "live h2 = live h" and "pool h2 = pool h" and "custom h2 = custom h"
proof -
  have tinv: "table_inv h" using inv by (simp add: slots_inv_def)
  note tD = table_invD [OF tinv]
  have lg: "lg_size h \<le> 31"
    using assms(2) tD(1) by (simp add: coucal_is_acceptable_pow2_def COUCAL_HASH_SIZE_def)
  note sizes = doubling_sizes [OF tD(2) lg]
  obtain h3 where h3: "relocate_lower (lg_size h) (2 ^ lg_size h) (enlarged h hp) 0 (2 ^ lg_size h) = Inr h3"
      "slots_inv h3" "live h3 = live h" "stash h3 = stash h" "expanded h h3"
    using relocate_enlarged [OF inv lg assms(4)] by blast
  have "h2 = h3" using run h3(1) sizes(1,2) tD(3) by (simp add: size enlarged_def)
  then show "slots_inv h2" "live h2 = live h" "pool h2 = pool h" "custom h2 = custom h"
    using h3 by (simp_all add: expanded_def)
qed

lemma logs_expand_table:
  assumes inv: "slots_inv h" and print: "all_printable h (live h)" and half: "half = 2 ^ (lg_size h - 1)"
  shows "logs (\<lambda>n. expand_table_log n h half) (expand_table h half)"
proof -
  define prev_size where "prev_size = size_mul half 2"
  define overflow where "overflow = (prev_size > size_max div (2 * sizeof_coucal_item))"
  define alloc where "alloc = (if overflow then 0 else size_mul (size_mul prev_size sizeof_coucal_item) 2)"
  let ?h1 = "count_rehash h\<lparr>lg_size := size_add (lg_size (count_rehash h)) 1\<rparr>"
  have merge: "logs (\<lambda>n. merge_stash_log n h4) (merge_stash h4)"
    if "relocate_lower (lg_size h) prev_size (?h1\<lparr>heap := hp, items :=
        take prev_size (items (?h1\<lparr>heap := hp\<rparr>)) @ replicate prev_size null_item\<rparr>) 0 prev_size = Inr h4"
      and "assert_res (coucal_is_acceptable_pow2 (lg_size ?h1)) (AssertFailed A_acceptable_pow2) = Inr u"
      and "c_malloc (heap ?h1) alloc = (r, hp)"
    for h4 u r hp
  proof -
    have same: "lg_size (count_rehash h) = lg_size h" "items (count_rehash h) = items h"
        "heap (count_rehash h) = heap h" by (simp_all add: count_rehash_def)
    have "hp = (heap h)\<lparr>hp_next := Suc (hp_next (heap h))\<rparr>"
      using that(3) by (auto simp: c_malloc_def same)
    then have h4: "slots_inv h4" "live h4 = live h" "pool h4 = pool h" "custom h4 = custom h"
      using relocated_facts [OF inv, of prev_size hp h4] that(1,2) by (simp_all add: same prev_size_def half)
    then show ?thesis using print by (intro logs_merge_stash) (simp_all add: printable_cong(2) [OF h4(3,4)])
  qed
  have alone: "\<not> (\<exists>msg \<in> set [TableAllocationError k]. is_assertion msg)" for k by simp
  show ?thesis
    unfolding expand_table_log_def expand_table_def Let_def prev_size_def [symmetric]
      overflow_def [symmetric] alloc_def [symmetric]
    by (rule logs_eq, (rule merge alone logs_rules | assumption |
          (simp only: message_level.simps coucal_loglevel.distinct not_False_eq_True; fail))+)
      (simp only: if_cancel bind_res_simps)
qed

section \<open>The messages of a write\<close>

lemma logs_add_new:
  assumes inv: "coucal_inv h" and nm: "deref (pool h) nm = Some s" and fits: "fits h s"
  shows "logs (\<lambda>n. add_new_log n h nm v hk) (add_new h nm v hk)"
proof -
  have item: "logs (\<lambda>n. coucal_add_item_log n h2 \<lparr>name = k, value = v, hashes = hk\<rparr>)
      (coucal_add_item_i h2 \<lparr>name = k, value = v, hashes = hk\<rparr>)"
    if "coucal_dup_name (drained h) nm = Inr (h2, k)" for h2 k
  proof -
    obtain t where "copied h s h2 k t" using drained_dup_name [OF inv nm fits] \<open>_ = Inr (h2, k)\<close> by auto
    then have C: "key_in_hand h2 k t" "slots_inv h2" "custom h2 = custom h" "entries h2 = entries h"
      by (simp_all add: copied_def)
    then have "all_printable h2 (live h2)" using inv by (intro content_printable) (simp add: coucal_inv_def)
    moreover have "k \<noteq> KNull" "printable h2 k"
      using C(1) by (simp_all add: key_in_hand_def printable_def)
    ultimately show ?thesis by (intro logs_add_item [OF C(2)]) simp_all
  qed
  have drain: "logs (\<lambda>n. if stash_size (stash (count_add h)) \<noteq> 0 then coucal_drain_stash_log n (count_add h)
        else done_log (count_add h)) (Inr (drained h))"
    unfolding drained_def by (cases "stash_size (stash h) = 0") (simp_all add: logs_drain_stash logs_done)
  show ?thesis
    unfolding add_new_log_def add_new_eq Let_def
    by (rule logs_eq, (rule drain logs_dup_name logs_pair item logs_bind | simp)+)
qed

lemma logs_write_value_i:
  assumes inv: "coucal_inv h" and nm: "deref (pool h) nm = Some s" and fits: "fits h s"
  shows "logs (\<lambda>n. coucal_write_value_i_log n h nm v) (coucal_write_value_i h nm v)"
proof -
  have new: "logs (\<lambda>n. add_new_log n (count_write h) nm v hk) (add_new (count_write h) nm v hk)" for hk
    using assms by (intro logs_add_new) (simp_all add: fits_def)
  show ?thesis
    unfolding coucal_write_value_i_log_def coucal_write_value_i_def Let_def
      add_new_def [unfolded Let_def, symmetric]
    by (rule logs_eq, (rule new logs_rules | (simp; fail))+)
qed

lemma logs_write_value:
  assumes inv: "coucal_inv h" and nm: "deref (pool h) nm = Some s" and fits: "fits h s"
  shows "logs (\<lambda>n. coucal_write_value_log n h nm v) (coucal_write_value h nm v)"
proof -
  have expand: "logs (\<lambda>n. expand_table_log n (h1\<lparr>used := u\<rparr>) (POW2 (size_sub (lg_size h1) 1)))
      (expand_table (h1\<lparr>used := u\<rparr>) (POW2 (size_sub (lg_size h1) 1)))"
    if run: "coucal_write_value_i h nm v = Inr (h1, ret)" and "ret \<noteq> 0" for h1 ret u
  proof -
    have inv1: "coucal_inv (h1\<lparr>used := Suc (used h)\<rparr>)"
      using write_value_i_correct [OF assms, of v] that by auto
    then have slots: "slots_inv h1" and "content_ok (custom h1) (entries h1)"
      unfolding coucal_inv_used by simp_all
    then have "all_printable h1 (live h1)" by (intro content_printable)
    then have print: "all_printable (h1\<lparr>used := u\<rparr>) (live (h1\<lparr>used := u\<rparr>))"
      using printable_cong(2) [of "h1\<lparr>used := u\<rparr>" h1] by (simp add: live_def)
    have "slots_inv (h1\<lparr>used := u\<rparr>)" using slots by (simp add: slots_inv_def table_inv_def)
    moreover have "lg_size h1 \<le> 32" "4 \<le> lg_size h1" using slots by (simp_all add: slots_inv_def table_invD)
    ultimately show ?thesis using print by (intro logs_expand_table) simp_all
  qed
  show ?thesis
    unfolding coucal_write_value_log_def coucal_write_value_def Let_def
    by (rule logs_eq, (rule logs_write_value_i [OF assms] expand logs_rules | assumption | (simp; fail))+)
qed

lemma logs_inc_i:
  assumes "coucal_inv h" and "deref (pool h) nm = Some s" and "fits h s"
  shows "logs (\<lambda>n. coucal_inc_i_log n h nm k) (coucal_inc_i h nm k)"
  unfolding coucal_inc_i_log_def coucal_inc_i_def coucal_write_def Let_def
  by (rule logs_eq, (rule logs_write_value [OF assms] logs_rules | (simp; fail))+)

section \<open>The messages of a removal and of a deletion\<close>

lemma logs_remove: "logs (\<lambda>n. coucal_remove_log n h nm) (coucal_remove h nm)"
proof -
  have item: "logs (\<lambda>n. coucal_del_item_log n h loc) (coucal_del_item h loc)" for h loc
    unfolding coucal_del_item_log_def coucal_del_item_def coucal_del_name_log_def coucal_del_name_def Let_def
    by (rule logs_free_key)
  have "logs (\<lambda>n. coucal_remove_i_log n h nm hk) (coucal_remove_i h nm hk)" for hk
    unfolding coucal_remove_i_log_def coucal_remove_i_def Let_def
    by (rule logs_eq, (rule item logs_rules | (simp; fail))+) (simp only: bind_res_simps)
  then show ?thesis
    unfolding coucal_remove_log_def coucal_remove_def
    by - (rule logs_eq, (rule logs_rules | assumption | (simp; fail))+)
qed

lemma logs_delete: "logs (\<lambda>n. coucal_delete_log n ph) (coucal_delete ph)"
proof -
  have "logs (\<lambda>n. bind_log (say n (SummaryMessage (stats_arguments h))) (\<lambda>_. run_log (coucal_delete ph)))
      (coucal_delete ph)" for h
    by (intro logs_say_then logs_run) simp
  then show ?thesis
    by (cases ph; cases "the ph") (simp_all add: coucal_delete_log_def logs_run)
qed

section \<open>Two messages that mislead\<close>

text \<open>
  On a collision the trace shows the position of the second hash, \<open>pos\<close> having been set again for
  the second test, beside the first hash.
\<close>

lemma collision_shows_other_position:
  assumes "\<not> coucal_is_free h (coucal_hash_to_pos h (hash1 (hashes item)))"
    and "\<not> coucal_is_free h (coucal_hash_to_pos h (hash2 (hashes item)))"
    and "print_key (custom h) = None" and "deref (pool h) (name item) = Some s"
  shows "\<exists>rest. fst (coucal_add_item_log 5 h item) =
    CollisionWith (AsString s) (coucal_hash_to_pos h (hash2 (hashes item))) (ucast (hash1 (hashes item))) # rest"
  using assms
  by (simp add: coucal_add_item_log_def Let_def trace_key_def bind_log_def run_log_def say_def
      coucal_print_key_def read_key_def)

text \<open>A compaction that finds no memory says so at the debug level only: by default nothing is said.\<close>

lemma refused_compaction_unexplained:
  assumes "key_dup (custom h) = None" and "fst (c_malloc (heap h) cap) = None"
  shows "fst (coucal_compact_pool_log 3 h cap) = [AssertionMessage A_pool_compaction_error]"
    and "fst (coucal_compact_pool_log 4 h cap) =
      [CompactionError cap, AssertionMessage A_pool_compaction_error]"
proof -
  obtain hp where m: "c_malloc (heap h) cap = (None, hp)" using assms(2) by (metis prod.collapse)
  then have "coucal_compact_pool h cap = Inl (AssertFailed A_pool_compaction_error)"
    using assms(1) by (simp add: coucal_compact_pool_def count_compact_def)
  then show "fst (coucal_compact_pool_log 3 h cap) = [AssertionMessage A_pool_compaction_error]"
    and "fst (coucal_compact_pool_log 4 h cap) =
      [CompactionError cap, AssertionMessage A_pool_compaction_error]"
    using assms by (simp_all add: coucal_compact_pool_log_def bind_log_def run_log_def say_def done_log_def
        compiled_def compiled_in_def)
qed

end
