(* ===== verification/TraceStats.thy ===== *)
theory TraceStats
  imports TraceCorrect
begin

text \<open>
  The statistics of a table are what its log tells: in a build that compiles every message in, a
  successful write moves each counter by the number of messages of the matching kind. A message
  is read as a step on the statistics (\<open>tell\<close>), and each operation's log, read in order from the
  statistics before, gives those after.
\<close>

section \<open>Reading a log\<close>

fun tell :: "message \<Rightarrow> coucal_stats \<Rightarrow> coucal_stats" where
  "tell KickedFrom1 st = st\<lparr>cuckoo_moved := cuckoo_moved st + 1\<rparr>"
| "tell KickedFrom2 st = st\<lparr>cuckoo_moved := cuckoo_moved st + 1\<rparr>"
| "tell (UsedStash k) st =
     st\<lparr>stash_added := stash_added st + 1, max_stash_size := max (max_stash_size st) (nat k)\<rparr>"
| "tell (ExpandedTable k) st = st\<lparr>rehash_count := rehash_count st + 1\<rparr>"
| "tell (CompactedPool c old k) st = st\<lparr>pool_compact_count := pool_compact_count st + 1\<rparr>"
| "tell (ReallocatedPool c k) st = st\<lparr>pool_realloc_count := pool_realloc_count st + 1\<rparr>"
| "tell msg st = st"

text \<open>From \<open>st\<close>, the log of a computation that succeeds tells the statistics of its result.\<close>

definition tells :: "coucal_stats \<Rightarrow> 'a logged \<Rightarrow> ('a \<Rightarrow> coucal_stats) \<Rightarrow> bool" where
  "tells st m after \<longleftrightarrow> (\<forall>x. snd m = Inr x \<longrightarrow> fold tell (fst m) st = after x)"

lemma tellsD: "tells st m after \<Longrightarrow> snd m = Inr x \<Longrightarrow> fold tell (fst m) st = after x"
  by (simp add: tells_def)

lemma tells_bind:
  assumes "tells st m mid" and "\<And>x. snd m = Inr x \<Longrightarrow> tells (mid x) (f x) after"
  shows "tells st (bind_log m f) after"
  using assms by (auto simp: tells_def snd_bind_log bind_res_eq_Inr fst_bind_log)

lemma tells_done: "after x = st \<Longrightarrow> tells st (done_log x) after"
  by (simp add: tells_def done_log_def)

lemma tells_run: "(\<And>x. r = Inr x \<Longrightarrow> after x = st) \<Longrightarrow> tells st (run_log r) after"
  by (simp add: tells_def run_log_def)

lemma tells_say: "tells st (say 5 msg) (\<lambda>_. tell msg st)"
  by (simp add: tells_def say_def)

lemma tells_failed: "tells st (bind_log m (\<lambda>_. run_log (Inl e))) after"
  by (simp add: tells_def snd_bind_log bind_res_eq_Inr)

lemma tells_trace: "(\<And>t. tell (msg t) st = st) \<Longrightarrow> tells st (trace_key 5 h k msg) (\<lambda>_. st)"
  by (cases "coucal_print_key h k")
    (simp_all add: trace_key_def tells_def bind_log_def run_log_def say_def)

section \<open>Steps that keep the statistics\<close>

lemma stats_simps [simp]:
  "stats (set_item h i it) = stats h" "stats (set_stash_item h i it) = stats h"
  "stats (set_stash_size h k) = stats h" "stats (set_extent h k) = stats h"
  "stats (set_at h loc it) = stats h" "stats (set_value h loc v) = stats h"
  "stats (set_names h xs ys) = stats h" "stats (trim_stash h) = stats h"
  by (simp_all add: set_item_def set_stash_item_def set_stash_size_def set_extent_def set_at_def
      set_value_def set_names_def trim_stash_def Let_def split: location.split)

lemma stats_del_value [simp]: "stats (coucal_del_value_i h loc) = stats h"
  by (simp add: coucal_del_value_i_def Let_def split: option.split)

lemma stats_drain_slot [simp]: "stats (drain_slot h i) = stats h"
  by (simp add: drain_slot_def Let_def)

lemma stats_stage_key: "stage_key h nm len = Inr (h', k) \<Longrightarrow> stats h' = stats h"
  by (auto simp: stage_key_def Let_def bind_res_eq_Inr split: if_splits prod.splits option.splits)

lemma stats_append_key: "append_key h nm len = Inr (h', k) \<Longrightarrow> stats h' = stats h"
  by (auto simp: append_key_def Let_def bind_res_eq_Inr split: if_splits option.splits prod.splits)

lemma stats_dup_handler:
  "coucal_dup_name h nm = Inr (h', k) \<Longrightarrow> key_dup (custom h) \<noteq> None \<Longrightarrow> stats h' = stats h"
  by (auto simp: coucal_dup_name_def Let_def bind_res_eq_Inr)

lemma stats_relocate_lower: "relocate_lower lg sz h i n = Inr h' \<Longrightarrow> stats h' = stats h"
proof (induction n arbitrary: h i)
  case (Suc n)
  have "stats h1 = stats h" if "relocate_slot lg sz h i = Inr h1" for h1
    using that by (auto simp: relocate_slot_def Let_def split: if_splits)
  then show ?case using Suc by (auto simp: bind_res_eq_Inr)
qed simp

lemma stats_compact_pool:
  "coucal_compact_pool h cap = Inr h' \<Longrightarrow>
   stats h' = (stats h)\<lparr>pool_compact_count := pool_compact_count (stats h) + 1\<rparr>"
  by (auto simp: coucal_compact_pool_def Let_def bind_res_eq_Inr count_compact_def
      split: if_splits prod.splits option.splits)

lemma stats_realloc_pool:
  assumes "coucal_realloc_pool h cap = Inr h'" and "\<not> pool_used (pool h) < size_mul (pool_size (pool h)) 3 div 4"
  shows "stats h' = (stats h)\<lparr>pool_realloc_count := pool_realloc_count (stats h) + 1\<rparr>"
  using assms
  by (auto simp: coucal_realloc_pool_def Let_def bind_res_eq_Inr count_realloc_def
      split: if_splits prod.splits option.splits)

lemma stats_emergency_stash:
  assumes "emergency_stash h item = Inr (h', ret)"
  shows "stats h' = tell (UsedStash (c_int (stash_size (stash h')))) (stats h)" and "ret = 1"
proof -
  have room: "stash_size (stash h) < 16"
    using assms by (auto simp: emergency_stash_def STASH_SIZE_def split: if_splits)
  then have size: "size_add (stash_size (stash h)) 1 = Suc (stash_size (stash h))" by simp
  have int: "c_int k = int k" if "k \<le> 16" for k
    using that by (simp add: c_int_def signed_of_nat signed_take_bit_int_eq_self)
  show "stats h' = tell (UsedStash (c_int (stash_size (stash h')))) (stats h)" and "ret = 1"
    using assms room size int [of "Suc (stash_size (stash h))"]
    by (auto simp: emergency_stash_def count_stashed_def Let_def STASH_SIZE_def set_stash_size_def
        set_stash_item_def set_extent_def max_def split: if_splits)
qed

section \<open>The table and the stash\<close>

lemma tells_next_cuckoo_hash:
  "tells st (next_cuckoo_hash_log 5 h pos it) (\<lambda>_. st\<lparr>cuckoo_moved := cuckoo_moved st + 1\<rparr>)"
  by (simp add: next_cuckoo_hash_log_def tells_def bind_log_def say_def done_log_def run_log_def)

lemma tells_cuckoo_loop:
  "tells (stats h) (cuckoo_loop_log 5 loops h item ch ch0) (\<lambda>p. stats (fst p))"
proof (induction loops arbitrary: h item ch)
  case (Suc loops)
  let ?pos = "coucal_hash_to_pos h ch"
  let ?h = "count_move (set_item h ?pos item)"
  have moved: "stats ?h = (stats h)\<lparr>cuckoo_moved := cuckoo_moved (stats h) + 1\<rparr>"
    by (simp add: count_move_def)
  have kick: "tells (stats h) (bind_log (next_cuckoo_hash_log 5 ?h ?pos (items h ! ?pos)) (\<lambda>ch.
      if ch = ch0 then done_log (?h, Some (items h ! ?pos))
      else cuckoo_loop_log 5 loops ?h (items h ! ?pos) ch ch0)) (\<lambda>p. stats (fst p))"
    by (rule tells_bind [OF tells_next_cuckoo_hash]) (simp add: Suc.IH tells_done flip: moved)
  have free: "tells (stats h) (bind_log (say 5 FreePosition) (\<lambda>_. done_log (set_item h ?pos item, None :: coucal_item option)))
      (\<lambda>p. stats (fst p))"
    by (simp add: tells_def bind_log_def say_def done_log_def)
  show ?case
    unfolding cuckoo_loop_log.simps Let_def
    by (rule tells_bind [OF tells_trace]) (use kick free in simp_all)
qed (simp add: tells_done)

lemma tells_emergency_stash: "tells (stats h) (emergency_stash_log 5 h item) (\<lambda>p. stats (fst p))"
proof (cases "stash_size (stash h) < STASH_SIZE")
  case True
  show ?thesis
  proof (cases "emergency_stash h item")
    case (Inr p)
    obtain h' ret where p: "p = (h', ret)" by fastforce
    show ?thesis
      using True Inr p stats_emergency_stash(1) [of h item h' ret]
      by (simp add: emergency_stash_log_def tells_def bind_log_def run_log_def say_def done_log_def)
  qed (use True in \<open>simp add: emergency_stash_log_def tells_def bind_log_def\<close>)
qed (simp add: emergency_stash_log_def tells_failed)

lemma tells_add_item: "tells (stats h) (coucal_add_item_log 5 h item) (\<lambda>p. stats (fst p))"
proof -
  have end_case: "tells (stats (fst r)) (case r of (h, None) \<Rightarrow> done_log (h, 1)
      | (h, Some item) \<Rightarrow> emergency_stash_log 5 h item) (\<lambda>p. stats (fst p))" for r
    by (auto simp: tells_done tells_emergency_stash split: prod.split option.split)
  have "tells (stats h) (bind_log (cuckoo_loop_log 5 loops h item ch ch0) (\<lambda>r. case r of
      (h, None) \<Rightarrow> done_log (h, 1) | (h, Some item) \<Rightarrow> emergency_stash_log 5 h item)) (\<lambda>p. stats (fst p))"
    for loops ch ch0
    by (rule tells_bind [OF tells_cuckoo_loop end_case])
  then show ?thesis
    unfolding coucal_add_item_log_def Let_def
    by (auto intro!: tells_done tells_bind [OF tells_trace])
qed

lemma tells_drain_stash: "tells (stats h) (coucal_drain_stash_log 5 h) stats"
proof -
  have slot: "tells (stats h) (drain_slot_log 5 h i) stats" for h i
    by (simp add: drain_slot_log_def Let_def tells_def bind_log_def say_def done_log_def)
  have "tells (stats h) (drain_slots_log 5 h is) stats" for h "is"
    by (induction "is" arbitrary: h) (auto intro: tells_done tells_bind [OF slot])
  then show ?thesis
    unfolding coucal_drain_stash_log_def by (rule tells_bind) (simp add: tells_done)
qed

section \<open>The pool\<close>

lemma tells_assert: "tells st (run_log (assert_res b e)) (\<lambda>_. st)"
  by (rule tells_run) simp

lemma tells_compact_pool: "tells (stats h) (coucal_compact_pool_log 5 h cap) stats"
  unfolding coucal_compact_pool_log_def
proof (rule tells_bind [OF tells_assert], rule tells_bind [where mid = "\<lambda>_. stats h"])
  show "tells (stats h) (if fst (c_malloc (heap h) cap) = None then say 5 (CompactionError cap) else done_log ())
      (\<lambda>_. stats h)"
    by (simp add: tells_def say_def done_log_def)
  show "tells (stats h) (bind_log (run_log (coucal_compact_pool h cap)) (\<lambda>h'.
      bind_log (say 5 (CompactedPool (pooled_count h) (pool_size (pool h)) (pool_size (pool h'))))
        (\<lambda>_. done_log h'))) stats"
    using stats_compact_pool [of h cap]
    by (cases "coucal_compact_pool h cap")
      (simp_all add: tells_def bind_log_def run_log_def say_def done_log_def)
qed

lemma tells_realloc_pool: "tells (stats h) (coucal_realloc_pool_log 5 h cap) stats"
proof -
  have grown: "tells (stats h) (bind_log (run_log (coucal_realloc_pool h cap)) (\<lambda>h'.
      bind_log (say 5 (ReallocatedPool c cap)) (\<lambda>_. done_log h'))) stats"
    if "\<not> pool_used (pool h) < size_mul (pool_size (pool h)) 3 div 4" for c
    using stats_realloc_pool [OF _ that, of cap]
    by (cases "coucal_realloc_pool h cap")
      (simp_all add: tells_def bind_log_def run_log_def say_def done_log_def)
  show ?thesis
    unfolding coucal_realloc_pool_log_def Let_def
    by (rule tells_bind [OF tells_assert]) (auto simp: tells_compact_pool tells_failed intro: grown)
qed

lemma tells_stage_key: "tells (stats h) (stage_key_log 5 h nm len) (\<lambda>p. stats (fst p))"
  unfolding stage_key_log_def by (auto simp: tells_failed intro!: tells_run dest: stats_stage_key)

lemma tells_expand_pool: "tells (stats h) (expand_pool_log 5 h nm len) (\<lambda>p. stats (fst p))"
  unfolding expand_pool_log_def
  by (rule tells_bind [OF tells_stage_key])
    (auto split: prod.split option.split intro!: tells_bind [OF tells_assert]
      tells_bind [OF tells_realloc_pool] tells_done tells_run)

lemma tells_dup_name: "tells (stats h) (coucal_dup_name_log 5 h nm) (\<lambda>p. stats (fst p))"
proof -
  have append: "tells (stats (fst p)) (case p of (h, nm) \<Rightarrow> run_log (append_key h nm len)) (\<lambda>p. stats (fst p))"
    for p len by (cases p) (auto intro!: tells_run dest: stats_append_key)
  have grow: "tells (stats h) (bind_log (expand_pool_log 5 h nm len) (\<lambda>(h, nm). run_log (append_key h nm len)))
      (\<lambda>p. stats (fst p))" for len
    by (rule tells_bind [OF tells_expand_pool append])
  have "tells (stats h) (coucal_dup_name_internal_log 5 h nm) (\<lambda>p. stats (fst p))"
    unfolding coucal_dup_name_internal_log_def Let_def
    by (rule tells_bind [where mid = "\<lambda>_. stats h"])
      (auto intro!: tells_run tells_done tells_bind [OF tells_assert] grow dest: stats_append_key)
  then show ?thesis
    unfolding coucal_dup_name_log_def by (auto intro!: tells_run dest: stats_dup_handler)
qed

lemma tells_free_key: "tells (stats h) (coucal_free_key_log 5 h nm) stats"
proof -
  have holes: "tells (stats h) (compact_holes_log 5 h) stats" for h
    unfolding compact_holes_log_def Let_def
    by (auto intro!: tells_done tells_bind [OF tells_assert] tells_compact_pool)
  have holes': "tells (stats h) (compact_holes_log 5 (h\<lparr>pool := p\<rparr>)) stats" for h p
    using holes [of "h\<lparr>pool := p\<rparr>"] by simp
  have "tells (stats h) (coucal_free_key_internal_log 5 h nm) stats"
    unfolding coucal_free_key_internal_log_def Let_def
    by (rule tells_bind [where mid = "\<lambda>_. stats h"])
      (auto intro!: tells_run tells_done tells_bind [OF tells_assert] holes'
        tells_bind [where mid = "\<lambda>_. stats h" and m = "run_log (poke _ _ _)"]
        split: coucal_key.split option.split)
  then show ?thesis
    unfolding coucal_free_key_log_def
    by (auto intro!: tells_run simp: coucal_free_key_def split: option.splits)
qed

section \<open>Writing\<close>

lemma tells_merge_items: "tells (stats h) (merge_items_log 5 h xs) stats"
proof (induction xs arbitrary: h)
  case (Cons it xs)
  have rest: "tells (stats (fst p)) (case p of (h, ret) \<Rightarrow>
      if ret = 0 then run_log (Inl (AssertFailed A_duplicate_merging_stash)) else merge_items_log 5 h xs) stats"
    for p by (cases p) (auto intro: tells_run Cons.IH)
  show ?case using tells_bind [OF tells_add_item rest] by (simp add: Cons.IH)
qed (simp add: tells_done)

lemma tells_merge_stash: "tells (stats h) (merge_stash_log 5 h) stats"
proof -
  have items: "tells (stats h) (merge_items_log 5 (h\<lparr>stash := st\<rparr>) xs) stats" for st xs
    using tells_merge_items [of "h\<lparr>stash := st\<rparr>"] by simp
  have said: "tells (stats h) (bind_log (say 5 msg) (\<lambda>_. done_log h)) stats"
    if "tell msg (stats h) = stats h" for h msg
    using that by (simp add: tells_def bind_log_def say_def done_log_def)
  show ?thesis
    unfolding merge_stash_log_def Let_def
    by (auto intro!: tells_done tells_bind [OF items] said tells_run)
qed

lemma tells_expand_table: "tells (stats h) (expand_table_log 5 h half) stats"
proof -
  let ?st = "(stats h)\<lparr>rehash_count := rehash_count (stats h) + 1\<rparr>"
  have merge: "tells (stats h) (bind_log (say 5 (ExpandedTable k)) (\<lambda>_. merge_stash_log 5 h2)) stats"
    if "stats h2 = ?st" for h2 k
  proof (rule tells_bind [OF tells_say])
    show "tells (tell (ExpandedTable k) (stats h)) (merge_stash_log 5 h2) stats"
      using tells_merge_stash [of h2] by (simp add: that)
  qed
  have lower: "tells (stats h) (bind_log (run_log (relocate_lower lg sz h1 0 sz)) (\<lambda>h.
      bind_log (say 5 (ExpandedTable (POW2 (lg_size h)))) (\<lambda>_. merge_stash_log 5 h))) stats"
    if "stats h1 = ?st" for h1 lg sz
  proof (rule tells_bind [where mid = "\<lambda>_. stats h"])
    fix x assume "snd (run_log (relocate_lower lg sz h1 0 sz)) = Inr x"
    then have "stats x = ?st" using stats_relocate_lower that by simp
    then show "tells (stats h) (bind_log (say 5 (ExpandedTable (POW2 (lg_size x))))
        (\<lambda>_. merge_stash_log 5 x)) stats" by (rule merge)
  qed (simp add: tells_run)
  have warn: "tells (stats h) (if c then say 5 (StashStillFull a b) else done_log ()) (\<lambda>_. stats h)"
    for c a b by (simp add: tells_def say_def done_log_def)
  show ?thesis
    unfolding expand_table_log_def Let_def
    by (rule tells_bind [OF warn], rule tells_bind [OF tells_assert], rule tells_bind [OF tells_assert])
      (auto intro!: lower tells_failed split: prod.split option.split simp: count_rehash_def)
qed

lemma tells_add_new: "tells (stats (count_add h)) (add_new_log 5 h nm v hk) (\<lambda>p. stats (fst p))"
proof -
  have item: "tells (stats (fst p)) (case p of (h, k) \<Rightarrow> coucal_add_item_log 5 h
      \<lparr>name = k, value = v, hashes = hk\<rparr>) (\<lambda>p. stats (fst p))" for p
    by (cases p) (simp add: tells_add_item)
  have drain: "tells (stats h) (if c then coucal_drain_stash_log 5 h else done_log h) stats" for h c
    by (simp add: tells_drain_stash tells_done)
  show ?thesis
    unfolding add_new_log_def Let_def
    by (rule tells_bind [OF drain tells_bind [OF tells_dup_name item]])
qed

lemma add_item_log_returns: "snd (coucal_add_item_log 5 h item) = Inr (h', ret) \<Longrightarrow> ret = 1"
  using stats_emergency_stash(2)
  by (auto simp: coucal_add_item_log_def emergency_stash_log_def Let_def snd_bind_log bind_res_eq_Inr
      split: if_splits prod.splits option.splits)

text \<open>A replacement logs nothing; an addition counts one.\<close>

definition counted :: "struct_coucal \<Rightarrow> int \<Rightarrow> coucal_stats" where
  "counted h ret = stats (if ret = 0 then count_write h else count_add (count_write h))"

lemma fetch_log:
  "coucal_write_value_i_log n h nm v =
     bind_log (run_log (coucal_calc_hashes h nm)) (\<lambda>hk.
     bind_log (run_log (coucal_fetch_value_hashes (count_write h) nm hk)) (\<lambda>r.
       case r of
         Some loc \<Rightarrow> done_log (set_value (coucal_del_value_i (count_write h) loc) loc v, 0)
       | None \<Rightarrow> add_new_log n (count_write h) nm v hk))"
proof (cases "coucal_calc_hashes h nm")
  case (Inr hk)
  let ?h = "count_write h"
  let ?m1 = "coucal_matches ?h (coucal_hash_to_pos ?h (hash1 hk)) nm hk"
  let ?m2 = "coucal_matches ?h (coucal_hash_to_pos ?h (hash2 hk)) nm hk"
  let ?s = "stash_search ?h nm hk 0 (extent (stash ?h))"
  have run: "bind_log (run_log (Inr x :: 'b res)) f = f x" for x and f :: "'b \<Rightarrow> 'c logged"
    by (simp add: bind_log_def run_log_def)
  have bad: "bind_log (run_log (Inl e)) f = run_log (Inl e)" for e and f :: "'b \<Rightarrow> 'c logged"
    by (simp add: bind_log_def run_log_def)
  show ?thesis
    by (cases ?m1; cases ?m2; cases ?s)
      (auto simp: Inr coucal_write_value_i_log_def coucal_fetch_value_hashes_def Let_def run bad
        coucal_del_value_def split: option.split)
qed (simp add: coucal_write_value_i_log_def bind_log_def)

lemma write_value_i_tells:
  assumes "snd (coucal_write_value_i_log 5 h nm v) = Inr (h', ret)"
  shows "fold tell (fst (coucal_write_value_i_log 5 h nm v)) (counted h ret) = stats h'"
proof -
  let ?h = "count_write h"
  obtain hk r where hk: "coucal_calc_hashes h nm = Inr hk" "coucal_fetch_value_hashes ?h nm hk = Inr r"
    using assms by (auto simp: fetch_log snd_bind_log bind_res_eq_Inr)
  then have log: "coucal_write_value_i_log 5 h nm v =
      (case r of
         Some loc \<Rightarrow> done_log (set_value (coucal_del_value_i ?h loc) loc v, 0)
       | None \<Rightarrow> add_new_log 5 ?h nm v hk)"
    by (simp add: fetch_log bind_log_def run_log_def)
  show ?thesis
  proof (cases r)
    case None
    then have run: "snd (add_new_log 5 ?h nm v hk) = Inr (h', ret)" using assms log by simp
    then have "ret = 1"
      by (auto simp: add_new_log_def Let_def snd_bind_log bind_res_eq_Inr dest: add_item_log_returns)
    then show ?thesis using tellsD [OF tells_add_new run] log None by (simp add: counted_def)
  next
    case (Some loc)
    then show ?thesis using assms log by (auto simp: done_log_def counted_def)
  qed
qed

lemma write_value_tells:
  assumes "snd (coucal_write_value_log 5 h nm v) = Inr (h', ret)"
  shows "fold tell (fst (coucal_write_value_log 5 h nm v)) (counted h ret) = stats h'"
proof -
  obtain h1 ret1 where one: "snd (coucal_write_value_i_log 5 h nm v) = Inr (h1, ret1)"
    using assms by (auto simp: coucal_write_value_log_def snd_bind_log bind_res_eq_Inr)
  note first = write_value_i_tells [OF one]
  define rest where "rest = (\<lambda>(h, ret).
       if ret \<noteq> (0 :: int) then
         let half_size = POW2 (size_sub (lg_size h) 1);
             half_stash_size = STASH_SIZE div 2;
             h = h\<lparr>used := size_add (used h) 1\<rparr>
         in if half_size \<le> used h \<or> half_stash_size \<le> stash_size (stash h) then
              bind_log (expand_table_log 5 h half_size) (\<lambda>h. done_log (h, ret))
            else done_log (h, ret)
       else done_log (h, ret))"
  have log: "coucal_write_value_log 5 h nm v = bind_log (coucal_write_value_i_log 5 h nm v) rest"
    by (simp add: coucal_write_value_log_def rest_def)
  have expand: "tells (stats h1) (expand_table_log 5 (h1\<lparr>used := u\<rparr>) half) stats" for u half
    using tells_expand_table [of "h1\<lparr>used := u\<rparr>"] by simp
  have "tells (stats h1) (rest (h1, ret1)) (\<lambda>p. stats (fst p))"
    unfolding rest_def Let_def
    by (auto intro!: tells_done tells_bind [OF expand])
  moreover have "snd (rest (h1, ret1)) = Inr (h', ret)" using assms log one by (simp add: snd_bind_log)
  moreover from this have "ret = ret1"
    by (auto simp: rest_def Let_def snd_bind_log bind_res_eq_Inr split: if_splits)
  ultimately show ?thesis using first by (simp add: log fst_bind_log [OF one] tells_def)
qed

section \<open>Removing\<close>

lemma remove_tells:
  assumes "snd (coucal_remove_log 5 h nm) = Inr (h', ret)"
  shows "fold tell (fst (coucal_remove_log 5 h nm)) (stats h) = stats h'"
proof -
  have item: "tells (stats h) (coucal_del_item_log 5 h loc) stats" for h loc
    using tells_free_key [of "set_at (coucal_del_value_i h loc) loc it" for it]
    by (simp add: coucal_del_item_log_def coucal_del_name_log_def Let_def)
  have stay: "tells (stats h) (run_log r) (\<lambda>_. stats h)" for h and r :: "'b res"
    by (rule tells_run) simp
  have one: "tells (stats h) (bind_log (coucal_del_item_log 5 h loc) (\<lambda>h. done_log (h, 1 :: int)))
      (\<lambda>p. stats (fst p))" for h loc
    by (rule tells_bind [OF item]) (simp add: tells_done)
  have stash: "tells (stats h) (bind_log (coucal_del_item_log 5 h loc) (\<lambda>h.
      bind_log (say 5 (DeletedInStash (c_int (stash_size (stash (trim_stash h))))))
        (\<lambda>_. done_log (trim_stash h, 1 :: int)))) (\<lambda>p. stats (fst p))" for h loc
    by (rule tells_bind [OF item]) (simp add: tells_def bind_log_def say_def done_log_def)
  have "tells (stats h) (coucal_remove_i_log 5 h nm hk) (\<lambda>p. stats (fst p))" for hk
    unfolding coucal_remove_i_log_def Let_def
    by (auto intro!: tells_bind [OF stay] one stash tells_done split: option.split)
  then have "tells (stats h) (coucal_remove_log 5 h nm) (\<lambda>p. stats (fst p))"
    unfolding coucal_remove_log_def
    by (auto intro!: tells_bind [OF stay] tells_bind [where mid = "\<lambda>p. stats (fst p)"] tells_done
        tells_bind [OF tells_assert])
  then show ?thesis using assms by (simp add: tells_def)
qed

section \<open>Counting the messages\<close>

fun is_kick :: "message \<Rightarrow> bool" where
  "is_kick KickedFrom1 = True"
| "is_kick KickedFrom2 = True"
| "is_kick msg = False"

fun is_stashing :: "message \<Rightarrow> bool" where
  "is_stashing (UsedStash k) = True"
| "is_stashing msg = False"

fun is_rehash :: "message \<Rightarrow> bool" where
  "is_rehash (ExpandedTable k) = True"
| "is_rehash msg = False"

fun is_compaction :: "message \<Rightarrow> bool" where
  "is_compaction (CompactedPool c old k) = True"
| "is_compaction msg = False"

fun is_reallocation :: "message \<Rightarrow> bool" where
  "is_reallocation (ReallocatedPool c k) = True"
| "is_reallocation msg = False"

definition counted_messages :: "(message \<Rightarrow> bool) \<Rightarrow> message list \<Rightarrow> u64" where
  "counted_messages P msgs = of_nat (length (filter P msgs))"

text \<open>The sizes of the stash the log mentions.\<close>

fun stash_sizes :: "message list \<Rightarrow> nat list" where
  "stash_sizes [] = []"
| "stash_sizes (UsedStash k # msgs) = nat k # stash_sizes msgs"
| "stash_sizes (_ # msgs) = stash_sizes msgs"

text \<open>The statistics after, by those before and the numbers of messages of each kind.\<close>

definition told_by :: "message list \<Rightarrow> coucal_stats \<Rightarrow> coucal_stats \<Rightarrow> bool" where
  "told_by msgs st st' \<longleftrightarrow>
     cuckoo_moved st' = cuckoo_moved st + counted_messages is_kick msgs \<and>
     stash_added st' = stash_added st + counted_messages is_stashing msgs \<and>
     rehash_count st' = rehash_count st + counted_messages is_rehash msgs \<and>
     pool_compact_count st' = pool_compact_count st + counted_messages is_compaction msgs \<and>
     pool_realloc_count st' = pool_realloc_count st + counted_messages is_reallocation msgs \<and>
     max_stash_size st' = foldl max (max_stash_size st) (stash_sizes msgs) \<and>
     write_count st' = write_count st \<and> add_count st' = add_count st"

lemma counted_messages_simps [simp]:
  "counted_messages P [] = 0"
  "counted_messages P (msg # msgs) = (if P msg then 1 else 0) + counted_messages P msgs"
  by (simp_all add: counted_messages_def)

lemma told_by_fold: "told_by msgs st (fold tell msgs st)"
proof (induction msgs arbitrary: st)
  case (Cons msg msgs)
  from Cons.IH [of "tell msg st"] show ?case
    by (cases msg) (simp_all add: told_by_def)
qed (simp add: told_by_def)

lemma write_told:
  assumes "snd (coucal_write_value_log 5 h nm v) = Inr (h', ret)"
  shows "told_by (fst (coucal_write_value_log 5 h nm v)) (counted h ret) (stats h')"
  using told_by_fold [of "fst (coucal_write_value_log 5 h nm v)" "counted h ret"]
  unfolding write_value_tells [OF assms] .

lemma remove_told:
  assumes "snd (coucal_remove_log 5 h nm) = Inr (h', ret)"
  shows "told_by (fst (coucal_remove_log 5 h nm)) (stats h) (stats h')"
  using told_by_fold [of "fst (coucal_remove_log 5 h nm)" "stats h"]
  unfolding remove_tells [OF assms] .

end
