(* ===== verification/PoolGrowth.thy ===== *)
theory PoolGrowth
  imports Api
begin

text \<open>
  How the capacity of the string pool changes over the life of a table (\<open>src/coucal.c\<close>): the loop of
  \<open>coucal_dup_name_internal()\<close> that doubles it does not end past \<open>2 ^ 63\<close> bytes, a write takes one step
  of it, and the release of the last key leaves the size of the pool where it was, so that the
  pool of an emptied table still grows.
\<close>

section \<open>Past \<open>2 ^ 63\<close> the capacity loop does not end\<close>

text \<open>The capacities the loop goes through: powers of two, then 0 for ever.\<close>

definition loop_capacity :: "nat \<Rightarrow> bool" where
  "loop_capacity cap \<longleftrightarrow> cap = 0 \<or> (\<exists>j \<le> 63. cap = 2 ^ j)"

lemma loop_capacity_le: "loop_capacity cap \<Longrightarrow> cap \<le> 2 ^ 63"
  unfolding loop_capacity_def
  by (elim disjE exE conjE) (simp, simp only: power_increasing one_le_numeral)

lemma loop_capacity_next:
  assumes "loop_capacity cap"
  shows "loop_capacity (size_mul cap 2)"
proof (cases "cap = 0 \<or> cap = 2 ^ 63")
  case False
  then obtain j where j: "cap = 2 ^ j" "j \<le> 63" using assms by (auto simp: loop_capacity_def)
  then have "j \<noteq> 63" using False by metis
  then have "j < 63" using j(2) by simp
  then have "(2::nat) ^ Suc j < 2 ^ 64" by (intro power_strict_increasing) simp_all
  then have "size_mul cap 2 = 2 ^ Suc j" using j(1) by (simp add: mult.commute)
  then show ?thesis using \<open>j < 63\<close> unfolding loop_capacity_def by (metis Suc_leI)
qed (auto simp: loop_capacity_def size_mul_def)

lemma pool_capacity_for_none:
  assumes "2 ^ 63 < n" and "loop_capacity cap"
  shows "pool_capacity_for cap n = None"
proof -
  have "\<not> (2 ^ 63 < n \<and> loop_capacity cap)" if ret: "pool_capacity_for cap n = Some r" for r
  proof (rule pool_capacity_for.raw_induct
      [where P = "\<lambda>cap n r. \<not> (2 ^ 63 < n \<and> loop_capacity cap)", OF _ ret])
    fix f cap n and r :: nat
    assume IH: "\<And>cap n r. f cap n = Some r \<Longrightarrow> \<not> (2 ^ 63 < n \<and> loop_capacity cap)"
      and eq: "(if cap < n then f (size_mul cap 2) n else Some cap) = Some r"
    show "\<not> (2 ^ 63 < n \<and> loop_capacity cap)"
    proof
      assume big: "2 ^ 63 < n \<and> loop_capacity cap"
      then have "cap < n" using loop_capacity_le [of cap] by linarith
      then show False using IH [of "size_mul cap 2" n r] eq big loop_capacity_next by simp
    qed
  qed
  then show ?thesis using assms by (cases "pool_capacity_for cap n") auto
qed

section \<open>A write takes one step of the capacity\<close>

text \<open>The pool after the write of a new key is the pool after the copy of its key.\<close>

lemma write_new_pool:
  assumes inv: "coucal_inv h" and nm: "deref (pool h) nm = Some s" and absent: "table_map h s = None"
    and fits: "fits h s" and run: "coucal_write_value h nm v = Inr (h', ret)"
  obtains h2 k where "coucal_dup_name (drained (count_write h)) nm = Inr (h2, k)" and "pool h' = pool h2"
    and "ret = 1"
proof -
  let ?h = "count_write h"
  have inv1: "coucal_inv ?h" and nm1: "deref (pool ?h) nm = Some s" and fits1: "fits ?h s"
    using inv nm fits by (simp_all add: fits_def)
  have "table_map ?h = table_map h" by (rule coucal_inv_custom(2)) simp_all
  then have fetch: "coucal_fetch_value_hashes ?h nm (hash_of (custom h) s) = Inr None"
    using fetch_value_map [OF coucal_inv_lookup [OF inv1] nm1] absent by auto
  have "coucal_calc_hashes h nm = Inr (hash_of (custom h) s)"
    using nm by (simp add: coucal_calc_hashes_def read_key_def)
  then have i: "coucal_write_value_i h nm v = add_new ?h nm v (hash_of (custom h) s)"
    using fetch by (simp add: write_value_i_fetch)
  have "\<not> (\<exists>w. has_entry (custom ?h) (entries ?h) s w)"
    using absent_entry [OF lookup_map_inv [OF coucal_inv_lookup [OF inv]] absent] by simp
  from add_new_correct [OF inv1 nm1 fits1 this, of v]
  obtain h1 where h1: "add_new ?h nm v (hash_of (custom h) s) = Inr (h1, 1)" "used h1 = used h"
      "lg_size h1 = lg_size h" "coucal_inv (h1\<lparr>used := Suc (used h)\<rparr>)"
    using run i by (auto simp: coucal_write_value_def)
  obtain h2 k t where copy: "coucal_dup_name (drained ?h) nm = Inr (h2, k)" "copied ?h s h2 k t"
    using drained_dup_name [OF inv1 nm1 fits1] h1(1) by (auto simp: add_new_eq)
  let ?item = "\<lparr>name = k, value = v, hashes = hash_of (custom h) s\<rparr>"
  have "slots_inv h2" "name ?item \<noteq> KNull" using copy(2) by (simp_all add: copied_def key_in_hand_def)
  from coucal_add_item_correct [OF this] have pool1: "pool h1 = pool h2"
    using h1(1) copy(1) by (auto simp: add_new_eq dest: slots_frameD)
  define h3 where "h3 = h1\<lparr>used := Suc (used h)\<rparr>"
  have slots: "slots_inv h3" using h1(4) by (simp add: h3_def coucal_inv_def)
  have "pool h' = pool h3 \<and> ret = 1"
    using write_value_eq [OF inv i [unfolded h1(1)] h1(2,3), folded h3_def] run expand_table_correct [OF slots]
    by (auto simp: expanded_def split: if_splits)
  then show ?thesis using that copy(1) pool1 by (simp add: h3_def)
qed

text \<open>So a write of a new key takes one step of the capacity, whatever becomes of the slots.\<close>

lemma write_capacity_step:
  assumes inv: "coucal_inv h" and dup: "key_dup (custom h) = None" and nm: "deref (pool h) nm = Some s"
    and absent: "table_map h s = None" and s: "s \<noteq> []" and fits: "fits h s"
    and run: "coucal_write_value h nm v = Inr (h', ret)"
  shows "capacity_step (pool h) (Suc (length s)) (pool h')"
proof -
  let ?d = "drained (count_write h)"
  obtain h2 k where copy: "coucal_dup_name ?d nm = Inr (h2, k)" and pool: "pool h' = pool h2"
    using write_new_pool [OF inv nm absent fits run] by blast
  have inv1: "coucal_inv (count_write h)" using inv by simp
  note D = drained_correct [OF inv1]
  note same = slots_frameD [OF D(5)]
  have eq: "pool ?d = pool h" "custom ?d = custom h" using same by simp_all
  have "pool_ok ?d" using D(1) dup eq(2) by (simp add: coucal_inv_def storage_inv_def)
  moreover have "0 \<notin> set s" "pool_size (pool h) + length s < 2 ^ 62" using fits dup by (simp_all add: fits_def)
  moreover have "coucal_dup_name_internal ?d nm = Inr (h2, k)"
    using copy dup eq(2) by (simp add: coucal_dup_name_def)
  ultimately show ?thesis
    using dup_name_internal_correct [of ?d nm s] nm s by (simp add: eq pool)
qed

lemma capacity_step_doubles:
  assumes step: "capacity_step p len p'" and cap: "capacity p = 2 ^ k" "8 \<le> k" "k \<le> 60"
    and size: "pool_size p \<le> capacity p" and len: "len \<le> capacity p"
    and full: "capacity p - pool_size p < len"
  shows "capacity p' = 2 * capacity p"
proof -
  let ?n = "pool_size p + len"
  have small: "(2::nat) ^ k \<le> 2 ^ 60" using cap(3) by (intro power_increasing) simp_all
  have n: "2 ^ k < ?n" "?n \<le> 2 ^ Suc k" using full cap(1) size len by simp_all
  have "?n \<le> 2 ^ 63" using n(2) small by simp
  moreover have "0 < ?n" by (rule less_trans [OF _ n(1)]) simp
  ultimately obtain j where j: "pool_capacity_for (2 ^ 8) ?n = Some (2 ^ j)" "?n \<le> 2 ^ j" "j = 8 \<or> 2 ^ j < 2 * ?n"
    using pool_capacity_for_pow2 [of 8 ?n] by auto
  have "(2::nat) ^ k < 2 ^ j" using n(1) j(2) by linarith
  then have "k < j" by (rule power_less_imp_less_exp [rotated]) simp
  have "(2::nat) ^ j < 2 ^ Suc (Suc k)" using j(3) n(2) \<open>k < j\<close> cap(2) by auto
  then have "j < Suc (Suc k)" by (rule power_less_imp_less_exp [rotated]) simp
  then have "j = Suc k" using \<open>k < j\<close> by simp
  then show ?thesis using step full cap(1) j(1) by (simp add: capacity_step_def MIN_POOL_CAPACITY_def)
qed

section \<open>Releasing the last key\<close>

text \<open>The pool is compacted only while some key is used: the last one leaves its bytes behind.\<close>

lemma free_last_key:
  assumes inv: "pool_inv (pool h) (heap h) {#k#}" and used: "0 < pool_used (pool h)"
  shows "\<exists>p. coucal_free_key_internal h k = Inr (h\<lparr>pool := p\<rparr>) \<and> pool_used p = 0 \<and>
    pool_size p = pool_size (pool h) \<and> capacity p = capacity (pool h)"
proof -
  have "pooled_key (pool h) k" and sum: "pool_used (pool h) = stored_len (pool h) k"
    using inv by (simp_all add: pool_inv_def regions_ok_def)
  then show ?thesis
  proof (cases rule: pooled_keyE)
    case 1
    then show ?thesis using sum used by (simp add: stored_len_def)
  next
    case (2 b off s)
    obtain bs where buf: "buffer (pool h) = Some (b, bs)" and str: "c_string_at bs off = Some s"
      using 2 by (auto simp: deref_def split: option.splits if_splits)
    have off: "off < length bs" and len: "length s < length bs" using c_string_at_bound [OF str] by simp_all
    have "length bs < 2 ^ 63" "pool_used (pool h) = Suc (length s)"
      using inv buf sum 2 by (simp_all add: pool_inv_def ptrdiff_max_def stored_len_KPool)
    then show ?thesis
      using 2 buf off len
      by (intro exI [of _ "(pool h)\<lparr>pool_used := 0, buffer := Some (b, bs[off := 0])\<rparr>"])
        (simp add: coucal_free_key_internal_def read_key_def Let_def poke_def compact_holes_def)
  qed
qed

lemma remove_found:
  assumes inv: "coucal_inv h" and nm: "deref (pool h) nm = Some t" and found: "table_map h t \<noteq> None"
  obtains loc where "valid_loc h loc" and "item_is h t (item_at h loc)"
    and "coucal_remove h nm = bind_res (coucal_free_key (detached h loc) (name (item_at h loc)))
      (\<lambda>h. bind_res (assert_res (used h \<noteq> 0) (AssertFailed A_used_nonzero)) (\<lambda>_.
         Inr ((trimmed loc h)\<lparr>used := size_sub (used h) 1\<rparr>, 1)))"
proof -
  obtain loc where loc: "valid_loc h loc" "item_is h t (item_at h loc)"
    and fetch: "coucal_fetch_value_hashes h nm (hash_of (custom h) t) = Inr (Some loc)"
    using fetch_value_map [OF coucal_inv_lookup [OF inv] nm] found by auto
  have "slots_inv h" using inv by (simp add: coucal_inv_def)
  then have del: "coucal_del_item h l = coucal_free_key (detached h l) (name (item_at h l))" if "loc = l" for l
    using del_item_eq loc(1) that by simp
  have hk: "coucal_calc_hashes h nm = Inr (hash_of (custom h) t)"
    using nm by (simp add: coucal_calc_hashes_def read_key_def)
  have same: "used (trim_stash x) = used x" for x
    by (simp add: trim_stash_def Let_def set_stash_size_def set_extent_def)
  show ?thesis
    by (rule that [OF loc], cases loc; cases "coucal_free_key (detached h loc) (name (item_at h loc))")
      (simp_all add: coucal_remove_def remove_i_fetch hk fetch del same trimmed_def)
qed

lemma remove_last:
  assumes inv: "coucal_inv h" and dup: "key_dup (custom h) = None" and nm: "deref (pool h) nm = Some t"
    and found: "table_map h t \<noteq> None" and last: "used h = 1" and used: "0 < pool_used (pool h)"
  shows "\<exists>h1. coucal_remove h nm = Inr (h1, 1) \<and> remove_ok h t h1 1 \<and> pool_used (pool h1) = 0 \<and>
    pool_size (pool h1) = pool_size (pool h) \<and> capacity (pool h1) = capacity (pool h)"
proof -
  have parts: "slots_inv h" "key_free (custom h) = None" "pool_inv (pool h) (heap h) (live_names h)"
      "size (entries h) = 1"
    using inv dup last by (simp_all add: coucal_inv_def dup_ok_def storage_inv_def)
  obtain loc where loc: "valid_loc h loc" "item_is h t (item_at h loc)" and run: "coucal_remove h nm =
      bind_res (coucal_free_key (detached h loc) (name (item_at h loc)))
      (\<lambda>h. bind_res (assert_res (used h \<noteq> 0) (AssertFailed A_used_nonzero)) (\<lambda>_.
         Inr ((trimmed loc h)\<lparr>used := size_sub (used h) 1\<rparr>, 1)))"
    using remove_found [OF inv nm found] by blast
  let ?d = "detached h loc" and ?k = "name (item_at h loc)"
  have "?k \<noteq> KNull" using loc(2) by (simp add: item_is_def)
  note D = detached_live [OF parts(1) loc(1) this]
  have "size (live_names h) = 1" using parts(4) by (simp add: entries_def live_names_def)
  then have "live_names h = {#?k#}" using D(2) by simp
  then have "pool_inv (pool ?d) (heap ?d) {#?k#}" using parts(3) by simp
  from free_last_key [OF this] used
  obtain p where p: "coucal_free_key_internal ?d ?k = Inr (?d\<lparr>pool := p\<rparr>)" "pool_used p = 0"
      "pool_size p = pool_size (pool h)" "capacity p = capacity (pool h)" by auto
  have same: "pool (trimmed loc x) = pool x" for x
    by (simp add: trimmed_def trim_stash_def Let_def set_stash_size_def set_extent_def split: location.split)
  have "\<exists>h1. coucal_remove h nm = Inr (h1, 1) \<and> pool h1 = p"
    using run p(1) parts(2) last by (simp add: coucal_free_key_def same)
  then show ?thesis using remove_correct [OF inv nm] p(2-4) by auto
qed

lemma emptied_map:
  assumes "coucal_inv h" and "used h = 0"
  shows "table_map h = Map.empty" and "live_names h = {#}" and "stash_size (stash h) = 0"
proof -
  have live: "live h = {#}" and slots: "slots_inv h" using assms by (simp_all add: coucal_inv_def entries_def)
  then show "live_names h = {#}" by (simp add: live_names_def)
  show "table_map h = Map.empty"
    using live in_live [of _ h] by (auto simp: fun_eq_iff table_map_def item_is_def find_None_iff)
  show "stash_size (stash h) = 0"
    using live slots by (simp add: live_def slots_inv_def stash_inv_def stash_core_def)
qed

end
