(* ===== verification/Sizes.thy ===== *)
theory Sizes
  imports TraceStats Reach PoolGrowth
begin

text \<open>
  What bounds the sizes a table holds (\<open>src/coucal.c\<close>), beside its invariant: the highest stash size
  in the statistics is the size of a stash, and a table with a \<open>dup\<close> handler of the client's never
  gets a string pool. Both are proved for every state the API can reach.
\<close>

section \<open>The highest stash size\<close>

definition peak_kept :: "struct_coucal \<Rightarrow> struct_coucal \<Rightarrow> bool" where
  "peak_kept h h' \<longleftrightarrow> max_stash_size (stats h') \<le> max (max_stash_size (stats h)) 16"

named_theorems peak "operations that keep the highest stash size within its bound"

lemma peak_trans: "peak_kept h h' \<Longrightarrow> peak_kept h' h'' \<Longrightarrow> peak_kept h h''"
  by (auto simp: peak_kept_def)

lemma peak_eq: "stats h' = stats h \<Longrightarrow> peak_kept h h'"
  by (simp add: peak_kept_def)

lemma peak_compact [peak]: "coucal_compact_pool h cap = Inr h' \<Longrightarrow> peak_kept h h'"
  by (drule stats_compact_pool) (simp add: peak_kept_def)

lemma peak_realloc [peak]:
  assumes "coucal_realloc_pool h cap = Inr h'"
  shows "peak_kept h h'"
proof (cases "pool_used (pool h) < size_mul (pool_size (pool h)) 3 div 4")
  case True
  then have "coucal_compact_pool h cap = Inr h'"
    using assms by (auto simp: coucal_realloc_pool_def Let_def bind_res_eq_Inr split: if_splits)
  then show ?thesis by (rule peak_compact)
next
  case False
  from stats_realloc_pool [OF assms this] show ?thesis by (simp add: peak_kept_def)
qed

lemma peak_expand_pool [peak]: "expand_pool h nm len = Inr (h', k) \<Longrightarrow> peak_kept h h'"
  by (auto simp: expand_pool_def bind_res_eq_Inr peak_kept_def split: option.splits if_splits
      dest!: stats_stage_key peak_realloc)

lemma peak_dup_name [peak]: "coucal_dup_name h nm = Inr (h', k) \<Longrightarrow> peak_kept h h'"
  by (auto simp: coucal_dup_name_def coucal_dup_name_internal_def Let_def bind_res_eq_Inr peak_kept_def
      split: option.splits if_splits dest!: stats_append_key peak_expand_pool)

lemma peak_free_key [peak]: "coucal_free_key h k = Inr h' \<Longrightarrow> peak_kept h h'"
  by (auto simp: coucal_free_key_def coucal_free_key_internal_def compact_holes_def Let_def bind_res_eq_Inr
      peak_kept_def split: option.splits if_splits coucal_key.splits dest!: peak_compact)

lemma peak_cuckoo_loop [peak]: "cuckoo_loop n h item ch ch0 = Inr (h', r) \<Longrightarrow> peak_kept h h'"
  by (induction n arbitrary: h item ch)
    (fastforce simp: Let_def bind_res_eq_Inr peak_kept_def count_move_def split: if_splits)+

lemma peak_emergency_stash [peak]:
  assumes "emergency_stash h item = Inr (h', ret)"
  shows "peak_kept h h'"
proof -
  have "stash_size (stash h) < 16"
    using assms by (auto simp: emergency_stash_def STASH_SIZE_def split: if_splits)
  then show ?thesis
    using assms by (auto simp: emergency_stash_def count_stashed_def Let_def STASH_SIZE_def peak_kept_def
        set_stash_size_def set_stash_item_def set_extent_def split: if_splits)
qed

lemma peak_add_item [peak]: "coucal_add_item_i h item = Inr (h', ret) \<Longrightarrow> peak_kept h h'"
  by (auto simp: coucal_add_item_i_def Let_def bind_res_eq_Inr peak_eq split: if_splits option.splits
      intro: peak_trans [OF peak_cuckoo_loop peak_emergency_stash] dest: peak_cuckoo_loop)

lemma peak_merge_items [peak]: "merge_items h xs = Inr h' \<Longrightarrow> peak_kept h h'"
proof (induction xs arbitrary: h)
  case (Cons it xs)
  then show ?case
    by (auto simp: bind_res_eq_Inr split: if_splits prod.splits dest: peak_add_item intro: peak_trans)
qed (simp add: peak_eq)

lemma peak_expand [peak]: "expand_table h n = Inr h' \<Longrightarrow> peak_kept h h'"
  by (auto simp: expand_table_def merge_stash_def count_rehash_def Let_def bind_res_eq_Inr peak_kept_def
      split: if_splits prod.splits option.splits dest!: stats_relocate_lower peak_merge_items)

lemma stats_drained [simp]: "max_stash_size (stats (drained h)) = max_stash_size (stats h)"
proof -
  have "stats (foldl drain_slot h xs) = stats h" for h xs
    by (induction xs arbitrary: h) simp_all
  then show ?thesis by (simp add: drained_def coucal_drain_stash_def Let_def count_add_def)
qed

lemma peak_write_i [peak]: "coucal_write_value_i h nm v = Inr (h', ret) \<Longrightarrow> peak_kept h h'"
proof -
  have add: "peak_kept h h2" if copy: "coucal_dup_name (drained (count_write h)) nm = Inr (h1, k)"
      and add: "coucal_add_item_i h1 it = Inr (h2, r)" for h1 h2 k it r
  proof -
    have "peak_kept h (drained (count_write h))" by (simp add: peak_kept_def count_write_def)
    then show ?thesis by (rule peak_trans [OF _ peak_trans [OF peak_dup_name [OF copy] peak_add_item [OF add]]])
  qed
  assume "coucal_write_value_i h nm v = Inr (h', ret)"
  then show ?thesis
    by (auto simp: write_value_i_fetch add_new_eq bind_res_eq_Inr split: option.splits prod.splits dest: add)
      (simp add: peak_kept_def count_write_def)
qed

lemma peak_write [peak]: "coucal_write_value h nm v = Inr (h', ret) \<Longrightarrow> peak_kept h h'"
proof -
  have used: "peak_kept h (h1\<lparr>used := n\<rparr>)" if "peak_kept h h1" for h1 n using that by (simp add: peak_kept_def)
  assume "coucal_write_value h nm v = Inr (h', ret)"
  then show ?thesis
    by (auto simp: coucal_write_value_def Let_def bind_res_eq_Inr split: if_splits
        dest!: peak_write_i peak_expand intro: peak_trans used)
qed

lemma peak_inc [peak]: "coucal_inc_i h nm n = Inr (h', r) \<Longrightarrow> peak_kept h h'"
  by (auto simp: coucal_inc_i_def coucal_write_def Let_def bind_res_eq_Inr peak_eq
      split: option.splits if_splits dest: peak_write)

lemma peak_del_item [peak]:
  assumes "coucal_del_item h loc = Inr h'"
  shows "peak_kept h h'"
proof -
  let ?h = "coucal_del_value_i h loc"
  let ?d = "set_at ?h loc ((item_at ?h loc)\<lparr>name := KNull, hashes := null_hashkeys\<rparr>)"
  have "coucal_free_key ?d (name (item_at ?h loc)) = Inr h'"
    using assms by (simp add: coucal_del_item_def coucal_del_name_def Let_def)
  moreover have "peak_kept h ?d" by (simp add: peak_eq)
  ultimately show ?thesis using peak_trans peak_free_key by blast
qed

lemma remove_outcome:
  assumes "coucal_remove h nm = Inr (h', ret)"
  shows "h' = h \<or> (\<exists>loc h1 n. coucal_del_item h loc = Inr h1 \<and> h' = (trimmed loc h1)\<lparr>used := n\<rparr>)"
proof -
  obtain hk r where run: "coucal_calc_hashes h nm = Inr hk" "coucal_fetch_value_hashes h nm hk = Inr r"
    using assms by (auto simp: coucal_remove_def remove_i_fetch bind_res_eq_Inr)
  show ?thesis
  proof (cases r)
    case None
    then show ?thesis using assms run by (simp add: coucal_remove_def remove_i_fetch)
  next
    case (Some loc)
    obtain h1 where "coucal_del_item h loc = Inr h1" "h' = (trimmed loc h1)\<lparr>used := size_sub (used (trimmed loc h1)) 1\<rparr>"
      using assms run Some
      by (cases loc) (auto simp: coucal_remove_def remove_i_fetch bind_res_eq_Inr trimmed_def split: if_splits)
    then show ?thesis by blast
  qed
qed

lemma trimmed_simps: "stats (trimmed loc h) = stats h" "pool (trimmed loc h) = pool h"
    "custom (trimmed loc h) = custom h"
  by (simp_all add: trimmed_def trim_stash_def Let_def set_stash_size_def set_extent_def split: location.split)

lemma peak_remove [peak]:
  assumes "coucal_remove h nm = Inr (h', ret)"
  shows "peak_kept h h'"
  using remove_outcome [OF assms]
proof (elim disjE exE conjE)
  fix loc h1 n assume "coucal_del_item h loc = Inr h1" and "h' = (trimmed loc h1)\<lparr>used := n\<rparr>"
  then show ?thesis using peak_del_item [of h loc h1] by (simp add: peak_kept_def trimmed_simps)
qed (simp add: peak_eq)

section \<open>A table whose keys are the client's has no pool\<close>

text \<open>Copying and releasing a key with the client's handlers leave the pool alone.\<close>

lemma client_dup_pool: "coucal_dup_name h nm = Inr (h', k) \<Longrightarrow> key_dup (custom h) \<noteq> None \<Longrightarrow> pool h' = pool h"
  by (auto simp: coucal_dup_name_def Let_def bind_res_eq_Inr)

lemma client_write_pool:
  assumes inv: "coucal_inv h" and client: "key_dup (custom h) \<noteq> None" and nm: "deref (pool h) nm = Some s"
    and fits: "fits h s" and run: "coucal_write_value h nm v = Inr (h', ret)"
  shows "pool h' = pool h"
proof (cases "table_map h s")
  case None
  obtain h2 k where copy: "coucal_dup_name (drained (count_write h)) nm = Inr (h2, k)" and "pool h' = pool h2"
    using write_new_pool [OF inv nm None fits run] by blast
  moreover have "coucal_inv (count_write h)" using inv by simp
  note same = slots_frameD [OF drained_correct(5) [OF this]]
  ultimately show ?thesis using client_dup_pool [OF copy] client by (simp add: same)
next
  case Some
  have ok: "write_ok h s v h' ret" using write_value_correct [OF inv nm fits, of v] run by auto
  then have "ret = 0" using write_ok_map(2) [OF inv ok] Some by simp
  then show ?thesis using ok by (auto simp: write_ok_def replaced_def)
qed

lemma client_remove_pool:
  assumes inv: "coucal_inv h" and client: "key_dup (custom h) \<noteq> None"
    and run: "coucal_remove h nm = Inr (h', ret)"
  shows "pool h' = pool h"
  using remove_outcome [OF run]
proof (elim disjE exE conjE)
  fix loc h1 n assume del: "coucal_del_item h loc = Inr h1" and h': "h' = (trimmed loc h1)\<lparr>used := n\<rparr>"
  have "key_free (custom h) \<noteq> None" using inv client by (auto simp: coucal_inv_def dup_ok_def)
  moreover have "custom (coucal_del_value_i h loc) = custom h" "pool (coucal_del_value_i h loc) = pool h"
    by (simp_all add: del_value_eq Let_def)
  ultimately have "pool h1 = pool h"
    using del by (auto simp: coucal_del_item_def coucal_del_name_def Let_def coucal_free_key_def)
  then show ?thesis by (simp add: h' trimmed_simps)
qed simp

section \<open>Sizes in the states the API can reach\<close>

definition sized :: "struct_coucal \<Rightarrow> bool" where
  "sized h \<longleftrightarrow> max_stash_size (stats h) \<le> 16 \<and> (key_dup (custom h) \<noteq> None \<longrightarrow> pool h = no_pool)"

lemma sized_settings:
  "sized (coucal_value_is_malloc h flag) = sized h" "sized (coucal_set_name h nm) = sized h"
  "sized (coucal_value_set_value_handler h f arg) = sized h"
  "sized (coucal_set_assert_handler h log fatal arg) = sized h"
  "sized (coucal_set_print_handler h pk pv arg) = sized h"
  by (simp_all add: sized_def coucal_value_is_malloc_def coucal_set_name_def coucal_value_set_value_handler_def
      coucal_set_assert_handler_def coucal_set_print_handler_def)

lemma sized_kept:
  assumes "sized h" and "peak_kept h h'" and "custom h' = custom h"
    and "key_dup (custom h) \<noteq> None \<Longrightarrow> pool h' = pool h"
  shows "sized h'"
  using assms by (auto simp: sized_def peak_kept_def)

lemma sized_step:
  assumes "api_step h h'" and inv: "coucal_inv h" and "sized h"
  shows "sized h'"
  using assms(1)
proof cases
  case (do_write nm s v ret)
  then have "write_ok h s v h' ret" using write_value_correct [OF inv do_write(1,2), of v] by auto
  then have "custom h' = custom h" by (simp add: write_ok_def)
  with peak_write [OF do_write(3)] show ?thesis
    using client_write_pool [OF inv _ do_write] by (intro sized_kept [OF assms(3)]) auto
next
  case (do_inc nm s n r)
  have "custom h' = custom h" using inc_i_correct [OF inv do_inc(1,2), of n] do_inc(3) by (auto simp: inc_ok_def)
  moreover have "pool h' = pool h" if "key_dup (custom h) \<noteq> None"
    using do_inc(3) client_write_pool [OF inv that do_inc(1,2), of n]
    by (auto simp: coucal_inc_i_def coucal_write_def Let_def bind_res_eq_Inr set_value_def split: option.splits if_splits)
  ultimately show ?thesis using peak_inc [OF do_inc(3)] by (intro sized_kept [OF assms(3)]) auto
next
  case (do_remove nm s ret)
  have "custom h' = custom h"
    using remove_correct [OF inv do_remove(1)] do_remove(2) by (auto simp: remove_ok_def)
  with peak_remove [OF do_remove(2)] show ?thesis
    using client_remove_pool [OF inv _ do_remove(2)] by (intro sized_kept [OF assms(3)]) auto
qed (use assms(3) in \<open>simp_all add: sized_settings\<close>)

lemma new_fields:
  assumes "coucal_new hp n = (Some h, hp')"
  shows "stats h = no_stats" and "stash h = empty_stash" and "pool h = no_pool" and "custom h = no_custom"
    and "calls h = []" and "heap h = hp'"
  using assms by (auto simp: coucal_new_def Let_def split: if_splits prod.splits)

lemma reachable_sized: "reachable h \<Longrightarrow> sized h"
proof (induction rule: reachable.induct)
  case new
  then show ?case using new_fields [OF new] by (simp add: sized_def no_stats_def)
next
  case (new_with_handlers hp n h)
  note fresh = new_fields [OF new_with_handlers(1)]
  have "pool h' = pool h" "stats h' = stats h" if "coucal_value_set_key_handler h dup free hash equals arg = Inr h'"
    for dup free hash equals arg h'
    using that by (auto simp: coucal_value_set_key_handler_def split: if_splits)
  then show ?case using fresh new_with_handlers(2) by (simp add: sized_def no_stats_def)
next
  case (step h h')
  then show ?case using sized_step reachable_inv by blast
qed

text \<open>What the two say of the pool and of the stash.\<close>

lemma pool_in_range:
  assumes "reachable h"
  shows "pool_used (pool h) \<le> pool_size (pool h) \<and> pool_size (pool h) \<le> capacity (pool h) \<and>
    length (pool_bytes (pool h)) \<le> capacity (pool h) \<and> capacity (pool h) \<le> ptrdiff_max"
proof (cases "key_dup (custom h)")
  case None
  then have "pool_inv (pool h) (heap h) (live_names h)"
    using reachable_inv [OF assms] by (simp add: coucal_inv_def storage_inv_def)
  then show ?thesis by (auto simp: pool_inv_def pool_bytes_def split: option.splits)
next
  case Some
  then have "pool h = no_pool" using reachable_sized [OF assms] by (simp add: sized_def)
  then show ?thesis by (simp add: no_pool_def pool_bytes_def)
qed

lemma stash_size_card:
  assumes "stash_core st"
  shows "stash_size st = card {i. i < extent st \<and> name (stash_items st ! i) \<noteq> KNull}"
proof -
  have core: "length (stash_items st) = 16" "extent st \<le> 16"
    "\<forall>i. extent st \<le> i \<and> i < 16 \<longrightarrow> name (stash_items st ! i) = KNull"
    using assms by (simp_all add: stash_core_def STASH_SIZE_def)
  have "stash_size st = length (filter (\<lambda>it. name it \<noteq> KNull) (stash_items st))"
    using assms by (simp add: stash_core_def live_of_def flip: mset_filter)
  also have "\<dots> = card {i. i < 16 \<and> name (stash_items st ! i) \<noteq> KNull}"
    by (simp only: length_filter_conv_card core(1))
  also have "{i. i < 16 \<and> name (stash_items st ! i) \<noteq> KNull} = {i. i < extent st \<and> name (stash_items st ! i) \<noteq> KNull}"
    using core(2,3) by (auto simp: not_less [symmetric])
  finally show ?thesis .
qed

end
