(* ===== verification/Frames.thy ===== *)
theory Frames
  imports Store
begin

text \<open>
  What a replacement leaves alone (\<open>coucal_write_value()\<close> on a key that is present, \<open>src/coucal.c\<close>): every
  slot but the key's, and of that slot all but the value; the pool, the allocator, the stash's
  bookkeeping and the counts. No hypothesis on the allocator or on the room in the stash is needed.
\<close>

text \<open>All that a replacement at slot \<open>i\<close> does.\<close>

definition replaced_at :: "struct_coucal \<Rightarrow> byte list \<Rightarrow> coucal_value \<Rightarrow> nat \<Rightarrow> struct_coucal \<Rightarrow> bool" where
  "replaced_at h s v i h' \<longleftrightarrow>
     i < length (slots h) \<and> item_is h s (slots h ! i) \<and>
     slots h' = (slots h)[i := (slots h ! i)\<lparr>value := v\<rparr>] \<and>
     calls h' = calls h @ freed (custom h) (value (slots h ! i)) \<and>
     custom h' = custom h \<and> pool h' = pool h \<and> heap h' = heap h \<and> used h' = used h \<and> lg_size h' = lg_size h \<and>
     stash_size (stash h') = stash_size (stash h) \<and> extent (stash h') = extent (stash h)"

lemma replaced_at_set:
  assumes slots: "slots_inv h" and loc: "valid_loc h loc" and is_s: "item_is h s (item_at h loc)"
  shows "replaced_at h s v (slot_index h loc) (set_value (coucal_del_value_i h loc) loc v)"
proof -
  let ?c = "h\<lparr>calls := calls h @ freed (custom h) (value (item_at h loc))\<rparr>"
  have "valid_loc ?c loc" using loc by simp
  note set = slots_set_at [OF this]
  note at = slots_nth [OF slots loc]
  have stash: "stash_size (stash (set_at h loc it)) = stash_size (stash h)"
      "extent (stash (set_at h loc it)) = extent (stash h)" for h it
    by (cases loc; simp add: set_at_def set_item_def set_stash_item_def)+
  have "slot_index ?c loc = slot_index h loc" by (cases loc) (simp_all add: slot_index_def)
  then show ?thesis
    using set at is_s by (simp add: replaced_at_def set_value_del [OF slots loc] stash)
qed

lemma replace_frame:
  assumes inv: "coucal_inv h" and nm: "deref (pool h) nm = Some s" and found: "table_map h s \<noteq> None"
  shows "\<exists>h' i. coucal_write_value h nm v = Inr (h', 0) \<and> replaced_at h s v i h' \<and> coucal_inv h' \<and>
    table_map h' = (\<lambda>t. if equals_of (custom h) s t then Some v else table_map h t) \<and>
    live_names h' = live_names h"
proof -
  let ?h = "count_write h"
  have inv1: "coucal_inv ?h" and nm1: "deref (pool ?h) nm = Some s" using inv nm by simp_all
  have slots1: "slots_inv ?h" using inv1 by (simp add: coucal_inv_def)
  have is_eq: "item_is ?h t = item_is h t" for t by (rule ext) (simp add: item_is_def)
  have same: "table_map ?h = table_map h" by (rule ext) (simp add: table_map_def is_eq)
  have names: "live_names ?h = live_names h" by (simp add: live_names_eq)
  obtain loc where fetch: "coucal_fetch_value_hashes ?h nm (hash_of (custom h) s) = Inr (Some loc)"
    and loc: "valid_loc ?h loc" "item_is ?h s (item_at ?h loc)"
    using fetch_value_map [OF coucal_inv_lookup [OF inv1] nm1] found same by auto
  define h' where "h' = set_value (coucal_del_value_i ?h loc) loc v"
  note rep = write_replace_correct [OF inv1 loc h'_def]
  have "coucal_calc_hashes h nm = Inr (hash_of (custom h) s)"
    using nm by (simp add: coucal_calc_hashes_def read_key_def)
  then have run: "coucal_write_value h nm v = Inr (h', 0)"
    using fetch by (simp add: coucal_write_value_def write_value_i_fetch h'_def)
  have "replaced_at ?h s v (slot_index ?h loc) h'" unfolding h'_def by (rule replaced_at_set [OF slots1 loc])
  then have "replaced_at h s v (slot_index ?h loc) h'" by (simp add: replaced_at_def is_eq slots_def)
  moreover have "live_names h' = live_names h" using rep(2) names by (auto simp: replaced_def)
  moreover have "pool h' = pool ?h" using rep(2) by (auto simp: replaced_def)
  then have "write_ok ?h s v h' 0" using rep by (simp add: write_ok_def)
  from write_ok_map(1) [OF inv1 this]
  have "table_map h' = (\<lambda>t. if equals_of (custom h) s t then Some v else table_map h t)" unfolding same by simp
  ultimately show ?thesis using run rep(1) by blast
qed

end
