(* ===== verification/Report.thy ===== *)
theory Report
  imports TraceCorrect
begin

text \<open>
  The report of \<open>coucal_add_item_()\<close> (\<open>src/coucal.c\<close>) when an item finds no room: both positions
  taken, the displacements at an end and the stash full. The lemmas give its critical messages one
  by one, three for each stashed item.
\<close>

section \<open>A full stash\<close>

lemma stash_full:
  assumes "stash_core st" and "stash_size st = 16"
  shows "extent st = 16" and "\<And>i. i < 16 \<Longrightarrow> name (stash_items st ! i) \<noteq> KNull"
proof -
  let ?xs = "stash_items st"
  have core: "length ?xs = 16" "extent st \<le> 16" "size (live_of ?xs) = 16"
    "\<forall>i. extent st \<le> i \<and> i < 16 \<longrightarrow> name (?xs ! i) = KNull"
    using assms by (simp_all add: stash_core_def STASH_SIZE_def)
  have "length (filter (\<lambda>it. name it \<noteq> KNull) ?xs) = length ?xs"
    using core(1,3) by (simp add: live_of_def flip: mset_filter)
  then have "filter (\<lambda>it. \<not> name it \<noteq> KNull) ?xs = []"
    using sum_length_filter_compl [of "\<lambda>it. name it \<noteq> KNull" ?xs] by simp
  then have "\<forall>it \<in> set ?xs. name it \<noteq> KNull" by (simp add: filter_empty_conv)
  then show live: "name (?xs ! i) \<noteq> KNull" if "i < 16" for i using that core(1) by simp
  show "extent st = 16"
  proof (rule ccontr)
    assume "extent st \<noteq> 16"
    then have "extent st < 16" using core(2) by simp
    then show False using core(4) live [of "extent st"] by blast
  qed
qed

text \<open>The displacements end with an item in hand, and the stash has no room for it.\<close>

lemma add_item_full:
  assumes "slots_inv h" and "name item \<noteq> KNull"
    and fail: "coucal_add_item_i h item = Inl (AssertFailed A_cuckoo_stash_collision)"
  obtains h1 it where
    "cuckoo_loop (POW2 (lg_size h)) h item (hash1 (hashes item)) (hash1 (hashes item)) = Inr (h1, Some it)"
    and "slots_inv h1" and "slots_frame h h1" and "stash h1 = stash h" and "stash_size (stash h) = 16"
    and "\<not> coucal_is_free h (coucal_hash_to_pos h (hash1 (hashes item)))"
    and "\<not> coucal_is_free h (coucal_hash_to_pos h (hash2 (hashes item)))"
proof -
  obtain h1 r where h1: "cuckoo_loop (POW2 (lg_size h)) h item (hash1 (hashes item)) (hash1 (hashes item)) = Inr (h1, r)"
    "slots_inv h1" "slots_frame h h1" "stash h1 = stash h"
    using cuckoo_moves_correct [OF assms(1,2)] by metis
  have taken: "\<not> coucal_is_free h (coucal_hash_to_pos h (hash1 (hashes item)))"
      "\<not> coucal_is_free h (coucal_hash_to_pos h (hash2 (hashes item)))"
    using fail by (auto simp: coucal_add_item_i_def Let_def split: if_splits)
  then obtain it where it: "r = Some it" "emergency_stash h1 it = Inl (AssertFailed A_cuckoo_stash_collision)"
    using fail h1(1) by (cases r) (auto simp: coucal_add_item_i_def Let_def)
  have "stash_size (stash h) = 16"
    using coucal_add_item_correct [OF assms(1,2)] fail by auto
  then show ?thesis using that h1 it(1) taken by blast
qed

section \<open>Its messages\<close>

lemma quiet_success: "logs m (Inr x) \<Longrightarrow> valid_log_level n \<Longrightarrow> filter critical (fst (m n)) = []"
  using logsD(3) [of m "Inr x" n] by (auto simp: log_ends_def filter_empty_conv)

lemma full_stash_log:
  assumes inv: "slots_inv h" and nn: "name item \<noteq> KNull" and print: "print_key (custom h) \<noteq> None"
    and level: "valid_log_level n"
    and loop: "cuckoo_loop (POW2 (lg_size h)) h item (hash1 (hashes item)) (hash1 (hashes item)) = Inr (h1, Some it)"
    and full: "stash_size (stash h1) = 16"
    and taken: "\<not> coucal_is_free h (coucal_hash_to_pos h (hash1 (hashes item)))"
      "\<not> coucal_is_free h (coucal_hash_to_pos h (hash2 (hashes item)))"
  shows "filter critical (fst (coucal_add_item_log n h item)) =
    map DumpMessage (stash_dump h1) @ [AssertionMessage A_cuckoo_stash_collision]"
proof -
  let ?loop = "\<lambda>n. cuckoo_loop_log n (POW2 (lg_size h)) h item (hash1 (hashes item)) (hash1 (hashes item))"
  let ?told = "\<lambda>n. trace_key n h (name item)
    (\<lambda>t. CollisionWith t (coucal_hash_to_pos h (hash2 (hashes item))) (ucast (hash1 (hashes item))))"
  have printable: "printable h k" for k using print unfolding printable_def by blast
  have traced: "logs ?told (Inr ())" by (rule logs_trace) (simp_all add: printable)
  have "logs ?loop (Inr (h1, Some it))"
    unfolding loop [symmetric] using inv nn
    by (intro logs_cuckoo_loop) (simp_all add: slots_inv_def all_printable_def printable)
  note parts = traced this
  have last: "fst (emergency_stash_log n h1 it) =
      filter (compiled n) (map DumpMessage (stash_dump h1) @ [SummaryMessage (stats_arguments h1)]) @
      [AssertionMessage A_cuckoo_stash_collision]"
    using full by (simp add: emergency_stash_log_def STASH_SIZE_def bind_log_def say_all_def run_log_def)
  have "fst (coucal_add_item_log n h item) = fst (?told n) @ fst (?loop n) @ fst (emergency_stash_log n h1 it)"
    using taken logsD(1) [OF parts(1) level] logsD(1) [OF parts(2) level]
    by (simp add: coucal_add_item_log_def Let_def fst_bind_log)
  then show ?thesis
    using quiet_success [OF parts(1) level] quiet_success [OF parts(2) level]
    by (simp add: last filter_map o_def)
qed

text \<open>
  The lines of the report, in terms of the table before the displacements, which changed neither
  the stash nor the handlers: each of the sixteen slots gives the item and its two positions.
\<close>

lemma stash_dump_spelled:
  assumes inv: "slots_inv h1" and frame: "slots_frame h h1" and stash: "stash h1 = stash h"
    and full: "stash_size (stash h) = 16"
    and print: "print_key (custom h) = Some f" "print_value (custom h) = Some g"
  shows "stash_dump h1 = concat (map (\<lambda>i.
      let s = stash_items (stash h) ! i;
          place = (\<lambda>p. if name (items h1 ! p) = KNull then FreeLine (c_int p)
                       else CollidingLine (print_item h f g (items h1 ! p)))
      in [StashLine (int i) (print_item h f g s), place (unat (hash1 (hashes s)) mod 2 ^ lg_size h),
          place (unat (hash2 (hashes s)) mod 2 ^ lg_size h)]) [0..<16])"
proof -
  note same = slots_frameD [OF frame]
  have core: "stash_core (stash h1)" and lg: "lg_size h1 \<le> 32"
    using inv by (simp_all add: slots_inv_def stash_inv_def table_invD)
  have full1: "stash_size (stash h1) = 16" using full stash by simp
  have pos: "coucal_hash_to_pos h1 hk = unat hk mod 2 ^ lg_size h" for hk
    using lg same(1) by (simp add: coucal_hash_to_pos_def coucal_hash_to_pos_mod)
  have shown: "print_item h1 f g = print_item h f g"
    by (rule ext) (simp add: print_item_def same coucal_hash_to_pos_def)
  have "c_int i = int i" if "i < 16" for i
    using that by (simp add: c_int_def signed_of_nat signed_take_bit_int_eq_self)
  then have slot: "dump_slot h1 f g i = (let s = stash_items (stash h) ! i;
          place = (\<lambda>p. if name (items h1 ! p) = KNull then FreeLine (c_int p)
                       else CollidingLine (print_item h f g (items h1 ! p)))
      in [StashLine (int i) (print_item h f g s), place (unat (hash1 (hashes s)) mod 2 ^ lg_size h),
          place (unat (hash2 (hashes s)) mod 2 ^ lg_size h)])" if "i < 16" for i
    using stash_full(2) [OF core full1 that] that
    by (simp add: dump_slot_def dump_neighbour_def coucal_is_free_def Let_def pos shown stash)
  have "stash_dump h1 = concat (map (dump_slot h1 f g) [0..<16])"
    using stash_full(1) [OF core full1] print same(4) by (simp add: stash_dump_def)
  moreover have "map (dump_slot h1 f g) [0..<16] = map (\<lambda>i.
      let s = stash_items (stash h) ! i;
          place = (\<lambda>p. if name (items h1 ! p) = KNull then FreeLine (c_int p)
                       else CollidingLine (print_item h f g (items h1 ! p)))
      in [StashLine (int i) (print_item h f g s), place (unat (hash1 (hashes s)) mod 2 ^ lg_size h),
          place (unat (hash2 (hashes s)) mod 2 ^ lg_size h)]) [0..<16]"
    by (rule map_cong [OF refl]) (rule slot, simp only: atLeastLessThan_iff set_upt)
  ultimately show ?thesis by (rule trans [OF _ arg_cong [where f = concat]])
qed

end
