(* ===== verification/Md5.thy ===== *)
theory Md5
  imports HashData
begin

text \<open>
  \<open>coucal_hash_data()\<close> (\<open>src/coucal.c\<close>) with the MD5 back ends. The digest itself is code outside
  the repository (the bundled \<open>md5.h\<close> or OpenSSL's), so its three functions are parameters:
  \<open>init\<close>, the context after \<open>HashMD5Init()\<close>; \<open>upd\<close>, which feeds bytes to a context; \<open>fin\<close>, the
  digest of a context, 16 bytes. The lemmas show that feeding the key by chunks is the same as
  feeding it at once, for a digest that only depends on the bytes fed.
\<close>

section \<open>The chunk loop\<close>

text \<open>The size of the next chunk, an \<open>unsigned int\<close>.\<close>

definition md5_chunk :: "nat \<Rightarrow> nat" where
  "md5_chunk remaining =
     (if remaining \<le> 0x10000000 then unat (of_nat remaining :: u32) else 0x10000000)"

lemma md5_chunk_eq: "md5_chunk n = min n 0x10000000"
proof (cases "n \<le> 0x10000000")
  case True
  then have "unat (of_nat n :: u32) = n" by (simp add: unsigned_of_nat take_bit_nat_eq_self)
  then show ?thesis using True by (simp add: md5_chunk_def)
qed (simp add: md5_chunk_def)

function md5_loop :: "('c \<Rightarrow> byte list \<Rightarrow> 'c) \<Rightarrow> byte list \<Rightarrow> nat \<Rightarrow> 'c \<Rightarrow> 'c" where
  "md5_loop upd data offset ctx =
     (if offset < length data then
        let remaining = length data - offset;
            chunk = md5_chunk remaining
        in md5_loop upd data (offset + chunk) (upd ctx (take chunk (drop offset data)))
      else ctx)"
  by pat_completeness auto

termination
  by (relation "measure (\<lambda>(upd, data, offset, ctx). length data - offset)")
    (auto simp: md5_chunk_eq)

declare md5_loop.simps [simp del]

section \<open>The two back ends\<close>

text \<open>The union: the digest's bytes read as two pairs of 32-bit hashes.\<close>

definition md5_mix :: "byte list \<Rightarrow> coucal_hashkeys" where
  "md5_mix digest =
     distinct_hashkeys
       \<lparr>hash1 = getblock32 digest 0 XOR getblock32 digest 2,
        hash2 = getblock32 digest 1 XOR getblock32 digest 3\<rparr>"

definition coucal_hash_data_md5 ::
  "'c \<Rightarrow> ('c \<Rightarrow> byte list \<Rightarrow> 'c) \<Rightarrow> ('c \<Rightarrow> byte list) \<Rightarrow> byte list \<Rightarrow> coucal_hashkeys" where
  "coucal_hash_data_md5 init upd fin data = md5_mix (fin (md5_loop upd data 0 init))"

text \<open>With OpenSSL the context is allocated; \<open>None\<close> is the failed assertion when it is not.\<close>

definition coucal_hash_data_openssl ::
  "'c option \<Rightarrow> ('c \<Rightarrow> byte list \<Rightarrow> 'c) \<Rightarrow> ('c \<Rightarrow> byte list) \<Rightarrow> byte list \<Rightarrow> coucal_hashkeys option"
where
  "coucal_hash_data_openssl new upd fin data =
     (case new of None \<Rightarrow> None | Some init \<Rightarrow> Some (md5_mix (fin (md5_loop upd data 0 init))))"

section \<open>Feeding by chunks\<close>

text \<open>A digest that depends on the bytes fed only, not on how they are split.\<close>

definition streaming :: "('c \<Rightarrow> byte list \<Rightarrow> 'c) \<Rightarrow> bool" where
  "streaming upd \<longleftrightarrow> (\<forall>c. upd c [] = c) \<and> (\<forall>c xs ys. upd (upd c xs) ys = upd c (xs @ ys))"

lemma md5_loop_streaming:
  assumes "streaming upd"
  shows "md5_loop upd data offset ctx = upd ctx (drop offset data)"
  using assms
proof (induction upd data offset ctx rule: md5_loop.induct)
  case (1 upd data offset ctx)
  let ?chunk = "md5_chunk (length data - offset)"
  show ?case
  proof (cases "offset < length data")
    case True
    have "md5_loop upd data offset ctx =
        upd (upd ctx (take ?chunk (drop offset data))) (drop (offset + ?chunk) data)"
      using "1.IH" [OF True refl refl] "1.prems" True by (simp add: md5_loop.simps [of upd data offset] Let_def)
    also have "\<dots> = upd ctx (take ?chunk (drop offset data) @ drop ?chunk (drop offset data))"
      using "1.prems" by (simp add: streaming_def add.commute)
    finally show ?thesis by (simp only: append_take_drop_id)
  next
    case False
    then show ?thesis using "1.prems" by (simp add: md5_loop.simps streaming_def)
  qed
qed

lemma md5_mix_neq: "hash1 (md5_mix d) \<noteq> hash2 (md5_mix d)"
  unfolding md5_mix_def by (rule distinct_hashkeys_neq)

end
