(* ===== verification/Hash64.thy ===== *)
theory Hash64
  imports Md5
begin

text \<open>
  The build with \<open>COUCAL_HASH_SIZE\<close> 64 (\<open>src/coucal.h\<close>, \<open>src/coucal.c\<close>): the same three back
  ends of \<open>coucal_hash_data()\<close> without the step that narrows a hash to 32 bits, and the functions
  of the table that depend on the width of a hash. The lemmas relate the two builds: a 32-bit
  hash is a 64-bit one folded, so both builds rest on the same digest.
\<close>

section \<open>Hash keys of 64 bits\<close>

type_synonym wide_hashkey = u64

record wide_hashkeys =
  wide1 :: wide_hashkey
  wide2 :: wide_hashkey

definition distinct_wide :: "wide_hashkeys \<Rightarrow> wide_hashkeys" where
  "distinct_wide k = (if wide1 k = wide2 k then k\<lparr>wide2 := NOT (wide2 k)\<rparr> else k)"

text \<open>Two 32-bit words of a union read as one 64-bit word, on a little-endian host.\<close>

definition join32 :: "u32 \<Rightarrow> u32 \<Rightarrow> u64" where
  "join32 lo hi = ucast lo OR push_bit 32 (ucast hi)"

definition coucal_hash_data64 :: "byte list \<Rightarrow> wide_hashkeys" where
  "coucal_hash_data64 data =
     (let r = MurmurHash3_x86_128 data 42
      in distinct_wide \<lparr>wide1 = join32 (mh1 r) (mh2 r), wide2 = join32 (mh3 r) (mh4 r)\<rparr>)"

definition coucal_hash_data_fnv1_64 :: "byte list \<Rightarrow> wide_hashkeys" where
  "coucal_hash_data_fnv1_64 data =
     (let h = fnv1_loop data 0 (length data) (fnv1_offset_basis, NOT fnv1_offset_basis)
      in distinct_wide \<lparr>wide1 = fst h, wide2 = snd h\<rparr>)"

definition md5_wide :: "byte list \<Rightarrow> wide_hashkeys" where
  "md5_wide digest =
     distinct_wide
       \<lparr>wide1 = join32 (getblock32 digest 0) (getblock32 digest 1),
        wide2 = join32 (getblock32 digest 2) (getblock32 digest 3)\<rparr>"

definition coucal_hash_data_md5_64 ::
  "'c \<Rightarrow> ('c \<Rightarrow> byte list \<Rightarrow> 'c) \<Rightarrow> ('c \<Rightarrow> byte list) \<Rightarrow> byte list \<Rightarrow> wide_hashkeys" where
  "coucal_hash_data_md5_64 init upd fin data = md5_wide (fin (md5_loop upd data 0 init))"

section \<open>Positions and sizes\<close>

text \<open>The mask is a \<open>coucal_hashkey\<close>, so it is as wide as a \<open>size_t\<close> here and nothing is cut off.\<close>

definition coucal_hash_to_pos_64 :: "nat \<Rightarrow> u64 \<Rightarrow> nat" where
  "coucal_hash_to_pos_64 lg hash =
     (let mask = push_bit lg (1 :: u64) - 1 in unat (hash AND mask))"

definition coucal_is_acceptable_pow2_64 :: "nat \<Rightarrow> bool" where
  "coucal_is_acceptable_pow2_64 lg \<longleftrightarrow> lg \<le> 64 \<and> lg < 64"

section \<open>The two builds\<close>

definition low32 :: "u64 \<Rightarrow> u32" where "low32 w = ucast w"
definition high32 :: "u64 \<Rightarrow> u32" where "high32 w = ucast (drop_bit 32 w)"

lemma low32_join [simp]: "low32 (join32 lo hi) = lo"
  by (rule bit_word_eqI) (auto simp: low32_def join32_def bit_simps)

lemma high32_join [simp]: "high32 (join32 lo hi) = hi"
  by (rule bit_word_eqI) (auto simp: high32_def join32_def bit_simps dest: bit_imp_le_length)

lemma low32_xor: "low32 (a XOR b) = low32 a XOR low32 b"
  by (rule bit_word_eqI) (auto simp: low32_def bit_simps)

lemma high32_xor: "high32 (a XOR b) = high32 a XOR high32 b"
  by (rule bit_word_eqI) (auto simp: high32_def bit_simps)

lemma distinct_wide_neq: "wide1 (distinct_wide k) \<noteq> wide2 (distinct_wide k)"
  by (simp add: distinct_wide_def)

lemma distinct_wide_wide1 [simp]: "wide1 (distinct_wide k) = wide1 k"
  by (simp add: distinct_wide_def)

text \<open>What the mixing step of the narrow build makes of two 64-bit hashes.\<close>

definition narrow_mix :: "u64 \<Rightarrow> u64 \<Rightarrow> coucal_hashkeys" where
  "narrow_mix w1 w2 =
     distinct_hashkeys \<lparr>hash1 = low32 (w1 XOR w2), hash2 = high32 (w1 XOR w2)\<rparr>"

lemma narrow_mix_join:
  "narrow_mix (join32 a b) (join32 c d) = distinct_hashkeys \<lparr>hash1 = a XOR c, hash2 = b XOR d\<rparr>"
  by (simp add: narrow_mix_def low32_xor high32_xor)

lemma fnv1_fold32_halves: "fnv1_fold32 h = low32 h XOR high32 h"
  by (simp add: fnv1_fold32_def low32_def high32_def)

lemma fnv1_fold32_not: "fnv1_fold32 (NOT h) = fnv1_fold32 h"
  by (rule bit_word_eqI) (auto simp: fnv1_fold32_def bit_simps)

text \<open>The fold forgets whether the second hash was complemented, so it commutes with telling apart.\<close>

lemma fnv1_fold_distinct:
  "distinct_hashkeys \<lparr>hash1 = fnv1_fold32 (wide1 (distinct_wide k)),
     hash2 = fnv1_fold32 (wide2 (distinct_wide k))\<rparr> =
   distinct_hashkeys \<lparr>hash1 = fnv1_fold32 (wide1 k), hash2 = fnv1_fold32 (wide2 k)\<rparr>"
  by (simp add: distinct_wide_def fnv1_fold32_not)

lemma fnv1_narrow:
  "coucal_hash_data_fnv1 data =
     distinct_hashkeys \<lparr>hash1 = fnv1_fold32 (wide1 (coucal_hash_data_fnv1_64 data)),
       hash2 = fnv1_fold32 (wide2 (coucal_hash_data_fnv1_64 data))\<rparr>"
  unfolding coucal_hash_data_fnv1_def coucal_hash_data_fnv1_64_def Let_def fnv1_fold_distinct
  by simp

lemma murmur_narrow:
  "\<exists>raw. coucal_hash_data64 data =
      distinct_wide \<lparr>wide1 = wide1 (coucal_hash_data64 data), wide2 = raw\<rparr> \<and>
    coucal_hash_data data = narrow_mix (wide1 (coucal_hash_data64 data)) raw"
  unfolding coucal_hash_data_def coucal_hash_data64_def Let_def
  by (intro exI [of _ "join32 (mh3 (MurmurHash3_x86_128 data 42)) (mh4 (MurmurHash3_x86_128 data 42))"])
    (simp add: narrow_mix_join)

lemma md5_narrow:
  "\<exists>raw. md5_wide digest = distinct_wide \<lparr>wide1 = wide1 (md5_wide digest), wide2 = raw\<rparr> \<and>
    md5_mix digest = narrow_mix (wide1 (md5_wide digest)) raw"
  unfolding md5_mix_def md5_wide_def
  by (intro exI [of _ "join32 (getblock32 digest 2) (getblock32 digest 3)"])
    (simp add: narrow_mix_join)

text \<open>
  A build with 32-bit hashes computes them from what one with 64-bit hashes computes, folding each
  with FNV-1, mixing the two with Murmur and MD5.
\<close>

lemma wide_hashes_narrow:
  "coucal_hash_data_fnv1 data =
     distinct_hashkeys \<lparr>hash1 = fnv1_fold32 (wide1 (coucal_hash_data_fnv1_64 data)),
       hash2 = fnv1_fold32 (wide2 (coucal_hash_data_fnv1_64 data))\<rparr> \<and>
   (\<exists>raw. coucal_hash_data64 data =
        distinct_wide \<lparr>wide1 = wide1 (coucal_hash_data64 data), wide2 = raw\<rparr> \<and>
      coucal_hash_data data = narrow_mix (wide1 (coucal_hash_data64 data)) raw) \<and>
   (\<exists>raw. coucal_hash_data_md5_64 init upd fin data =
        distinct_wide \<lparr>wide1 = wide1 (coucal_hash_data_md5_64 init upd fin data), wide2 = raw\<rparr> \<and>
      coucal_hash_data_md5 init upd fin data =
        narrow_mix (wide1 (coucal_hash_data_md5_64 init upd fin data)) raw) \<and>
   wide1 (coucal_hash_data64 data) \<noteq> wide2 (coucal_hash_data64 data) \<and>
   wide1 (coucal_hash_data_fnv1_64 data) \<noteq> wide2 (coucal_hash_data_fnv1_64 data)"
proof (intro conjI)
  show "wide1 (coucal_hash_data64 data) \<noteq> wide2 (coucal_hash_data64 data)"
    unfolding coucal_hash_data64_def Let_def by (rule distinct_wide_neq)
  show "wide1 (coucal_hash_data_fnv1_64 data) \<noteq> wide2 (coucal_hash_data_fnv1_64 data)"
    unfolding coucal_hash_data_fnv1_64_def Let_def by (rule distinct_wide_neq)
  show "\<exists>raw. coucal_hash_data_md5_64 init upd fin data =
        distinct_wide \<lparr>wide1 = wide1 (coucal_hash_data_md5_64 init upd fin data), wide2 = raw\<rparr> \<and>
      coucal_hash_data_md5 init upd fin data =
        narrow_mix (wide1 (coucal_hash_data_md5_64 init upd fin data)) raw"
    unfolding coucal_hash_data_md5_def coucal_hash_data_md5_64_def by (rule md5_narrow)
qed (rule fnv1_narrow murmur_narrow)+

lemma coucal_hash_to_pos_64_mod: "coucal_hash_to_pos_64 lg hash = unat hash mod 2 ^ lg"
proof -
  have "coucal_hash_to_pos_64 lg hash = unat (take_bit lg hash)"
    by (simp only: coucal_hash_to_pos_64_def Let_def take_bit_eq_mask mask_eq_decr_exp push_bit_eq_mult
        mult_1 )
  then show ?thesis by (simp only: unsigned_take_bit_eq) (simp only: take_bit_eq_mod)
qed

end
