(* ===== verification/HashVectors.thy ===== *)
theory HashVectors
  imports Hash64
begin

text \<open>
  The known-answer test of the hash functions (\<open>coucal_test_hash_vectors()\<close> of \<open>src/tests.c\<close>) and its
  vectors, in both widths. Those of the two back ends whose code is in the repository are evaluated
  by rewriting, with a word kept as the integer it is made of. The MD5 functions are not in the
  repository; their two tables of vectors are shown to be those of one digest.
\<close>

section \<open>The test\<close>

definition kat_lengths :: "nat list" where
  "kat_lengths = [0, 1, 4, 15, 16, 17, 31, 32, 33, 64]"

definition kat_md5_32 :: "(u64 \<times> u64) list" where
  "kat_md5_32 =
    [(0x41859d3d, 0x7af0f863), (0x5730c9b4, 0x669bdf66), (0x9bce5ae8, 0xd6f80007),
     (0xdb0207ec, 0x6596ab43), (0xf574fd85, 0x4adc0cbf), (0xddf3d440, 0x75a80183),
     (0xeb956e99, 0xc022457e), (0xf4c6b6c9, 0xcf63c053), (0xd6f7e72b, 0xddbe6383),
     (0xf0dd1d57, 0x546bee2a)]"

definition kat_md5_64 :: "(u64 \<times> u64) list" where
  "kat_md5_64 =
    [(0x04b2008fd98c1dd4, 0x7e42f8ec980980e9), (0x03370177d9ffc813, 0x65acde118ecf01a7),
     (0xc6f3ff633fecaf8f, 0x100bff64a422f567), (0xd233b6dc93008ed5, 0xb7a51d9f48028939),
     (0x145bc87100617b88, 0x5e87c4cef515860d), (0x8e63ce253b5f76e7, 0xfbcbcfa6e6aca2a7),
     (0xdfeea7ab59c25736, 0x1fcce2d5b25739af), (0x7b2c5710ba0c2c8e, 0xb44f97434eca9a47),
     (0xf05d199084455939, 0x2de37a1352b2be12), (0x48a67a0cb723e171, 0x1ccd942647fefc26)]"

definition kat_murmur_32 :: "(u64 \<times> u64) list" where
  "kat_murmur_32 =
    [(0x3aa5200c, 0x00000000), (0xfd3673c3, 0x00000000), (0x8ae9d282, 0x00000000),
     (0x4389f567, 0x0601ed3c), (0x779e50e4, 0xdd672d9c), (0xde07a68f, 0xa24806bd),
     (0x7de97cf6, 0xb3b5376f), (0x64ecc591, 0x5af5e487), (0x7f4b072f, 0xb4033332),
     (0x0afda147, 0x0c0bb6d5)]"

definition kat_murmur_64 :: "(u64 \<times> u64) list" where
  "kat_murmur_64 =
    [(0x95c80cbaaf6d2cb6, 0x95c80cba95c80cba), (0xc823081235157bd1, 0xc8230812c8230812),
     (0x3ad28e70b03b5cf2, 0x3ad28e703ad28e70), (0x882f036680412724, 0x8e2eee5ac3c8d243),
     (0x62b4501328e77eb7, 0xbfd37d8f5f792e53), (0xa725b5bd4aa2dc25, 0x056db30094a57aaa),
     (0x872eed54a35d8b40, 0x349bda3bdeb4f7b6), (0x029c3adcdb543fa5, 0x5869de5bbfb8fa34),
     (0x755be581d8a4511c, 0xc158d6b3a7ef5633), (0xb2f9883d0c611652, 0xbef23ee8069cb715)]"

definition kat_fnv1_32 :: "(u64 \<times> u64) list" where
  "kat_fnv1_32 =
    [(0x4fd0bfc1, 0xb02f403e), (0x29620a98, 0x29620729), (0x8a72ee46, 0x6c07f166),
     (0xd8bfa3ae, 0xce1e727f), (0x8a24f51a, 0xabb066bb), (0xdfa36ca7, 0x01f83463),
     (0x10e2ba78, 0x01342177), (0x95651530, 0x83658d24), (0x0550b2db, 0xde3c677b),
     (0x8df158b0, 0xc61343bd)]"

definition kat_fnv1_64 :: "(u64 \<times> u64) list" where
  "kat_fnv1_64 =
    [(0xcbf29ce484222325, 0x340d631b7bdddcda), (0xaf63bd4c8601b7d4, 0x509c41b379fe469a),
     (0xed39da7f674b3439, 0x8efaf978e2fd081e), (0x6538d35fbd8770f1, 0xacad5e6e62b32c11),
     (0x87001caf0d24e9b5, 0x1dc38691b673e02a), (0x8a1a727355b91ed4, 0x071dd39906e5e7fa),
     (0x9900f4c989e24eb1, 0xb02be8c6b11fc9b1), (0xdeeea3754b8bb645, 0x7a663a9ef903b7ba),
     (0x5b36054f5e66b794, 0xff6d56212151315a), (0x7e6a46d5f39b1e65, 0x0e026227c811219a)]"

text \<open>\<open>buf[i] = (unsigned char) (i * 37 + 11)\<close>\<close>

definition kat_buf :: "byte list" where
  "kat_buf = map (\<lambda>i. of_nat (i * 37 + 11)) [0..<64]"

text \<open>
  Whether the test passes: the vectors are those of the back end, or none when the host has another
  byte order than they were taken on; a hash function returns the two hashes as \<open>uint64_t\<close>.
\<close>

definition coucal_test_hash_vectors ::
  "(u64 \<times> u64) list option \<Rightarrow> (byte list \<Rightarrow> u64 \<times> u64) \<Rightarrow> bool" where
  "coucal_test_hash_vectors vectors hash_data =
     list_all (\<lambda>i.
       let buf = take (kat_lengths ! i) kat_buf; hashes = hash_data buf in
       case vectors of
         Some kat_vectors \<Rightarrow>
           fst hashes = fst (kat_vectors ! i) \<and> snd hashes = snd (kat_vectors ! i)
       | None \<Rightarrow> fst (hash_data buf) = fst hashes \<and> fst hashes \<noteq> snd hashes)
     [0..<length kat_lengths]"

definition widen :: "coucal_hashkeys \<Rightarrow> u64 \<times> u64" where
  "widen k = (ucast (hash1 k), ucast (hash2 k))"

definition wide_pair :: "wide_hashkeys \<Rightarrow> u64 \<times> u64" where
  "wide_pair k = (wide1 k, wide2 k)"

section \<open>Words as integers\<close>

definition wi :: "int \<Rightarrow> 'a::len word" where
  "wi n = word_of_int n"

named_theorems word_eval "evaluation of words kept as integers"

lemma wi_numeral [word_eval]: "(0 :: 'a::len word) = wi 0" "(1 :: 'a word) = wi 1"
    "(numeral k :: 'a word) = wi (numeral k)"
  by (simp_all add: wi_def)

lemma wi_mod: "(wi (n mod 2 ^ LENGTH('a)) :: 'a::len word) = wi n"
  by (simp add: wi_def word_of_int_eq_iff take_bit_eq_mod)

lemma wi_eq [word_eval]: "(wi m :: 'a::len word) = wi n \<longleftrightarrow> m mod 2 ^ LENGTH('a) = n mod 2 ^ LENGTH('a)"
  by (simp add: wi_def word_of_int_eq_iff take_bit_eq_mod)

lemma wi_arith [word_eval]:
  "(wi m :: 'a::len word) * wi n = wi (m * n mod 2 ^ LENGTH('a))"
  "(wi m :: 'a word) + wi n = wi ((m + n) mod 2 ^ LENGTH('a))"
  unfolding wi_mod by (simp_all add: wi_def)

lemma wi_bits [word_eval]:
  "wi m XOR wi n = wi (m XOR n)" "wi m OR wi n = wi (m OR n)"
  "(NOT (wi m) :: 'a::len word) = wi ((- m - 1) mod 2 ^ LENGTH('a))"
  unfolding wi_mod by (simp_all add: wi_def of_int_xor_eq of_int_or_eq of_int_not_eq flip: not_int_def)

lemma wi_drop [word_eval]:
  "0 \<le> n \<Longrightarrow> n < 2 ^ LENGTH('a) \<Longrightarrow> drop_bit s (wi n :: 'a::len word) = wi (n div 2 ^ s)"
  unfolding wi_def by transfer (simp add: take_bit_int_eq_self drop_bit_eq_div)

lemma wi_push [word_eval]: "push_bit s (wi n :: 'a::len word) = wi (n * 2 ^ s mod 2 ^ LENGTH('a))"
  unfolding wi_mod by (simp add: wi_def push_bit_eq_mult mult.commute)

lemma wi_cast [word_eval]: "ucast (wi n :: 'a::len word) = wi (n mod 2 ^ LENGTH('a))"
  by (simp add: wi_def unsigned_of_int take_bit_eq_mod)

lemma wi_rotl [word_eval]:
  "rotl32 (wi n) r = push_bit r (wi n) OR drop_bit (32 - r) (wi n)"
  by (simp add: rotl32_def)

lemma wi_of_nat [word_eval]: "(of_nat n :: 'a::len word) = wi (int n)"
  by (simp add: wi_def)

section \<open>The bytes hashed\<close>

definition kat_int :: "nat \<Rightarrow> int" where
  "kat_int i = (int i * 37 + 11) mod 256"

lemma kat_length: "length kat_buf = 64"
  by (simp add: kat_buf_def)

lemma kat_byte:
  assumes "i < 64"
  shows "kat_buf ! i = wi (kat_int i)"
proof -
  have "kat_buf ! i = of_nat (i * 37 + 11)" using assms by (simp only: kat_buf_def) simp
  then show ?thesis by (simp only: wi_of_nat kat_int_def wi_eq) simp
qed

text \<open>The first \<open>n\<close> bytes, as a constant that rewriting leaves alone.\<close>

definition kat_data :: "nat \<Rightarrow> byte list" where
  "kat_data n = take n kat_buf"

lemma kat_data_length [word_eval]: "n \<le> 64 \<Longrightarrow> length (kat_data n) = n"
  by (simp add: kat_data_def kat_length)

lemma kat_getblock [word_eval]:
  "i * 4 + 3 < n \<Longrightarrow> n \<le> 64 \<Longrightarrow> getblock32 (kat_data n) i =
     ucast (wi (kat_int (i * 4)) :: byte) OR push_bit 8 (ucast (wi (kat_int (i * 4 + 1)) :: byte)) OR
     push_bit 16 (ucast (wi (kat_int (i * 4 + 2)) :: byte)) OR
     push_bit 24 (ucast (wi (kat_int (i * 4 + 3)) :: byte))"
  by (simp add: getblock32_def kat_byte kat_length kat_data_def)

lemma kat_tail [word_eval]:
  "m + r = n \<Longrightarrow> n \<le> 64 \<Longrightarrow> 0 < k \<Longrightarrow> tail_byte (drop m (kat_data n)) r k sh x =
     (if k \<le> r then x XOR push_bit sh (ucast (wi (kat_int (m + k - 1)) :: byte)) else x)"
  by (simp add: tail_byte_def kat_byte kat_length kat_data_def)

lemma kat_tail_only [word_eval]:
  "r \<le> 64 \<Longrightarrow> 0 < k \<Longrightarrow> tail_byte (kat_data r) r k sh x =
     (if k \<le> r then x XOR push_bit sh (ucast (wi (kat_int (k - 1)) :: byte)) else x)"
  using kat_tail [of 0 r r k sh x] by simp

section \<open>Murmur\<close>

text \<open>The parts of the hash, unfolded only once the words they work on are known.\<close>

lemma fmix32_wi: "fmix32 (wi n) =
    (let h = wi n XOR drop_bit 16 (wi n); h = h * 0x85ebca6b; h = h XOR drop_bit 13 h; h = h * 0xc2b2ae35
     in h XOR drop_bit 16 h)"
  by (simp add: fmix32_def)

abbreviation known_state :: "int \<Rightarrow> int \<Rightarrow> int \<Rightarrow> int \<Rightarrow> murmur_state" where
  "known_state a b c d \<equiv> \<lparr>mh1 = wi a, mh2 = wi b, mh3 = wi c, mh4 = wi d\<rparr>"

lemmas murmur_known =
  murmur_block_def [of data "known_state a b c d" for data a b c d]
  murmur_tail_def [of data r "known_state a b c d" for data r a b c d]
  murmur_cross_add_def [of "known_state a b c d" for a b c d]
  murmur_fmix_def [of "known_state a b c d" for a b c d]
  murmur_xor_len_def [of n "known_state a b c d" for n a b c d]
  murmur_final_def [of n "known_state a b c d" for n a b c d]

lemmas murmur_eval = murmur_known fmix32_wi murmur_c1_def murmur_c2_def murmur_c3_def murmur_c4_def
  Let_def kat_int_def word_eval

lemma murmur_kat:
  assumes "n \<le> 64"
  shows "MurmurHash3_x86_128 (kat_data n) (wi 42) =
    murmur_final n (murmur_tail (drop (n div 16 * 16) (kat_data n)) (n mod 16)
      (foldl (murmur_block (kat_data n)) (known_state 42 42 42 42) [0..<n div 16]))"
  using assms by (simp add: MurmurHash3_x86_128_def kat_data_length Let_def)

lemma murmur_states_short:
  "MurmurHash3_x86_128 (kat_data 0) 42 = known_state 2943167670 2512915642 2512915642 2512915642"
  "MurmurHash3_x86_128 (kat_data (Suc 0)) 42 = known_state 890600401 3357739026 3357739026 3357739026"
  "MurmurHash3_x86_128 (kat_data 4) 42 = known_state 2956680434 986877552 986877552 986877552"
  "MurmurHash3_x86_128 (kat_data 15) 42 = known_state 2151753508 2284782438 3284718147 2385440346"
  by (simp_all add: murmur_kat murmur_eval upt_conv_Cons)

lemma murmur_states_one:
  "MurmurHash3_x86_128 (kat_data 16) 42 = known_state 686259895 1655984147 1601777235 3218308495"
  "MurmurHash3_x86_128 (kat_data 17) 42 = known_state 1252187173 2804266429 2493872810 91075328"
  "MurmurHash3_x86_128 (kat_data 31) 42 = known_state 2740816704 2267999572 3736401846 882629179"
  by (simp_all add: murmur_kat murmur_eval upt_conv_Cons)

lemma murmur_states_two:
  "MurmurHash3_x86_128 (kat_data 32) 42 = known_state 3679731621 43793116 3216570932 1483333211"
  "MurmurHash3_x86_128 (kat_data 33) 42 = known_state 3634647324 1968956801 2817480243 3243824819"
  by (simp_all add: murmur_kat murmur_eval upt_conv_Cons)

lemma murmur_states_four:
  "MurmurHash3_x86_128 (kat_data 64) 42 = known_state 207689298 3002697789 110933781 3203546856"
  by (simp_all add: murmur_kat murmur_eval upt_conv_Cons)

lemmas murmur_states = murmur_states_short murmur_states_one murmur_states_two murmur_states_four

section \<open>FNV-1\<close>

lemma kat_data_bytes: "n \<le> 64 \<Longrightarrow> kat_data n = map (\<lambda>i. wi (kat_int i)) [0..<n]"
  by (intro nth_equalityI) (simp_all add: kat_data_def kat_length kat_byte)

text \<open>The state after the first \<open>n\<close> bytes, from the one after the first \<open>m\<close>.\<close>

definition fnv1_kat :: "nat \<Rightarrow> u64 \<times> u64" where
  "fnv1_kat n = fnv1_loop (kat_data n) 0 n (fnv1_offset_basis, NOT fnv1_offset_basis)"

lemma fnv1_kat_from:
  assumes "m \<le> n" and "n \<le> 64"
  shows "fnv1_kat n = foldl (\<lambda>h i. fnv1_step h (wi (kat_int i))) (fnv1_kat m) [m..<n]"
proof -
  have state: "fnv1_kat k = foldl (\<lambda>h i. fnv1_step h (wi (kat_int i)))
      (fnv1_offset_basis, NOT fnv1_offset_basis) [0..<k]" if "k \<le> 64" for k
    using fnv1_loop_is_fold [of "kat_data k"] that by (simp add: fnv1_kat_def kat_data_bytes foldl_map)
  have "[0..<n] = [0..<m] @ [m..<n]" using assms(1) upt_add_eq_append [of 0 m "n - m"] by simp
  then show ?thesis using assms state [of m] state [of n] by simp
qed

lemma fnv1_step_wi:
  "fnv1_step (wi a, wi b) (wi c) =
     (wi a * fnv1_prime XOR ucast (wi c :: byte), wi b * fnv1_prime XOR ucast (NOT (wi c) :: byte))"
  by (simp add: fnv1_step_def)

lemmas fnv1_eval = fnv1_step_wi fnv1_prime_def kat_int_def word_eval upt_conv_Cons

lemma fnv1_kat_0: "fnv1_kat 0 = (wi 14695981039346656037, wi 3750763034362895578)"
  by (simp add: fnv1_kat_def fnv1_offset_basis_def word_eval)

lemma fnv1_kat_1: "fnv1_kat (Suc 0) = (wi 12638153115695167444, wi 5808589858502755994)"
  by (subst fnv1_kat_from [of 0]) (simp_all add: fnv1_kat_0 fnv1_eval)

lemma fnv1_kat_4: "fnv1_kat 4 = (wi 17093934101390111801, wi 10302821395163056158)"
  by (subst fnv1_kat_from [of "Suc 0"]) (simp_all add: fnv1_kat_1 fnv1_eval)

lemma fnv1_kat_15: "fnv1_kat 15 = (wi 7293812004681642225, wi 12442705173689871377)"
  by (subst fnv1_kat_from [of 4]) (simp_all add: fnv1_kat_4 fnv1_eval)

lemma fnv1_kat_16: "fnv1_kat 16 = (wi 9727806733285648821, wi 2144705807947915306)"
  by (subst fnv1_kat_from [of 15]) (simp_all add: fnv1_kat_15 fnv1_eval)

lemma fnv1_kat_17: "fnv1_kat 17 = (wi 9951392166313533140, wi 512798586789292026)"
  by (subst fnv1_kat_from [of 16]) (simp_all add: fnv1_kat_16 fnv1_eval)

lemma fnv1_kat_31: "fnv1_kat 31 = (wi 11025081034241887921, wi 12694495914746694065)"
  by (subst fnv1_kat_from [of 17]) (simp_all add: fnv1_kat_17 fnv1_eval)

lemma fnv1_kat_32: "fnv1_kat 32 = (wi 16063956645051086405, wi 8819801374708709306)"
  by (subst fnv1_kat_from [of 31]) (simp_all add: fnv1_kat_31 fnv1_eval)

lemma fnv1_kat_33: "fnv1_kat 33 = (wi 6572446544638162836, wi 18405461952425963866)"
  by (subst fnv1_kat_from [of 32]) (simp_all add: fnv1_kat_32 fnv1_eval)

lemma fnv1_kat_64: "fnv1_kat 64 = (wi 9109171081039257189, wi 1009477189484224922)"
  by (subst fnv1_kat_from [of 33]) (simp_all add: fnv1_kat_33 fnv1_eval)

lemmas fnv1_states = fnv1_kat_0 fnv1_kat_1 fnv1_kat_4 fnv1_kat_15 fnv1_kat_16
  fnv1_kat_17 fnv1_kat_31 fnv1_kat_32 fnv1_kat_33 fnv1_kat_64

section \<open>The vectors\<close>

text \<open>The two builds on each of the lengths.\<close>

lemma join32_wi: "join32 (wi m) (wi n) = ucast (wi m :: u32) OR push_bit 32 (ucast (wi n :: u32))"
  by (simp add: join32_def)

lemmas vectors_eval = coucal_test_hash_vectors_def kat_lengths_def upt_conv_Cons Let_def word_eval
  kat_data_def [symmetric]

lemma murmur_vectors_32:
  "coucal_test_hash_vectors (Some kat_murmur_32) (\<lambda>data. widen (coucal_hash_data data))"
  by (simp add: vectors_eval kat_murmur_32_def widen_def coucal_hash_data_def distinct_hashkeys_def
      murmur_states [unfolded wi_numeral])

lemma murmur_vectors_64:
  "coucal_test_hash_vectors (Some kat_murmur_64) (\<lambda>data. wide_pair (coucal_hash_data64 data))"
  by (simp add: vectors_eval kat_murmur_64_def wide_pair_def coucal_hash_data64_def distinct_wide_def
      join32_wi murmur_states [unfolded wi_numeral])

lemma fnv1_fold32_wi: "fnv1_fold32 (wi n) = ucast (wi n :: u64) XOR ucast (drop_bit 32 (wi n :: u64))"
  by (simp add: fnv1_fold32_def)

lemma fnv1_hashes:
  assumes "n \<le> 64"
  shows "coucal_hash_data_fnv1 (kat_data n) =
      distinct_hashkeys \<lparr>hash1 = fnv1_fold32 (fst (fnv1_kat n)), hash2 = fnv1_fold32 (snd (fnv1_kat n))\<rparr>"
    and "coucal_hash_data_fnv1_64 (kat_data n) =
      distinct_wide \<lparr>wide1 = fst (fnv1_kat n), wide2 = snd (fnv1_kat n)\<rparr>"
  using assms by (simp_all add: coucal_hash_data_fnv1_def coucal_hash_data_fnv1_64_def fnv1_kat_def
      kat_data_length Let_def)

lemma fnv1_vectors_32:
  "coucal_test_hash_vectors (Some kat_fnv1_32) (\<lambda>data. widen (coucal_hash_data_fnv1 data))"
  by (simp add: vectors_eval kat_fnv1_32_def widen_def fnv1_hashes distinct_hashkeys_def fnv1_states fnv1_fold32_wi)

lemma fnv1_vectors_64:
  "coucal_test_hash_vectors (Some kat_fnv1_64) (\<lambda>data. wide_pair (coucal_hash_data_fnv1_64 data))"
  by (simp add: vectors_eval kat_fnv1_64_def wide_pair_def fnv1_hashes distinct_wide_def fnv1_states)

section \<open>The MD5 vectors\<close>

lemma test_vectors_iff:
  "coucal_test_hash_vectors (Some vs) hash_data \<longleftrightarrow>
     (\<forall>i < 10. hash_data (take (kat_lengths ! i) kat_buf) = vs ! i)"
proof -
  have "set [0..<length kat_lengths] = {..<10}" by (simp only: set_upt atLeast0LessThan) (simp add: kat_lengths_def)
  then show ?thesis
    by (simp only: coucal_test_hash_vectors_def list_all_iff) (auto simp: Let_def prod_eq_iff)
qed

text \<open>What a digest's 64-bit hashes say of its 32-bit ones, unless the second was complemented.\<close>

lemma md5_wide_determines:
  assumes "wide_pair (md5_wide digest) = (v1, v2)" and "v2 \<noteq> NOT v1"
  shows "md5_mix digest = narrow_mix v1 v2"
proof -
  obtain raw where raw: "md5_wide digest = distinct_wide \<lparr>wide1 = wide1 (md5_wide digest), wide2 = raw\<rparr>"
      "md5_mix digest = narrow_mix (wide1 (md5_wide digest)) raw"
    using md5_narrow by blast
  have v: "wide1 (md5_wide digest) = v1" "wide2 (md5_wide digest) = v2"
    using assms(1) by (simp_all add: wide_pair_def)
  then have "v2 = (if v1 = raw then NOT raw else raw)"
    using arg_cong [OF raw(1), of wide2] by (simp add: distinct_wide_def split: if_splits)
  then have "v2 = raw" using assms(2) by (auto split: if_splits)
  then show ?thesis using raw(2) v(1) by simp
qed

text \<open>The two tables of vectors are related as the two builds are.\<close>

lemma md5_tables_narrow:
  "list_all2 (\<lambda>v k. snd v \<noteq> NOT (fst v) \<and> widen (narrow_mix (fst v) (snd v)) = k) kat_md5_64 kat_md5_32"
  by (simp add: kat_md5_64_def kat_md5_32_def widen_def narrow_mix_def distinct_hashkeys_def low32_def high32_def
      word_eval)

lemma md5_vectors_agree:
  assumes "coucal_test_hash_vectors (Some kat_md5_64)
    (\<lambda>data. wide_pair (coucal_hash_data_md5_64 init upd fin data))"
  shows "coucal_test_hash_vectors (Some kat_md5_32) (\<lambda>data. widen (coucal_hash_data_md5 init upd fin data))"
  unfolding test_vectors_iff
proof (intro allI impI)
  fix i :: nat assume i: "i < 10"
  let ?digest = "fin (md5_loop upd (take (kat_lengths ! i) kat_buf) 0 init)"
  have wide: "wide_pair (md5_wide ?digest) = (fst (kat_md5_64 ! i), snd (kat_md5_64 ! i))"
    using assms i by (simp add: test_vectors_iff coucal_hash_data_md5_64_def)
  have "snd (kat_md5_64 ! i) \<noteq> NOT (fst (kat_md5_64 ! i)) \<and>
      widen (narrow_mix (fst (kat_md5_64 ! i)) (snd (kat_md5_64 ! i))) = kat_md5_32 ! i"
    using list_all2_nthD [OF md5_tables_narrow, of i] i by (simp add: kat_md5_64_def)
  then show "widen (coucal_hash_data_md5 init upd fin (take (kat_lengths ! i) kat_buf)) = kat_md5_32 ! i"
    using md5_wide_determines [OF wide] by (simp add: coucal_hash_data_md5_def)
qed

text \<open>A digest with the sixteen bytes the 64-bit vectors pin on the lengths of the test.\<close>

definition le_bytes :: "u64 \<Rightarrow> byte list" where
  "le_bytes v = map (\<lambda>k. ucast (drop_bit (8 * k) v)) [0..<8]"

definition kat_digest :: "byte list \<Rightarrow> byte list" where
  "kat_digest data =
     (case find (\<lambda>i. kat_lengths ! i = length data) [0..<10] of
        Some i \<Rightarrow> le_bytes (fst (kat_md5_64 ! i)) @ le_bytes (snd (kat_md5_64 ! i))
      | None \<Rightarrow> replicate 16 0)"

lemma word_of_bytes:
  fixes v :: u64
  shows "ucast (ucast v :: byte) OR push_bit 8 (ucast (ucast (drop_bit 8 v) :: byte)) OR
      push_bit 16 (ucast (ucast (drop_bit 16 v) :: byte)) OR
      push_bit 24 (ucast (ucast (drop_bit 24 v) :: byte)) = (ucast v :: u32)"
proof (rule bit_word_eqI)
  fix n assume "n < LENGTH(32)"
  then consider "n < 8" | "8 \<le> n" "n < 16" | "16 \<le> n" "n < 24" | "24 \<le> n" "n < 32" by fastforce
  then show "bit (ucast (ucast v :: byte) OR push_bit 8 (ucast (ucast (drop_bit 8 v) :: byte)) OR
      push_bit 16 (ucast (ucast (drop_bit 16 v) :: byte)) OR
      push_bit 24 (ucast (ucast (drop_bit 24 v) :: byte)) :: u32) n = bit (ucast v :: u32) n"
    by cases (auto simp: bit_simps less_diff_conv2)
qed

lemma join32_halves: "join32 (ucast v) (ucast (drop_bit 32 v)) = v"
proof (rule bit_word_eqI)
  fix n assume "n < LENGTH(64)"
  then consider "n < 32" | "32 \<le> n" "n < 64" by fastforce
  then show "bit (join32 (ucast v) (ucast (drop_bit 32 v))) n = bit v n"
    by cases (auto simp: join32_def bit_simps less_diff_conv2)
qed

lemma le_bytes_words:
  "join32 (getblock32 (le_bytes v @ bs) 0) (getblock32 (le_bytes v @ bs) (Suc 0)) = v"
  "join32 (getblock32 (le_bytes u @ le_bytes v) 2) (getblock32 (le_bytes u @ le_bytes v) 3) = v"
  using word_of_bytes [of v] word_of_bytes [of "drop_bit 32 v"] join32_halves [of v]
  by (simp_all add: getblock32_def le_bytes_def upt_conv_Cons)

lemma kat_digest_passes:
  "coucal_test_hash_vectors (Some kat_md5_64)
     (\<lambda>data. wide_pair (coucal_hash_data_md5_64 [] (@) kat_digest data))"
  unfolding test_vectors_iff
proof (intro allI impI)
  fix i :: nat assume i: "i < 10"
  have "length kat_lengths = 10" "distinct kat_lengths" "\<forall>n \<in> set kat_lengths. n \<le> 64"
    by (simp_all add: kat_lengths_def)
  then have len: "length (take (kat_lengths ! i) kat_buf) = kat_lengths ! i"
    and same: "kat_lengths ! j = kat_lengths ! i \<longleftrightarrow> j = i" if "j < 10" for j
    using i that by (simp_all add: kat_length nth_eq_iff_index_eq)
  have "find (\<lambda>j. kat_lengths ! j = kat_lengths ! i) [0..<10] = Some i"
    using i same by (auto simp: find_Some_iff)
  moreover have "fst (kat_md5_64 ! j) \<noteq> snd (kat_md5_64 ! j)" if "j < 10" for j
  proof -
    have "list_all (\<lambda>v. fst v \<noteq> snd v) kat_md5_64" "length kat_md5_64 = 10" by (simp_all add: kat_md5_64_def)
    then show ?thesis using that by (simp add: list_all_length)
  qed
  moreover have "streaming ((@) :: byte list \<Rightarrow> byte list \<Rightarrow> byte list)" by (simp add: streaming_def)
  ultimately show "wide_pair (coucal_hash_data_md5_64 [] (@) kat_digest (take (kat_lengths ! i) kat_buf)) =
      kat_md5_64 ! i"
    using i len by (simp add: coucal_hash_data_md5_64_def md5_loop_streaming kat_digest_def md5_wide_def
        le_bytes_words distinct_wide_def wide_pair_def)
qed

section \<open>Back ends\<close>

text \<open>
  What the library asks of a back end, as the test sees it: two hashes that differ, for any key.
  Without vectors, that is on a big-endian host for Murmur and MD5, it is all the test checks.
\<close>

locale hash_backend =
  fixes hash_data :: "byte list \<Rightarrow> u64 \<times> u64"
  assumes hashes_differ: "fst (hash_data data) \<noteq> snd (hash_data data)"
begin

lemma no_vectors: "coucal_test_hash_vectors None hash_data"
  using hashes_differ by (simp add: coucal_test_hash_vectors_def list_all_iff Let_def)

end

lemma widen_neq: "fst (widen k) \<noteq> snd (widen k) \<longleftrightarrow> hash1 k \<noteq> hash2 k"
proof -
  have "low32 (ucast w) = w" for w
    by (rule bit_word_eqI) (auto simp: low32_def bit_simps)
  then have "ucast v = (ucast w :: u64) \<Longrightarrow> v = w" for v w :: u32 by metis
  then show ?thesis by (auto simp: widen_def)
qed

lemma wide_pair_neq: "fst (wide_pair k) \<noteq> snd (wide_pair k) \<longleftrightarrow> wide1 k \<noteq> wide2 k"
  by (simp add: wide_pair_def)

interpretation murmur_32: hash_backend "\<lambda>data. widen (coucal_hash_data data)"
  by unfold_locales (simp only: widen_neq coucal_hash_data_def Let_def distinct_hashkeys_neq not_False_eq_True)

interpretation murmur_64: hash_backend "\<lambda>data. wide_pair (coucal_hash_data64 data)"
  by unfold_locales (simp only: wide_pair_neq coucal_hash_data64_def Let_def distinct_wide_neq not_False_eq_True)

interpretation fnv1_32: hash_backend "\<lambda>data. widen (coucal_hash_data_fnv1 data)"
  by unfold_locales (simp only: widen_neq coucal_hash_data_fnv1_def Let_def distinct_hashkeys_neq not_False_eq_True)

interpretation fnv1_64: hash_backend "\<lambda>data. wide_pair (coucal_hash_data_fnv1_64 data)"
  by unfold_locales (simp only: wide_pair_neq coucal_hash_data_fnv1_64_def Let_def distinct_wide_neq not_False_eq_True)

interpretation md5_32: hash_backend "\<lambda>data. widen (coucal_hash_data_md5 init upd fin data)"
  for init :: 'c and upd :: "'c \<Rightarrow> byte list \<Rightarrow> 'c" and fin :: "'c \<Rightarrow> byte list"
  by unfold_locales (simp only: widen_neq coucal_hash_data_md5_def md5_mix_neq not_False_eq_True)

interpretation md5_64: hash_backend "\<lambda>data. wide_pair (coucal_hash_data_md5_64 init upd fin data)"
  for init :: 'c and upd :: "'c \<Rightarrow> byte list \<Rightarrow> 'c" and fin :: "'c \<Rightarrow> byte list"
  by unfold_locales (simp only: wide_pair_neq coucal_hash_data_md5_64_def md5_wide_def distinct_wide_neq not_False_eq_True)

section \<open>Two more values\<close>

text \<open>Two values outside the test: a key given byte by byte, and FNV-1 of one byte.\<close>

lemma kat_data_31: "kat_data 31 = [11, 48, 85, 122, 159, 196, 233, 14, 51, 88, 125, 162, 199, 236, 17, 54,
    91, 128, 165, 202, 239, 20, 57, 94, 131, 168, 205, 242, 23, 60, 97]"
  by (simp add: kat_data_bytes kat_int_def upt_conv_Cons word_eval)

lemma hash_known_values:
  "coucal_hash_data [11, 48, 85, 122, 159, 196, 233, 14, 51, 88, 125, 162, 199, 236, 17, 54, 91, 128,
     165, 202, 239, 20, 57, 94, 131, 168, 205, 242, 23, 60, 97] =
     \<lparr>hash1 = 0x7de97cf6, hash2 = 0xb3b5376f\<rparr>"
  "fst (fnv1_loop [97] 0 1 (fnv1_offset_basis, NOT fnv1_offset_basis)) = 0xaf63bd4c8601b7be"
proof -
  show "coucal_hash_data [11, 48, 85, 122, 159, 196, 233, 14, 51, 88, 125, 162, 199, 236, 17, 54, 91, 128,
     165, 202, 239, 20, 57, 94, 131, 168, 205, 242, 23, 60, 97] =
     \<lparr>hash1 = 0x7de97cf6, hash2 = 0xb3b5376f\<rparr>"
    unfolding kat_data_31 [symmetric] coucal_hash_data_def Let_def murmur_states
    by (simp add: distinct_hashkeys_def word_eval)
  show "fst (fnv1_loop [97] 0 1 (fnv1_offset_basis, NOT fnv1_offset_basis)) = 0xaf63bd4c8601b7be"
    by (simp add: fnv1_step_wi fnv1_prime_def fnv1_offset_basis_def word_eval)
qed

end
