(* ===== verification/Strings.thy ===== *)
theory Strings
  imports Store
begin

text \<open>
  What a client with string keys and the default handlers sees of the library: the effect of each
  operation on the map and its result, and an enumeration that lists the map. The clients of the
  repository, the fuzzing harness and the sample program, are verified over these lemmas.
\<close>

section \<open>A new table\<close>

lemma coucal_new_store:
  assumes "coucal_new hp n = (Some h, hp')"
  shows "default_store h" and "pool_size (pool h) = 0"
  using new_table [OF assms] by (simp_all add: default_store_def no_custom_def no_pool_def)

section \<open>The library's operations on a string key\<close>

lemma write_string:
  assumes "default_store h" "0 \<notin> set s" "pool_size (pool h) + length s < 2 ^ 62"
  shows "case coucal_write h (KExt 0 s) v of
      Inl e \<Rightarrow> resource_error e
    | Inr (h', r) \<Rightarrow> default_store h' \<and> table_map h' = (table_map h)(s \<mapsto> v) \<and>
        r = (if table_map h s = None then 1 else 0) \<and>
        pool_size (pool h') \<le> pool_size (pool h) + Suc (length s)"
  using coucal_step_law [of h "Write s v"] assms
  by (cases "coucal_write_value h (KExt 0 s) v") (auto simp: coucal_step_def coucal_write_def step_law_at_def)

lemma remove_string:
  assumes "default_store h" "0 \<notin> set s" "pool_size (pool h) + length s < 2 ^ 62"
  shows "case coucal_remove h (KExt 0 s) of
      Inl e \<Rightarrow> resource_error e
    | Inr (h', r) \<Rightarrow> default_store h' \<and> table_map h' = (table_map h)(s := None) \<and>
        r = (if table_map h s = None then 0 else 1) \<and>
        pool_size (pool h') \<le> pool_size (pool h) + Suc (length s)"
  using coucal_step_law [of h "Remove s"] assms
  by (cases "coucal_remove h (KExt 0 s)") (auto simp: coucal_step_def step_law_at_def)

lemma inc_string:
  assumes "default_store h" "0 \<notin> set s" "pool_size (pool h) + length s < 2 ^ 62"
  shows "case coucal_inc h (KExt 0 s) of
      Inl e \<Rightarrow> resource_error e
    | Inr (h', r) \<Rightarrow>
        (let v = (case table_map h s of None \<Rightarrow> 1 | Some v \<Rightarrow> v + 1) in
         default_store h' \<and> table_map h' = (table_map h)(s \<mapsto> v) \<and> r = sint (ucast v :: u32) \<and>
         pool_size (pool h') \<le> pool_size (pool h) + Suc (length s))"
  using coucal_step_law [of h "Inc s"] assms
  by (cases "coucal_inc_i h (KExt 0 s) 1") (auto simp: coucal_step_def coucal_inc_def Let_def step_law_at_def)

section \<open>Sizes of maps\<close>

lemma card_dom_update:
  assumes "finite (dom m)"
  shows "card (dom (m(k \<mapsto> v))) = (if m k = None then Suc (card (dom m)) else card (dom m))"
    and "card (dom (m(k := None))) = (if m k = None then card (dom m) else card (dom m) - 1)"
  using assms by (simp_all add: card_insert_if domIff card_Diff_singleton_if)

section \<open>Enumerating the map\<close>

lemma pairwise_keys_distinct:
  assumes "pairwise_mset (distinct_keys c) (mset xs)" and "equals_of c = (=)"
    and "\<forall>en \<in> set xs. fst en \<noteq> None"
  shows "distinct (map fst xs)"
  using assms
proof (induction xs)
  case (Cons en xs)
  have sym: "distinct_keys c a b \<Longrightarrow> distinct_keys c b a" for a b
    using Cons.prems(2) by (auto simp: distinct_keys_def)
  have "pairwise_mset (distinct_keys c) (mset xs)" "\<forall>y \<in> set xs. distinct_keys c en y"
    using Cons.prems(1) pairwise_mset_add [of "distinct_keys c" en "mset xs", OF sym] by simp_all
  from this(2) have "\<forall>y \<in> set xs. the (fst en) \<noteq> the (fst y)"
    using Cons.prems(2) by (simp add: distinct_keys_def)
  moreover have "distinct (map fst xs)"
    using Cons.IH [OF \<open>pairwise_mset (distinct_keys c) (mset xs)\<close> Cons.prems(2)] Cons.prems(3) by simp
  ultimately show ?case by auto
qed simp

lemma default_store_facts:
  assumes "default_store h"
  shows "coucal_inv h" "lookup_inv h" "slots_inv h" "equals_of (custom h) = (=)"
    "used h = card (dom (table_map h))" "finite (dom (table_map h))" "lg_size h \<le> 32"
  using assms used_card [of h]
  by (simp_all add: default_store_def coucal_inv_lookup fun_eq_iff strcmp_fun coucal_inv_def
      slots_inv_def table_inv_def COUCAL_HASH_SIZE_def)

lemma entry_in_map:
  assumes store: "default_store h" and en: "en \<in># entries h"
  obtains s where "fst en = Some s" "table_map h s = Some (fst (snd en))"
proof -
  note F = default_store_facts [OF store]
  have "entry_ok (custom h) en" using F(1) en by (simp add: coucal_inv_def content_ok_def)
  then obtain s where s: "fst en = Some s" by (cases en) (auto simp: entry_ok_def split: option.splits)
  then have "has_entry (custom h) (entries h) s (fst (snd en))"
    using en F(4) by (force simp: has_entry_def)
  then have "table_map h s = Some (fst (snd en))"
    using table_map_has [OF coucal_inv_map [OF F(1)]] by simp
  then show ?thesis using that s by blast
qed

text \<open>The entries an enumerator that was just made has to visit are the map's, each once.\<close>

lemma pending_map:
  assumes store: "default_store h"
  defines "xs \<equiv> pending h (coucal_enum_new h)"
  shows "set xs = set_mset (entries h)" and "length xs = used h" and "distinct (map fst xs)"
    and "length xs < POW2 (lg_size h) + STASH_SIZE + 1"
proof -
  note F = default_store_facts [OF store]
  have all: "mset xs = entries h" unfolding xs_def by (rule pending_new)
  then show "set xs = set_mset (entries h)" by (metis set_mset_mset)
  have "used h = size (entries h)" using F(1) by (simp add: coucal_inv_def)
  then show len: "length xs = used h" using all by (metis size_mset)
  show "length xs < POW2 (lg_size h) + STASH_SIZE + 1"
    using used_bound [OF F(1)] F(7) by (simp add: len STASH_SIZE_def)
  show "distinct (map fst xs)"
  proof (rule pairwise_keys_distinct [OF _ F(4)])
    show "pairwise_mset (distinct_keys (custom h)) (mset xs)"
      using F(1) all by (simp add: coucal_inv_def content_ok_def)
    show "\<forall>en \<in> set xs. fst en \<noteq> None"
    proof
      fix en assume "en \<in> set xs"
      then have "en \<in># entries h" using all by (metis set_mset_mset)
      then show "fst en \<noteq> None" by (rule entry_in_map [OF store]) simp
    qed
  qed
qed

lemma pending_keys:
  assumes store: "default_store h"
  defines "ks \<equiv> map (\<lambda>en. the (fst en)) (pending h (coucal_enum_new h))"
  shows "distinct ks" and "set ks = dom (table_map h)"
proof -
  note F = default_store_facts [OF store] and P = pending_map [OF store]
  have key: "\<exists>s. fst en = Some s \<and> table_map h s \<noteq> None"
    if en: "en \<in> set (pending h (coucal_enum_new h))" for en
    using entry_in_map [OF store, of en] en P(1) by blast
  have "inj_on the (fst ` set (pending h (coucal_enum_new h)))"
  proof (rule inj_onI, elim imageE)
    fix x y a b assume "the x = the y" "x = fst a" "y = fst b"
      "a \<in> set (pending h (coucal_enum_new h))" "b \<in> set (pending h (coucal_enum_new h))"
    then show "x = y" using key [of a] key [of b] by auto
  qed
  then show "distinct ks"
    unfolding ks_def using P(3) by (auto simp: distinct_map inj_on_def)
  show "set ks = dom (table_map h)"
  proof
    show "set ks \<subseteq> dom (table_map h)" unfolding ks_def using key by fastforce
    show "dom (table_map h) \<subseteq> set ks"
    proof
      fix s assume "s \<in> dom (table_map h)"
      then obtain v where "table_map h s = Some v" by auto
      then have "has_entry (custom h) (entries h) s v"
        using table_map_has [OF coucal_inv_map [OF F(1)]] by simp
      then obtain en where "en \<in># entries h" "the (fst en) = s"
        using F(4) by (auto simp: has_entry_def)
      then show "s \<in> set ks" unfolding ks_def using P(1) by auto
    qed
  qed
qed

text \<open>A client's loop over a table it does not change is a fold over the table's entries.\<close>

lemma enum_fold:
  assumes "default_store h"
    and "\<And>loc s. body loc s = f (entry (pool h) (item_at h loc)) s"
  shows "for_each (coucal_enum_next h) body oof (coucal_enum_new h) s (POW2 (lg_size h) + STASH_SIZE + 1) =
    fold_res f (pending h (coucal_enum_new h)) s"
  by (rule table_enum.for_each_left [OF default_store_facts(3) [OF assms(1)] pending_map(4) [OF assms(1)]])
    (rule assms(2))

end
