(* ===== verification/Config.thy ===== *)
theory Config
  imports HashVectors Strings Log
begin

text \<open>
  What a build of the library is made of: the choice of the hash function from the macros that are
  defined (\<open>src/coucal.c\<close>), the width of a hash, the verbosity and the linkage (\<open>src/coucal.h\<close>).
  The lemmas say which builds compile and what they hash with, and that the results of the
  operations on keys do not depend on the hash function.
\<close>

section \<open>The choice of a back end\<close>

text \<open>The macros the preprocessor finds defined, \<open>HAVE_VISIBILITY\<close> with a value other than 0.\<close>

type_synonym macros = "string set"

definition strict_alignment :: "macros \<Rightarrow> bool" where
  "strict_alignment m \<longleftrightarrow>
     ''HAVE_ALIGNED_ACCESS_REQUIRED'' \<in> m
     \<or> ''__sparc__'' \<in> m
     \<or> ''mips'' \<in> m \<or> ''__mips__'' \<in> m \<or> ''MIPS'' \<in> m \<or> ''_MIPS_'' \<in> m
     \<or> ''arm'' \<in> m \<or> ''__arm__'' \<in> m \<or> ''ARM'' \<in> m \<or> ''_ARM_'' \<in> m"

definition select_hash :: "macros \<Rightarrow> macros" where
  "select_hash m =
     (if ''HTS_INTHASH_USES_MD5'' \<notin> m
         \<and> ''HTS_INTHASH_USES_OPENSSL_MD5'' \<notin> m
         \<and> ''HTS_INTHASH_USES_MURMUR'' \<notin> m
         \<and> ''HTS_INTHASH_USES_FNV1'' \<notin> m then
        if strict_alignment m then
          if ''LIBHTTRACK_EXPORTS'' \<notin> m then insert ''HTS_INTHASH_USES_OPENSSL_MD5'' m
          else insert ''HTS_INTHASH_USES_MD5'' m
        else insert ''HTS_INTHASH_USES_MURMUR'' m
      else m)"

text \<open>
  The header with the functions of the back end, by the order of the tests at the top of the file,
  and the code of \<open>coucal_hash_data()\<close>, by the order of the tests in its body; \<open>None\<close> is \<open>#error\<close>.
\<close>

datatype hash_header = MurmurHeader | Md5Header | OpensslHeader | NoHeader

definition dispatch_include :: "macros \<Rightarrow> hash_header option" where
  "dispatch_include m =
     (if ''HTS_INTHASH_USES_MURMUR'' \<in> m then Some MurmurHeader
      else if ''HTS_INTHASH_USES_MD5'' \<in> m then Some Md5Header
      else if ''HTS_INTHASH_USES_OPENSSL_MD5'' \<in> m then Some OpensslHeader
      else if ''HTS_INTHASH_USES_FNV1'' \<in> m then Some NoHeader
      else None)"

datatype hash_method = Md5Method | MurmurMethod | Fnv1Method

definition dispatch_method :: "macros \<Rightarrow> hash_method option" where
  "dispatch_method m =
     (if ''HTS_INTHASH_USES_MD5'' \<in> m \<or> ''HTS_INTHASH_USES_OPENSSL_MD5'' \<in> m then Some Md5Method
      else if ''HTS_INTHASH_USES_MURMUR'' \<in> m then Some MurmurMethod
      else if ''HTS_INTHASH_USES_FNV1'' \<in> m then Some Fnv1Method
      else None)"

text \<open>
  A build: a method that uses functions its header does not declare does not compile.
\<close>

datatype build_error = NoHashMethod | UndefinedMethod | UndeclaredFunctions

datatype backend = Murmur | BundledMd5 | OpensslMd5 | Fnv1

definition build_backend :: "macros \<Rightarrow> build_error + backend" where
  "build_backend m =
     (let m = select_hash m in
      case dispatch_include m of
        None \<Rightarrow> Inl NoHashMethod
      | Some header \<Rightarrow>
          (case dispatch_method m of
             None \<Rightarrow> Inl UndefinedMethod
           | Some Md5Method \<Rightarrow>
               (case header of Md5Header \<Rightarrow> Inr BundledMd5 | OpensslHeader \<Rightarrow> Inr OpensslMd5
                | _ \<Rightarrow> Inl UndeclaredFunctions)
           | Some MurmurMethod \<Rightarrow>
               (case header of MurmurHeader \<Rightarrow> Inr Murmur | _ \<Rightarrow> Inl UndeclaredFunctions)
           | Some Fnv1Method \<Rightarrow> Inr Fnv1))"

text \<open>\<open>COUCAL_HASH_SIZE\<close>, from the value it is given, if any; \<open>None\<close> is \<open>#error\<close>.\<close>

definition selected_hash_size :: "nat option \<Rightarrow> nat option" where
  "selected_hash_size given =
     (let size = (case given of None \<Rightarrow> COUCAL_HASH_SIZE | Some n \<Rightarrow> n)
      in if size = 32 then Some size else if size = 64 then Some size else None)"

text \<open>\<open>COUCAL_LOG_LEVEL\<close>, from the value it is given, if any; a misspelled name counts as 0.\<close>

definition selected_log_level :: "nat option \<Rightarrow> nat option" where
  "selected_log_level given =
     (let n = (case given of None \<Rightarrow> level_number coucal_log_info | Some n \<Rightarrow> n)
      in if n < level_number coucal_log_critical \<or> level_number coucal_log_trace < n then None else Some n)"

text \<open>How the functions of the library are declared: \<open>COUCAL_EXTERN\<close>, unless it is given.\<close>

datatype linkage = GivenLinkage | DllImport | DllExport | VisibleExtern | PlainExtern

definition coucal_extern :: "macros \<Rightarrow> nat option \<Rightarrow> linkage" where
  "coucal_extern m gnuc =
     (if ''COUCAL_EXTERN'' \<in> m then GivenLinkage
      else if ''_WIN32'' \<in> m then if ''COUCAL_BUILDING'' \<in> m then DllImport else DllExport
      else if (case gnuc of Some n \<Rightarrow> 4 \<le> n | None \<Rightarrow> False) \<or> ''HAVE_VISIBILITY'' \<in> m then VisibleExtern
      else PlainExtern)"

section \<open>The hash functions of a build\<close>

text \<open>
  The digest's functions, and whether \<open>EVP_MD_CTX_new()\<close> succeeds; \<open>None\<close> is the assertion that
  fails when it does not.
\<close>

record 'c digest_lib =
  digest_allocates :: bool
  digest_init :: 'c
  digest_update :: "'c \<Rightarrow> byte list \<Rightarrow> 'c"
  digest_final :: "'c \<Rightarrow> byte list"

definition digest_new :: "'c digest_lib \<Rightarrow> 'c option" where
  "digest_new lib = (if digest_allocates lib then Some (digest_init lib) else None)"

definition coucal_hash_data_of :: "backend \<Rightarrow> 'c digest_lib \<Rightarrow> byte list \<Rightarrow> coucal_hashkeys option" where
  "coucal_hash_data_of b lib data =
     (case b of
        BundledMd5 \<Rightarrow> Some (coucal_hash_data_md5 (digest_init lib) (digest_update lib) (digest_final lib) data)
      | OpensslMd5 \<Rightarrow> coucal_hash_data_openssl (digest_new lib) (digest_update lib) (digest_final lib) data
      | Murmur \<Rightarrow> Some (coucal_hash_data data)
      | Fnv1 \<Rightarrow> Some (coucal_hash_data_fnv1 data))"

definition coucal_hash_data64_of :: "backend \<Rightarrow> 'c digest_lib \<Rightarrow> byte list \<Rightarrow> wide_hashkeys option" where
  "coucal_hash_data64_of b lib data =
     (case b of
        BundledMd5 \<Rightarrow> Some (coucal_hash_data_md5_64 (digest_init lib) (digest_update lib) (digest_final lib) data)
      | OpensslMd5 \<Rightarrow> map_option (\<lambda>ctx. coucal_hash_data_md5_64 ctx (digest_update lib) (digest_final lib) data)
          (digest_new lib)
      | Murmur \<Rightarrow> Some (coucal_hash_data64 data)
      | Fnv1 \<Rightarrow> Some (coucal_hash_data_fnv1_64 data))"

text \<open>
  A table of a build with another back end. The hash function is called in one place,
  \<open>coucal_calc_hashes()\<close>, for the keys of a table without a hash handler, so such a table is one
  of the modelled build whose handler is the other back end.
\<close>

definition hash_in :: "(byte list \<Rightarrow> coucal_hashkeys) \<Rightarrow> coucal_custom \<Rightarrow> byte list \<Rightarrow> coucal_hashkeys" where
  "hash_in hash c s = (case key_hash c of None \<Rightarrow> hash s | Some f \<Rightarrow> f (key_arg c) s)"

definition built :: "(byte list \<Rightarrow> coucal_hashkeys) \<Rightarrow> struct_coucal \<Rightarrow> struct_coucal" where
  "built hash h =
     (case key_hash (custom h) of
        None \<Rightarrow> h\<lparr>custom := (custom h)\<lparr>key_hash := Some (\<lambda>arg. hash)\<rparr>\<rparr>
      | Some f \<Rightarrow> h)"

lemma built_hashes:
  "hash_of (custom (built hash h)) = hash_in hash (custom h)"
  "hash_in coucal_hash_string c = hash_of c"
  by (auto simp: built_def hash_of_def hash_in_def fun_eq_iff split: option.splits)

section \<open>Which builds there are\<close>

text \<open>With no method asked for there always is one, and it compiles.\<close>

lemma default_backend:
  assumes "''HTS_INTHASH_USES_MD5'' \<notin> m" and "''HTS_INTHASH_USES_OPENSSL_MD5'' \<notin> m"
    and "''HTS_INTHASH_USES_MURMUR'' \<notin> m" and "''HTS_INTHASH_USES_FNV1'' \<notin> m"
  shows "build_backend m = Inr (if \<not> strict_alignment m then Murmur
      else if ''LIBHTTRACK_EXPORTS'' \<in> m then BundledMd5 else OpensslMd5)"
  using assms by (simp add: build_backend_def select_hash_def dispatch_include_def dispatch_method_def Let_def)

text \<open>
  The two dispatches do not agree on the order: with Murmur and MD5 both asked for, the header is
  Murmur's and the code is MD5's. No other build fails.
\<close>

lemma build_error_iff:
  "build_backend m = Inl e \<longleftrightarrow> e = UndeclaredFunctions \<and> ''HTS_INTHASH_USES_MURMUR'' \<in> m \<and>
     (''HTS_INTHASH_USES_MD5'' \<in> m \<or> ''HTS_INTHASH_USES_OPENSSL_MD5'' \<in> m)"
  by (auto simp: build_backend_def select_hash_def dispatch_include_def dispatch_method_def Let_def)

lemma hash_size_cases:
  "selected_hash_size given = (if given = None then Some 32
     else if given = Some 32 \<or> given = Some 64 then given else None)"
  by (auto simp: selected_hash_size_def COUCAL_HASH_SIZE_def split: option.splits)

lemma selected_log_level_valid: "selected_log_level given = Some n \<Longrightarrow> valid_log_level n"
  by (auto simp: selected_log_level_def valid_log_level_def Let_def split: if_splits option.splits)

text \<open>
  On Windows the two declarations are the wrong way round: a build of the library imports its own
  functions, and a client of it exports them.
\<close>

lemma windows_linkage:
  assumes "''_WIN32'' \<in> m" and "''COUCAL_EXTERN'' \<notin> m"
  shows "coucal_extern m gnuc = (if ''COUCAL_BUILDING'' \<in> m then DllImport else DllExport)"
  using assms by (simp add: coucal_extern_def)

section \<open>Every build has two different hashes for a key\<close>

lemma backend_hashes_differ:
  "coucal_hash_data_of b lib data = Some k \<Longrightarrow> hash1 k \<noteq> hash2 k"
  "coucal_hash_data64_of b lib data = Some w \<Longrightarrow> wide1 w \<noteq> wide2 w"
proof -
  show "coucal_hash_data_of b lib data = Some k \<Longrightarrow> hash1 k \<noteq> hash2 k"
    using murmur_32.hashes_differ [of data, unfolded widen_neq] fnv1_32.hashes_differ [of data, unfolded widen_neq]
      md5_32.hashes_differ [of "digest_init lib" "digest_update lib" "digest_final lib" data, unfolded widen_neq]
    by (cases b) (auto simp: coucal_hash_data_of_def coucal_hash_data_openssl_def coucal_hash_data_md5_def
        digest_new_def split: if_splits)
  show "coucal_hash_data64_of b lib data = Some w \<Longrightarrow> wide1 w \<noteq> wide2 w"
    using murmur_64.hashes_differ [of data, unfolded wide_pair_neq] fnv1_64.hashes_differ [of data, unfolded wide_pair_neq]
      md5_64.hashes_differ [of "digest_init lib" "digest_update lib" "digest_final lib" data, unfolded wide_pair_neq]
    by (cases b) (auto simp: coucal_hash_data64_of_def digest_new_def split: if_splits)
qed

lemma hashes_missing:
  "coucal_hash_data_of b lib data = None \<longleftrightarrow> b = OpensslMd5 \<and> \<not> digest_allocates lib"
  "coucal_hash_data64_of b lib data = None \<longleftrightarrow> b = OpensslMd5 \<and> \<not> digest_allocates lib"
  by (cases b; simp add: coucal_hash_data_of_def coucal_hash_data64_of_def digest_new_def
      coucal_hash_data_openssl_def)+

section \<open>The builds agree\<close>

text \<open>Two stores with the same map give the same results and stay with the same map.\<close>

context string_store
begin

lemma runs_agree:
  assumes "invar t" and "invar u" and "lookup t = lookup u" and "\<forall>x \<in> set xs. 0 \<notin> set (op_key x)"
    and "room t + sum_list (map (\<lambda>x. Suc (length (op_key x))) xs) < 2 ^ 62"
    and "room u + sum_list (map (\<lambda>x. Suc (length (op_key x))) xs) < 2 ^ 62"
    and "run_ops step t xs = Inr (t', rs)" and "run_ops step u xs = Inr (u', qs)"
  shows "rs = qs \<and> lookup t' = lookup u' \<and> count t' = count u'"
proof -
  have "invar t' \<and> (lookup t', rs) = spec_run (lookup t) xs" "invar u' \<and> (lookup u', qs) = spec_run (lookup t) xs"
    using run_law [OF assms(1,4,5)] run_law [OF assms(2,4,6)] assms(3,7,8) by simp_all
  then show ?thesis using count_law [of t'] count_law [of u'] by (metis prod.inject)
qed

end

lemma built_new:
  assumes "coucal_new hp n = (Some h, hp')"
  shows "default_store (built hash h) \<and> table_map (built hash h) = Map.empty \<and>
    pool_size (pool (built hash h)) = 0"
proof -
  note new = new_table [OF assms]
  define h' where "h' = built hash h"
  have h': "h' = h\<lparr>custom := no_custom\<lparr>key_hash := Some (\<lambda>arg. hash)\<rparr>\<rparr>"
    using new(7) by (simp add: h'_def built_def no_custom_def)
  have "coucal_value_set_key_handler h None None (Some (\<lambda>arg. hash)) None 0 = Inr h'"
    using new(7) by (simp add: coucal_value_set_key_handler_def h' no_custom_def)
  moreover have "keys_ok (custom h')" "dup_ok (custom h')"
    by (simp_all add: h' keys_ok_default dup_ok_def no_custom_def)
  ultimately have inv: "coucal_inv h'"
    using set_key_handler_inv [OF new(1,2,4)] by blast
  have "entries h' = {#}" using new(2) by (simp add: h' entries_def live_def)
  then have "table_map h' = Map.empty" by (rule empty_table_map [OF inv])
  then show ?thesis using inv new(4) by (simp add: default_store_def h' no_custom_def no_pool_def flip: h'_def)
qed

text \<open>Any build behaves as a map, whatever it hashes with.\<close>

lemma built_refines_map:
  assumes "coucal_new hp n = (Some h, hp')" and "\<forall>x \<in> set xs. 0 \<notin> set (op_key x)"
    and "sum_list (map (\<lambda>x. Suc (length (op_key x))) xs) < 2 ^ 62"
  shows "case run_ops coucal_step (built hash h) xs of
      Inl e \<Rightarrow> resource_error e
    | Inr (h', rs) \<Rightarrow> default_store h' \<and> (table_map h', rs) = spec_run Map.empty xs"
  using coucal_strings.run_law [of "built hash h" xs] built_new [OF assms(1), of hash] assms(2,3)
  by (cases "run_ops coucal_step (built hash h) xs") simp_all

end
