(* ===== verification/Logged.thy ===== *)
theory Logged
  imports TraceStats Reach
begin

text \<open>
  Sequences of operations with their logs. The interface \<open>logged_store\<close> extends that of a string
  store by an operation that logs and keeps the contract \<open>logs\<close> with the one that does not; in it
  any run of operations has the same contract. The library is an instance. The rest is what the
  properties say of one operation: how its log ends, for the outside.
\<close>

section \<open>The interface of a store that logs\<close>

fun run_ops_log ::
  "('s \<Rightarrow> store_op \<Rightarrow> ('s \<times> store_result) logged) \<Rightarrow> 's \<Rightarrow> store_op list \<Rightarrow> ('s \<times> store_result list) logged"
where
  "run_ops_log step t [] = done_log (t, [])"
| "run_ops_log step t (x # xs) =
     bind_log (step t x) (\<lambda>(t, r). bind_log (run_ops_log step t xs) (\<lambda>(t, rs). done_log (t, r # rs)))"

locale logged_store = string_store invar lookup room step count excused
  for invar :: "'s \<Rightarrow> bool"
    and lookup :: "'s \<Rightarrow> byte list \<Rightarrow> coucal_value option"
    and room :: "'s \<Rightarrow> nat"
    and step :: "'s \<Rightarrow> store_op \<Rightarrow> ('s \<times> store_result) res"
    and count :: "'s \<Rightarrow> nat"
    and excused :: "coucal_error \<Rightarrow> bool" +
  fixes log_step :: "nat \<Rightarrow> 's \<Rightarrow> store_op \<Rightarrow> ('s \<times> store_result) logged"
  assumes log_law: "invar t \<Longrightarrow> 0 \<notin> set (op_key x) \<Longrightarrow> room t + length (op_key x) < 2 ^ 62 \<Longrightarrow>
      logs (\<lambda>n. log_step n t x) (step t x)"
begin

lemma run_logs:
  assumes "invar t" and "\<forall>x \<in> set xs. 0 \<notin> set (op_key x)"
    and "room t + sum_list (map (\<lambda>x. Suc (length (op_key x))) xs) < 2 ^ 62"
  shows "logs (\<lambda>n. run_ops_log (log_step n) t xs) (run_ops step t xs)"
  using assms
proof (induction xs arbitrary: t)
  case (Cons x xs)
  have pre: "0 \<notin> set (op_key x)" "room t + length (op_key x) < 2 ^ 62"
    using Cons.prems(2,3) by simp_all
  have rest: "logs (\<lambda>n. run_ops_log (log_step n) t' xs) (run_ops step t' xs)"
    if "step t x = Inr (t', r)" for t' r
  proof (rule Cons.IH)
    note law = step_law [OF Cons.prems(1) pre that]
    show "invar t'" "room t' + sum_list (map (\<lambda>x. Suc (length (op_key x))) xs) < 2 ^ 62"
      using law Cons.prems(3) by simp_all
    show "\<forall>x \<in> set xs. 0 \<notin> set (op_key x)" using Cons.prems(2) by simp
  qed
  show ?case
    unfolding run_ops_log.simps run_ops.simps
    by (rule logs_eq, (rule log_law [OF Cons.prems(1) pre] rest logs_rules | simp)+)
qed (simp add: logs_done)

end

section \<open>The hashtable as a store that logs\<close>

definition coucal_step_log ::
  "nat \<Rightarrow> struct_coucal \<Rightarrow> store_op \<Rightarrow> (struct_coucal \<times> store_result) logged" where
  "coucal_step_log n h x =
     (case x of
        Write s v \<Rightarrow> bind_log (coucal_write_value_log n h (KExt 0 s) v) (\<lambda>(h, r). done_log (h, Wrote r))
      | Remove s \<Rightarrow> bind_log (coucal_remove_log n h (KExt 0 s)) (\<lambda>(h, r). done_log (h, Removed r))
      | Lookup s \<Rightarrow> bind_log (run_log (coucal_read_value h (KExt 0 s) (Some 0))) (\<lambda>(r, v).
          done_log (h, Found (if r = 0 then None else v)))
      | Inc s \<Rightarrow> bind_log (coucal_inc_i_log n h (KExt 0 s) 1) (\<lambda>(h, v). done_log (h, Counted v)))"

lemma logs_step:
  assumes "default_store h" and "0 \<notin> set (op_key x)" and "pool_size (pool h) + length (op_key x) < 2 ^ 62"
  shows "logs (\<lambda>n. coucal_step_log n h x) (coucal_step h x)"
proof -
  have inv: "coucal_inv h" and fits: "fits h (op_key x)"
    using assms by (simp_all add: default_store_def fits_def)
  note ops = logs_write_value [OF inv] logs_inc_i [OF inv] logs_remove
  show ?thesis
    unfolding coucal_step_log_def coucal_step_def
    by (cases x; use fits in simp; (rule logs_eq, (rule ops logs_rules | simp)+))
qed

interpretation coucal_logged: logged_store default_store table_map "\<lambda>h. pool_size (pool h)"
    coucal_step used resource_error coucal_step_log
  by unfold_locales (rule logs_step)

section \<open>How the log of an operation ends\<close>

text \<open>
  For the outside: a success is silent at the critical level and does not abort; a failed
  assertion is the last message, its handlers are called once, and the process aborts.
\<close>

definition reported :: "coucal_globals \<Rightarrow> struct_coucal \<Rightarrow> 'a logged \<Rightarrow> bool" where
  "reported g h m \<longleftrightarrow>
     (case snd m of
        Inr x \<Rightarrow> \<not> (\<exists>msg \<in> set (fst m). critical msg) \<and> Aborted \<notin> set (deliver g h (fst m))
      | Inl (AssertFailed a) \<Rightarrow>
          (\<exists>before. fst m = before @ [AssertionMessage a] \<and>
             deliver g h (fst m) =
               map (\<lambda>msg. log_route g (Some h) (message_level msg)) before @ coucal_assert_failed g (Some h) \<and>
             last (deliver g h (fst m)) = Aborted)
      | Inl e \<Rightarrow> False)"

lemma log_route_not_aborted: "log_route g h level \<noteq> Aborted"
  by (auto simp: log_route_def split: option.split)

lemma reported_logs:
  assumes "logs m r" and "valid_log_level n" and "\<forall>e. r = Inl e \<longrightarrow> (\<exists>a. e = AssertFailed a)"
  shows "reported g h (m n)"
proof -
  note L = logsD [OF assms(1,2)]
  show ?thesis
  proof (cases r)
    case (Inr x)
    then have quiet: "\<not> (\<exists>msg \<in> set (fst (m n)). critical msg)" using L(3) by (simp add: log_ends_def)
    then have "\<not> (\<exists>msg \<in> set (fst (m n)). is_assertion msg)" using assertion_critical by blast
    then have "Aborted \<notin> set (deliver g h (fst (m n)))"
      using log_route_not_aborted [symmetric] by (auto simp: deliver_quiet)
    then show ?thesis using quiet L(1) Inr by (simp add: reported_def)
  next
    case (Inl e)
    then obtain a where a: "r = Inl (AssertFailed a)" using assms(3) by blast
    define before where "before = butlast (fst (m n))"
    have msgs: "fst (m n) = before @ [AssertionMessage a]" and "\<not> (\<exists>msg \<in> set before. is_assertion msg)"
      using L(3) a append_butlast_last_id [of "fst (m n)"] by (simp_all add: log_ends_def before_def)
    then have "deliver g h (fst (m n)) =
        map (\<lambda>msg. log_route g (Some h) (message_level msg)) before @ coucal_assert_failed g (Some h)"
      by (simp add: deliver_quiet)
    then show ?thesis using msgs L(1) a last_assert_failed [of g "Some h"]
      by (auto simp: reported_def)
  qed
qed

section \<open>Sizes\<close>

lemma stash_size_le_extent:
  assumes "stash_core st"
  shows "stash_size st \<le> extent st"
proof -
  note D = stash_coreD [OF assms]
  have "live_of (drop (extent st) (stash_items st)) = {#}"
    by (rule live_of_none) (use D in simp)
  then have "live_of (stash_items st) = live_of (take (extent st) (stash_items st))"
    using live_of_simps(3) [of "take (extent st) (stash_items st)" "drop (extent st) (stash_items st)"] by simp
  then show ?thesis using D(1-3) size_live_of_le [of "take (extent st) (stash_items st)"] by simp
qed

end
