(* ===== verification/Decimal.thy ===== *)
theory Decimal
  imports Prelude
begin

text \<open>
  Decimal numbers as \<open>printf()\<close> writes them and \<open>strtoul()\<close> reads them: the texts the programs that
  use the library make their keys of.
\<close>

section \<open>Digits\<close>

fun decimal :: "nat \<Rightarrow> byte list" where
  "decimal n = (if n < 10 then [of_nat (48 + n)] else decimal (n div 10) @ [of_nat (48 + n mod 10)])"

declare decimal.simps [simp del]

definition is_digit :: "byte \<Rightarrow> bool" where
  "is_digit c \<longleftrightarrow> 48 \<le> c \<and> c \<le> 57"

definition digits_value :: "byte list \<Rightarrow> nat" where
  "digits_value ds = foldl (\<lambda>v c. 10 * v + (unat c - 48)) 0 ds"

text \<open>
  What \<open>strtoul()\<close> reads, which is also what \<open>sscanf()\<close> reads for \<open>%lu\<close> and \<open>%u\<close>: blanks, a sign
  and decimal digits, with the value clamped to 64 bits and a minus sign negating it.
\<close>

definition is_space :: "byte \<Rightarrow> bool" where
  "is_space c \<longleftrightarrow> c = 32 \<or> 9 \<le> c \<and> c \<le> 13"

definition scan_ulong :: "byte list \<Rightarrow> u64 option" where
  "scan_ulong s =
     (let s = dropWhile is_space s;
          neg = (s \<noteq> [] \<and> hd s = 45);
          s = (if s \<noteq> [] \<and> (hd s = 45 \<or> hd s = 43) then tl s else s);
          ds = takeWhile is_digit s;
          v = of_nat (min (digits_value ds) (2 ^ 64 - 1)) :: u64
      in if ds = [] then None else Some (if neg then - v else v))"

text \<open>\<open>%u\<close> stores it in 32 bits.\<close>

definition scan_unsigned :: "byte list \<Rightarrow> u32 option" where
  "scan_unsigned s = map_option ucast (scan_ulong s)"

text \<open>The constant parts of a format.\<close>

definition text_bytes :: "string \<Rightarrow> byte list" where
  "text_bytes s = map (\<lambda>c. of_nat (of_char c)) s"

text \<open>What \<open>snprintf()\<close> leaves of a text in a buffer of \<open>n\<close> bytes, its NUL not counted.\<close>

definition snprintf :: "nat \<Rightarrow> byte list \<Rightarrow> byte list" where
  "snprintf n s = take (n - 1) s"

lemma snprintf_fits [simp]: "length s < n \<Longrightarrow> snprintf n s = s"
  by (simp add: snprintf_def)

lemma snprintf_subset: "set (snprintf n s) \<subseteq> set s"
  by (simp add: snprintf_def set_take_subset)

section \<open>What they mean\<close>

lemma digit_facts:
  assumes "n < 10"
  shows "is_digit (of_nat (48 + n))" and "unat (of_nat (48 + n) :: byte) = 48 + n"
proof -
  have "unat (of_nat (48 + n) :: byte) = take_bit 8 (48 + n)" by (simp only: unsigned_of_nat) simp
  also have "\<dots> = 48 + n" using assms by (intro take_bit_nat_eq_self) simp
  finally show u: "unat (of_nat (48 + n) :: byte) = 48 + n" .
  show "is_digit (of_nat (48 + n))"
    unfolding is_digit_def word_le_nat_alt u using assms by simp
qed

lemma decimal_digits: "\<forall>c \<in> set (decimal n). is_digit c"
proof (induction n rule: decimal.induct)
  case (1 n)
  show ?case using 1 digit_facts(1) [of n] digit_facts(1) [of "n mod 10"]
    by (subst decimal.simps) auto
qed

lemma decimal_nonempty: "decimal n \<noteq> []"
  by (subst decimal.simps) simp

lemma digits_value_snoc: "digits_value (ds @ [c]) = 10 * digits_value ds + (unat c - 48)"
  by (simp add: digits_value_def)

lemma decimal_value: "digits_value (decimal n) = n"
proof (induction n rule: decimal.induct)
  case (1 n)
  show ?case
  proof (cases "n < 10")
    case True
    then show ?thesis
      using digit_facts(2) [OF True] by (subst decimal.simps) (simp add: digits_value_def)
  next
    case False
    have "n mod 10 < 10" by simp
    then show ?thesis using 1 False digit_facts(2) [of "n mod 10"]
      by (subst decimal.simps) (simp add: digits_value_snoc del: of_nat_add)
  qed
qed

lemma decimal_inj: "decimal a = decimal b \<longleftrightarrow> a = b"
  using decimal_value by metis

lemma decimal_no_nul: "0 \<notin> set (decimal n)"
  using decimal_digits [of n] by (auto simp: is_digit_def)

lemma decimal_length_le: "n < 10 ^ Suc k \<Longrightarrow> length (decimal n) \<le> Suc k"
proof (induction k arbitrary: n)
  case 0
  then show ?case by (subst decimal.simps) simp
next
  case (Suc k)
  have "n div 10 < 10 ^ Suc k" using Suc.prems by (simp add: less_mult_imp_div_less)
  then have "length (decimal (n div 10)) \<le> Suc k" by (rule Suc.IH)
  then show ?case by (subst decimal.simps) simp
qed

lemma decimal_length_32: "n < 2 ^ 32 \<Longrightarrow> length (decimal n) \<le> 10"
  using decimal_length_le [of n 9] by simp

lemma decimal_length: "n < 1000 \<Longrightarrow> length (decimal n) \<le> 3"
  using decimal_length_le [of n 2] by simp

section \<open>What is written is read back\<close>

lemma digit_not_space: "is_digit c \<Longrightarrow> \<not> is_space c \<and> c \<noteq> 45 \<and> c \<noteq> 43"
  by (auto simp: is_digit_def is_space_def word_le_nat_alt)

lemma scan_decimal:
  assumes "n < 2 ^ 64"
  shows "scan_ulong (decimal n) = Some (of_nat n)"
proof -
  obtain c s where cs: "decimal n = c # s" using decimal_nonempty by (cases "decimal n") auto
  have digits: "\<forall>c \<in> set (decimal n). is_digit c" by (rule decimal_digits)
  then have c: "is_digit c" by (simp add: cs)
  have "takeWhile is_digit (decimal n) = decimal n" using digits by (simp add: takeWhile_eq_all_conv)
  then show ?thesis
    using digit_not_space [OF c] assms decimal_value [of n] by (simp add: scan_ulong_def cs Let_def min_def)
qed

lemma ucast_low: "(ucast (of_nat n :: u64) :: u32) = of_nat n"
  by (rule bit_word_eqI) (auto simp: bit_simps)

lemma scan_unsigned_decimal: "n < 2 ^ 32 \<Longrightarrow> scan_unsigned (decimal n) = Some (of_nat n)"
  using scan_decimal [of n] ucast_low [of n] by (simp add: scan_unsigned_def)

end
