(* ===== verification/Differential.thy ===== *)
theory Differential
  imports Strings Decimal
begin

text \<open>
  Differential testing, as \<open>src/fuzz/coucal_fuzz.c\<close> and the test \<open>coucal_test_oracle()\<close> of
  \<open>src/tests.c\<close> share it: each operation on a bounded set of keys is applied to a table and to a
  reference kept in two arrays, the results are compared, and at the end an enumeration has to
  reproduce the reference. The interface \<open>reference_keys\<close> is what the programs need of their keys;
  in it no operation makes the reference and the table differ.
\<close>

section \<open>The reference\<close>

text \<open>The local variables: the table and the reference.\<close>

record reference =
  table :: struct_coucal
  mval :: "u64 list"
  mpresent :: "bool list"
  model_count :: nat

text \<open>Why a run ends early: the library fails, or the program finds a difference.\<close>

datatype diff_stop = Library coucal_error | Mismatch

definition lib :: "'a res \<Rightarrow> diff_stop + 'a" where
  "lib r = (case r of Inl e \<Rightarrow> Inl (Library e) | Inr x \<Rightarrow> Inr x)"

definition agree :: "bool \<Rightarrow> diff_stop + unit" where
  "agree b = (if b then Inr () else Inl Mismatch)"

definition ref_write ::
  "(nat \<Rightarrow> byte list) \<Rightarrow> 'a reference_scheme \<Rightarrow> nat \<Rightarrow> u64 \<Rightarrow> diff_stop + 'a reference_scheme" where
  "ref_write key f kid v =
     bind_res (lib (coucal_write (table f) (KExt 0 (key kid)) v)) (\<lambda>(h, added).
     let f = f\<lparr>table := h\<rparr> in
     bind_res
       (if mpresent f ! kid then bind_res (agree (added = 0)) (\<lambda>_. Inr f)
        else bind_res (agree (added \<noteq> 0)) (\<lambda>_.
          Inr (f\<lparr>mpresent := (mpresent f)[kid := True], model_count := model_count f + 1\<rparr>)))
       (\<lambda>f. Inr (f\<lparr>mval := (mval f)[kid := v]\<rparr>)))"

definition ref_remove ::
  "(nat \<Rightarrow> byte list) \<Rightarrow> 'a reference_scheme \<Rightarrow> nat \<Rightarrow> diff_stop + 'a reference_scheme" where
  "ref_remove key f kid =
     bind_res (lib (coucal_remove (table f) (KExt 0 (key kid)))) (\<lambda>(h, removed).
     let f = f\<lparr>table := h\<rparr> in
     if mpresent f ! kid then
       bind_res (agree (removed \<noteq> 0)) (\<lambda>_.
         Inr (f\<lparr>mpresent := (mpresent f)[kid := False], model_count := size_sub (model_count f) 1\<rparr>))
     else bind_res (agree (removed = 0)) (\<lambda>_. Inr f))"

definition ref_lookup ::
  "(nat \<Rightarrow> byte list) \<Rightarrow> 'a reference_scheme \<Rightarrow> nat \<Rightarrow> diff_stop + 'a reference_scheme" where
  "ref_lookup key f kid =
     bind_res (lib (coucal_exists (table f) (KExt 0 (key kid)))) (\<lambda>r.
     bind_res (agree ((r \<noteq> 0) = mpresent f ! kid)) (\<lambda>_.
     if mpresent f ! kid then
       bind_res (lib (coucal_read (table f) (KExt 0 (key kid)) (Some 0))) (\<lambda>(r, got).
       bind_res (agree (r \<noteq> 0 \<and> got = Some (mval f ! kid))) (\<lambda>_. Inr f))
     else Inr f))"

text \<open>
  The enumeration at the end: what the body of the loop does with a key and its value, then with
  an item. The variables of the loop are \<open>check\<close> and \<open>seen\<close>; the calls of the enumerator are
  bounded by one more than the table's slots.
\<close>

definition ref_check ::
  "(byte list \<Rightarrow> u32 option) \<Rightarrow> nat \<Rightarrow> 'a reference_scheme \<Rightarrow> byte list \<Rightarrow> u64 \<Rightarrow> bool list \<times> nat \<Rightarrow>
   diff_stop + bool list \<times> nat" where
  "ref_check scan keys f s v = (\<lambda>(check, seen).
     case scan s of
       None \<Rightarrow> Inl Mismatch
     | Some k \<Rightarrow>
         let kid = unat k in
         bind_res (agree (kid < keys)) (\<lambda>_.
         bind_res (agree (mpresent f ! kid \<and> \<not> check ! kid)) (\<lambda>_.
         bind_res (agree (v = mval f ! kid)) (\<lambda>_.
           Inr (check[kid := True], seen + 1)))))"

definition ref_visit ::
  "(byte list \<Rightarrow> u32 option) \<Rightarrow> nat \<Rightarrow> 'a reference_scheme \<Rightarrow> location \<Rightarrow> bool list \<times> nat \<Rightarrow>
   diff_stop + bool list \<times> nat" where
  "ref_visit scan keys f loc st =
     (let it = item_at (table f) loc in
      bind_res (lib (read_key (table f) (name it))) (\<lambda>s. ref_check scan keys f s (value it) st))"

definition ref_enum ::
  "(byte list \<Rightarrow> u32 option) \<Rightarrow> nat \<Rightarrow> 'a reference_scheme \<Rightarrow> diff_stop + bool list \<times> nat" where
  "ref_enum scan keys f =
     for_each (coucal_enum_next (table f)) (ref_visit scan keys f) (Library Diverges)
       (coucal_enum_new (table f)) (replicate keys False, 0) (POW2 (lg_size (table f)) + STASH_SIZE + 1)"

section \<open>The reference as a map\<close>

definition ref_map :: "(nat \<Rightarrow> byte list) \<Rightarrow> nat \<Rightarrow> bool list \<Rightarrow> u64 list \<Rightarrow> byte list \<Rightarrow> u64 option" where
  "ref_map key keys ps vs = map_of (map (\<lambda>k. (key k, vs ! k)) (filter (\<lambda>k. ps ! k) [0..<keys]))"

definition ref_inv :: "(nat \<Rightarrow> byte list) \<Rightarrow> nat \<Rightarrow> nat \<Rightarrow> 'a reference_scheme \<Rightarrow> bool" where
  "ref_inv key keys b f \<longleftrightarrow>
     default_store (table f) \<and> pool_size (pool (table f)) \<le> b \<and>
     length (mval f) = keys \<and> length (mpresent f) = keys \<and>
     table_map (table f) = ref_map key keys (mpresent f) (mval f) \<and>
     model_count f = card (dom (table_map (table f)))"

text \<open>What is shown of each operation: it ends early only for want of resources.\<close>

definition diff_sound :: "('s \<Rightarrow> bool) \<Rightarrow> diff_stop + 's \<Rightarrow> bool" where
  "diff_sound ok r \<longleftrightarrow>
     (case r of Inl stop \<Rightarrow> (\<exists>e. stop = Library e \<and> resource_error e) | Inr f \<Rightarrow> ok f)"

lemma diff_sound_simps [simp]:
  "diff_sound ok (Inr f) = ok f" "diff_sound ok (Inl Mismatch) = False"
  "diff_sound ok (Inl (Library e)) = resource_error e"
  by (auto simp: diff_sound_def)

lemma diff_sound_mono: "diff_sound ok r \<Longrightarrow> (\<And>f. ok f \<Longrightarrow> ok' f) \<Longrightarrow> diff_sound ok' r"
  by (auto simp: diff_sound_def split: sum.splits)

lemma diff_sound_bind:
  "diff_sound ok r \<Longrightarrow> (\<And>f. ok f \<Longrightarrow> diff_sound ok' (k f)) \<Longrightarrow> diff_sound ok' (bind_res r k)"
  by (cases r) (auto simp: diff_sound_def)

lemma lib_simps [simp]: "lib (Inl e) = Inl (Library e)" "lib (Inr x) = Inr x"
  by (simp_all add: lib_def)

lemma agree_simps [simp]: "agree True = Inr ()" "agree False = Inl Mismatch"
  by (simp_all add: agree_def)

lemma map_eq_Some_iff: "(\<And>s v. m s = Some v \<longleftrightarrow> m' s = Some v) \<Longrightarrow> m = m'"
  by (rule ext) (metis not_Some_eq)

lemma finite_ref_map [simp]: "finite (dom (ref_map key keys ps vs))"
  unfolding ref_map_def by (rule finite_dom_map_of)

text \<open>The body of the enumeration in terms of the entry it sees.\<close>

definition ref_entry ::
  "(byte list \<Rightarrow> u32 option) \<Rightarrow> nat \<Rightarrow> 'a reference_scheme \<Rightarrow> table_entry \<Rightarrow> bool list \<times> nat \<Rightarrow>
   diff_stop + bool list \<times> nat" where
  "ref_entry scan keys f en st =
     (case fst en of
        None \<Rightarrow> Inl (Library BadPointer)
      | Some s \<Rightarrow> ref_check scan keys f s (fst (snd en)) st)"

lemma ref_visit_entry:
  "ref_visit scan keys f loc st = ref_entry scan keys f (entry (pool (table f)) (item_at (table f) loc)) st"
  by (simp add: ref_visit_def ref_entry_def Let_def read_key_def entry_def lib_def split: option.split)

section \<open>The reference and the table never differ\<close>

text \<open>The keys are different strings, of a bounded length, from which their number is read back.\<close>

locale reference_keys =
  fixes key :: "nat \<Rightarrow> byte list" and keys :: nat and len :: nat and scan :: "byte list \<Rightarrow> u32 option"
  assumes key_string: "k < keys \<Longrightarrow> 0 \<notin> set (key k) \<and> length (key k) \<le> len"
    and key_scan: "k < keys \<Longrightarrow> scan (key k) = Some (of_nat k)"
    and keys_small: "keys < 2 ^ 32"
begin

lemma key_number: "k < keys \<Longrightarrow> unat (of_nat k :: u32) = k"
  using keys_small by (simp add: unsigned_of_nat take_bit_nat_eq_self)

lemma key_inj: "a < keys \<Longrightarrow> b < keys \<Longrightarrow> key a = key b \<longleftrightarrow> a = b"
  using key_scan key_number by (metis option.inject)

lemma ref_map_iff:
  "ref_map key keys ps vs s = Some v \<longleftrightarrow> (\<exists>k < keys. s = key k \<and> ps ! k \<and> v = vs ! k)"
proof -
  have "distinct (map fst (map (\<lambda>k. (key k, vs ! k)) (filter (\<lambda>k. ps ! k) [0..<keys])))"
    by (auto simp: distinct_map inj_on_def key_inj)
  from map_of_eq_Some_iff [OF this] show ?thesis by (auto simp: ref_map_def)
qed

lemma ref_map_key:
  "k < keys \<Longrightarrow> ref_map key keys ps vs (key k) = (if ps ! k then Some (vs ! k) else None)"
  using ref_map_iff [of ps vs "key k"] key_inj by (cases "ref_map key keys ps vs (key k)") auto

lemma ref_map_set:
  assumes "k < keys" "length ps = keys" "length vs = keys"
  shows "ref_map key keys (ps[k := True]) (vs[k := v]) = (ref_map key keys ps vs)(key k \<mapsto> v)"
  by (rule map_eq_Some_iff)
    (use assms key_inj in \<open>auto simp: ref_map_iff nth_list_update split: if_splits\<close>)

lemma ref_map_unset:
  assumes "k < keys" "length ps = keys"
  shows "ref_map key keys (ps[k := False]) vs = (ref_map key keys ps vs)(key k := None)"
  by (rule map_eq_Some_iff)
    (use assms key_inj in \<open>auto simp: ref_map_iff nth_list_update split: if_splits\<close>)

lemma ref_invD:
  assumes "ref_inv key keys b f"
  shows "default_store (table f)" "length (mval f) = keys" "length (mpresent f) = keys"
    "table_map (table f) = ref_map key keys (mpresent f) (mval f)" "finite (dom (table_map (table f)))"
    "k < keys \<Longrightarrow> table_map (table f) (key k) = (if mpresent f ! k then Some (mval f ! k) else None)"
    "model_count f = card (dom (table_map (table f)))" "pool_size (pool (table f)) \<le> b"
  using assms by (simp_all add: ref_inv_def ref_map_key)

lemma key_room:
  assumes "ref_inv key keys b f" and "b + len < 2 ^ 62" and "k < keys"
  shows "0 \<notin> set (key k)" and "pool_size (pool (table f)) + length (key k) < 2 ^ 62"
    and "n \<le> pool_size (pool (table f)) + Suc (length (key k)) \<Longrightarrow> n \<le> b + Suc len"
  using key_string [OF assms(3)] ref_invD(8) [OF assms(1)] assms(2) by simp_all

lemma model_count_bounds:
  assumes "ref_inv key keys b f"
  shows "model_count f < 2 ^ 32" and "k < keys \<Longrightarrow> mpresent f ! k \<Longrightarrow> 1 \<le> model_count f"
proof -
  note D = ref_invD [OF assms]
  have "dom (table_map (table f)) \<subseteq> key ` {..<keys}"
    unfolding D(4) by (auto simp: ref_map_iff)
  then have "card (dom (table_map (table f))) \<le> card (key ` {..<keys})"
    by (intro card_mono) simp_all
  also have "\<dots> \<le> keys" using card_image_le [of "{..<keys}" key] by simp
  finally show "model_count f < 2 ^ 32" using keys_small by (simp add: D(7))
  assume "k < keys" "mpresent f ! k"
  then have "key k \<in> dom (table_map (table f))" using D(6) [of k] by auto
  then have "0 < card (dom (table_map (table f)))" using D(5) by (auto simp: card_gt_0_iff)
  then show "1 \<le> model_count f" by (simp add: D(7))
qed

text \<open>Setting a key of the reference beside a table that was given the same value.\<close>

lemma set_step:
  assumes inv: "ref_inv key keys b f" and room: "b + len < 2 ^ 62" and k: "k < keys"
    and h': "default_store h'" "table_map h' = (table_map (table f))(key k \<mapsto> v)"
      "pool_size (pool h') \<le> pool_size (pool (table f)) + Suc (length (key k))"
    and f': "table f' = h'" "mval f' = (mval f)[k := v]" "mpresent f' = (mpresent f)[k := True]"
      "model_count f' = (if mpresent f ! k then model_count f else model_count f + 1)"
  shows "ref_inv key keys (b + Suc len) f'"
proof -
  note D = ref_invD [OF inv]
  have map: "table_map h' = ref_map key keys ((mpresent f)[k := True]) ((mval f)[k := v])"
    unfolding h'(2) D(4) using ref_map_set [OF k D(3,2)] by simp
  have count: "card (dom (table_map h')) =
      (if mpresent f ! k then model_count f else Suc (model_count f))"
    unfolding h'(2) card_dom_update(1) [OF D(5)] using D(6) [OF k] D(7) by simp
  show ?thesis
    unfolding ref_inv_def f' using h'(1) map count D(2,3) key_room(3) [OF inv room k h'(3)] by simp
qed

lemma write_sound:
  assumes inv: "ref_inv key keys b f" and room: "b + len < 2 ^ 62" and k: "k < keys"
  shows "diff_sound (\<lambda>f'. ref_inv key keys (b + Suc len) f' \<and> mval f' = (mval f)[k := v] \<and>
    reference.more f' = reference.more f) (ref_write key f k v)"
proof -
  note D = ref_invD [OF inv] and r = key_room(1,2) [OF inv room k]
  show ?thesis
  proof (cases "coucal_write (table f) (KExt 0 (key k)) v")
    case (Inl e)
    then show ?thesis using write_string [OF D(1) r, of v] by (simp add: ref_write_def)
  next
    case (Inr p)
    obtain h' ret where p: "p = (h', ret)" by fastforce
    have w: "default_store h'" "table_map h' = (table_map (table f))(key k \<mapsto> v)"
        "ret = (if table_map (table f) (key k) = None then 1 else 0)"
        "pool_size (pool h') \<le> pool_size (pool (table f)) + Suc (length (key k))"
      using write_string [OF D(1) r, of v] by (simp_all add: Inr p)
    have ret: "ret = 0 \<longleftrightarrow> mpresent f ! k" using w(3) D(6) [OF k] by simp
    have "\<exists>f'. ref_write key f k v = Inr f' \<and> table f' = h' \<and> mval f' = (mval f)[k := v] \<and>
        mpresent f' = (mpresent f)[k := True] \<and> reference.more f' = reference.more f \<and>
        model_count f' = (if mpresent f ! k then model_count f else model_count f + 1)"
      using ret list_update_id [of "mpresent f" k] Inr p
      by (cases "mpresent f ! k"; cases f) (simp_all add: ref_write_def Let_def)
    then obtain f' where "ref_write key f k v = Inr f'" "reference.more f' = reference.more f"
        "mval f' = (mval f)[k := v]" and "table f' = h'" "mpresent f' = (mpresent f)[k := True]"
        "model_count f' = (if mpresent f ! k then model_count f else model_count f + 1)" by blast
    moreover from this have "ref_inv key keys (b + Suc len) f'" by (intro set_step [OF inv room k w(1,2,4)])
    ultimately show ?thesis by simp
  qed
qed

lemma remove_sound:
  assumes inv: "ref_inv key keys b f" and room: "b + len < 2 ^ 62" and k: "k < keys"
  shows "diff_sound (\<lambda>f'. ref_inv key keys (b + Suc len) f' \<and> mval f' = mval f \<and>
    reference.more f' = reference.more f) (ref_remove key f k)"
proof -
  note D = ref_invD [OF inv] and r = key_room(1,2) [OF inv room k]
  show ?thesis
  proof (cases "coucal_remove (table f) (KExt 0 (key k))")
    case (Inl e)
    then show ?thesis using remove_string [OF D(1) r] by (simp add: ref_remove_def)
  next
    case (Inr p)
    obtain h' ret where p: "p = (h', ret)" by fastforce
    have w: "default_store h'" "table_map h' = (table_map (table f))(key k := None)"
        "ret = (if table_map (table f) (key k) = None then 0 else 1)"
        "pool_size (pool h') \<le> pool_size (pool (table f)) + Suc (length (key k))"
      using remove_string [OF D(1) r] by (simp_all add: Inr p)
    have ret: "ret = 0 \<longleftrightarrow> \<not> mpresent f ! k" using w(3) D(6) [OF k] by simp
    have map: "table_map h' = ref_map key keys ((mpresent f)[k := False]) (mval f)"
      unfolding w(2) D(4) using ref_map_unset [OF k D(3)] by simp
    have count: "card (dom (table_map h')) =
        (if mpresent f ! k then model_count f - 1 else model_count f)"
      unfolding w(2) card_dom_update(2) [OF D(5)] using D(6) [OF k] D(7) by simp
    have sub: "size_sub (model_count f) 1 = model_count f - 1" if "mpresent f ! k"
      using model_count_bounds [OF inv] k that by simp
    have "ref_inv key keys (b + Suc len) (f\<lparr>table := h', mpresent := (mpresent f)[k := False],
        model_count := card (dom (table_map h'))\<rparr>)"
      using w(1) map D(2,3) key_room(3) [OF inv room k w(4)] by (simp add: ref_inv_def)
    then show ?thesis
      using ret count sub list_update_id [of "mpresent f" k] Inr p
      by (cases "mpresent f ! k"; cases f) (simp_all add: ref_remove_def Let_def)
  qed
qed

lemma lookup_sound:
  assumes "ref_inv key keys b f" and "k < keys"
  shows "ref_lookup key f k = Inr f"
proof -
  note D = ref_invD [OF assms(1)]
  have "lookup_inv (table f)" using D(1) by (simp add: default_store_facts)
  note read = read_value_map [OF this deref_ext [of "pool (table f)" 0 "key k"]]
  show ?thesis
    using read D(6) [OF assms(2)] by (cases "mpresent f ! k") (simp_all add: ref_lookup_def accessor_defs)
qed

lemma nitems_agree: "ref_inv key keys b f \<Longrightarrow> coucal_nitems (Some (table f)) = model_count f"
  using ref_invD(1,7) [of b f] used_card(2) [of "table f"] by (simp add: coucal_nitems_def default_store_def)

lemma ref_inv_mono: "ref_inv key keys b f \<Longrightarrow> b \<le> c \<Longrightarrow> ref_inv key keys c f"
  by (simp add: ref_inv_def)

subsection \<open>The enumeration reproduces the reference\<close>

lemma key_entries:
  assumes inv: "ref_inv key keys b f" and en: "en \<in># entries (table f)"
  obtains k where "k < keys" "fst en = Some (key k)" "mpresent f ! k" "fst (snd en) = mval f ! k"
proof -
  note D = ref_invD [OF inv]
  obtain s where s: "fst en = Some s" "table_map (table f) s = Some (fst (snd en))"
    by (rule entry_in_map [OF D(1) en])
  then obtain k where "k < keys" "s = key k" "mpresent f ! k" "fst (snd en) = mval f ! k"
    using D(4) by (auto simp: ref_map_iff)
  then show ?thesis using that s(1) by blast
qed

lemma entries_sound:
  assumes inv: "ref_inv key keys b f" and "set ens \<subseteq> set_mset (entries (table f))" and "distinct (map fst ens)"
    and "length check = keys" and "\<forall>k < keys. check ! k \<longrightarrow> Some (key k) \<notin> fst ` set ens"
  shows "\<exists>check'. fold_res (ref_entry scan keys f) ens (check, seen) = Inr (check', seen + length ens)"
  using assms(2-)
proof (induction ens arbitrary: check seen)
  case (Cons en ens)
  then have "en \<in># entries (table f)" by simp
  from key_entries [OF inv this] obtain k where
    k: "k < keys" "fst en = Some (key k)" "mpresent f ! k" "fst (snd en) = mval f ! k" .
  have "\<not> check ! k" using Cons.prems(4) k(1,2) by auto
  then have "ref_entry scan keys f en (check, seen) = Inr (check[k := True], seen + 1)"
    using k by (simp add: ref_entry_def ref_check_def key_scan key_number Let_def)
  moreover have "\<forall>j < keys. check[k := True] ! j \<longrightarrow> Some (key j) \<notin> fst ` set ens"
    using Cons.prems(2-4) k(1,2) by (auto simp: nth_list_update)
  ultimately show ?case
    using Cons.IH [of "check[k := True]" "seen + 1"] Cons.prems by simp
qed simp

lemma enum_sound:
  assumes inv: "ref_inv key keys b f"
  shows "\<exists>check. ref_enum scan keys f = Inr (check, model_count f)"
proof -
  note D = ref_invD [OF inv]
  note F = default_store_facts [OF D(1)] and P = pending_map [OF D(1)]
  have "ref_enum scan keys f = fold_res (ref_entry scan keys f)
      (pending (table f) (coucal_enum_new (table f))) (replicate keys False, 0)"
    unfolding ref_enum_def by (rule enum_fold [OF D(1)]) (rule ref_visit_entry)
  then show ?thesis
    using entries_sound [OF inv _ P(3), of "replicate keys False" 0] P(1,2) F(5) D(7) by simp
qed

lemma delete_returns:
  assumes inv: "ref_inv key keys b f"
  shows "\<exists>cs. coucal_delete (Some (Some (table f))) = Inr (Some None, cs)"
  using coucal_delete_correct [OF default_store_facts(1) [OF ref_invD(1) [OF inv]]] by blast

end

end
