(* ===== verification/Fuzz.thy ===== *)
theory Fuzz
  imports Differential
begin

text \<open>
  The differential fuzzing harness (\<open>src/fuzz/coucal_fuzz.c\<close>) as a client of the model: it decodes
  its input as operations on 256 keys, applies each to a table and to a reference, and calls
  \<open>abort()\<close> where they differ. The lemmas show that no input makes them differ, and that the driver
  that replays files exits with 0 exactly when it could read them all.
\<close>

section \<open>Keys\<close>

text \<open>\<open>snprintf(key, sizeof(key), "k%u", kid)\<close> into a buffer of 16 bytes.\<close>

definition fuzz_key :: "nat \<Rightarrow> byte list" where
  "fuzz_key kid = snprintf 16 (107 # decimal kid)"

text \<open>\<open>sscanf(name, "k%u", &kid)\<close>\<close>

definition scan_key :: "byte list \<Rightarrow> u32 option" where
  "scan_key s = (case s of c # s \<Rightarrow> if c = 107 then scan_unsigned s else None | [] \<Rightarrow> None)"

section \<open>The harness\<close>

definition FZ_KEYS :: nat where "FZ_KEYS = 256"

text \<open>The logging handler that ignores its arguments; handlers are known by a number.\<close>

definition fz_noop_log :: t_coucal_loghandler where "fz_noop_log = 0"

record fuzz_state = reference +
  counter :: u64

definition fuzz_write :: "fuzz_state \<Rightarrow> nat \<Rightarrow> diff_stop + fuzz_state" where
  "fuzz_write f kid =
     (let f = f\<lparr>counter := counter f + 1\<rparr>; v = counter f in ref_write fuzz_key f kid v)"

text \<open>\<open>intptr_t got = coucal_inc(h, key)\<close>: the \<open>int\<close> result, widened.\<close>

definition fuzz_inc :: "fuzz_state \<Rightarrow> nat \<Rightarrow> diff_stop + fuzz_state" where
  "fuzz_inc f kid =
     bind_res (lib (coucal_inc (table f) (KExt 0 (fuzz_key kid)))) (\<lambda>(h, r).
     let f = f\<lparr>table := h\<rparr>; got = (of_int r :: u64);
         f = (if mpresent f ! kid then f\<lparr>mval := (mval f)[kid := mval f ! kid + 1]\<rparr>
              else f\<lparr>mpresent := (mpresent f)[kid := True], mval := (mval f)[kid := 1],
                     model_count := model_count f + 1\<rparr>)
     in bind_res (agree (got = mval f ! kid)) (\<lambda>_. Inr f))"

text \<open>One turn of the loop, on the opcode byte and the key byte.\<close>

definition fuzz_step :: "fuzz_state \<Rightarrow> byte \<Rightarrow> byte \<Rightarrow> diff_stop + fuzz_state" where
  "fuzz_step f b c =
     (let op = b AND 3; kid = unat c mod FZ_KEYS in
      bind_res
        (if op = 0 then fuzz_write f kid
         else if op = 1 then ref_remove fuzz_key f kid
         else if op = 2 then ref_lookup fuzz_key f kid
         else fuzz_inc f kid)
        (\<lambda>f. bind_res (agree (coucal_nitems (Some (table f)) = model_count f)) (\<lambda>_. Inr f)))"

fun fuzz_run :: "fuzz_state \<Rightarrow> byte list \<Rightarrow> diff_stop + fuzz_state" where
  "fuzz_run f (b # c # data) = bind_res (fuzz_step f b c) (\<lambda>f. fuzz_run f data)"
| "fuzz_run f _ = Inr f"

definition fuzz_start :: "struct_coucal \<Rightarrow> fuzz_state" where
  "fuzz_start h =
     \<lparr>table = coucal_set_assert_handler h (Some fz_noop_log) None 0, mval = replicate FZ_KEYS 0,
      mpresent = replicate FZ_KEYS False, model_count = 0, counter = 0\<rparr>"

text \<open>The result of a run that reaches its end is what \<open>coucal_delete()\<close> leaves behind.\<close>

definition LLVMFuzzerTestOneInput ::
  "c_heap \<Rightarrow> byte list \<Rightarrow> diff_stop + struct_coucal option option" where
  "LLVMFuzzerTestOneInput hp data =
     (case coucal_new hp 0 of
        (None, hp) \<Rightarrow> Inl (Library BadPointer)
      | (Some h, hp) \<Rightarrow>
          bind_res (fuzz_run (fuzz_start h) data) (\<lambda>f.
          bind_res (ref_enum scan_key FZ_KEYS f) (\<lambda>(check, seen).
          bind_res (agree (seen = model_count f)) (\<lambda>_.
          bind_res (lib (coucal_delete (Some (Some (table f))))) (\<lambda>(p, cs). Inr p)))))"

text \<open>
  The driver without libFuzzer: \<open>main()\<close> replays each file it is given. A file is what the calls on
  it return; \<open>fread()\<close> delivers at most the \<open>n\<close> bytes asked for. With each file comes the state
  the allocator is in when its turn comes.
\<close>

record replay_file =
  opens :: bool
  seeks_end :: bool
  tells :: int
  seeks_start :: bool
  delivers :: "byte list"

fun fuzz_main :: "(c_heap \<times> replay_file) list \<Rightarrow> diff_stop + int" where
  "fuzz_main [] = Inr 0"
| "fuzz_main ((hp, fp) # argv) =
     (if \<not> opens fp then Inr 1
      else if \<not> seeks_end fp then Inr 1
      else let n = tells fp in
        if n < 0 \<or> \<not> seeks_start fp then Inr 1
        else case c_malloc hp (size_add (nat n) 1) of
            (None, hp) \<Rightarrow> Inr 1
          | (Some buf, hp) \<Rightarrow>
              bind_res (LLVMFuzzerTestOneInput hp (take (nat n) (delivers fp))) (\<lambda>_. fuzz_main argv))"

section \<open>Keys: what is printed is read back\<close>

lemma scan_fuzz_key:
  assumes "n < 2 ^ 32"
  shows "scan_key (fuzz_key n) = Some (of_nat n)"
  using scan_unsigned_decimal [OF assms] decimal_length_32 [OF assms] by (simp add: scan_key_def fuzz_key_def)

lemma fuzz_key_no_nul: "0 \<notin> set (fuzz_key n)"
  using decimal_no_nul [of n] snprintf_subset [of 16 "107 # decimal n"] by (auto simp: fuzz_key_def)

interpretation fuzz: reference_keys fuzz_key FZ_KEYS 4 scan_key
proof
  show "0 \<notin> set (fuzz_key k) \<and> length (fuzz_key k) \<le> 4" if "k < FZ_KEYS" for k
    using decimal_no_nul [of k] decimal_length [of k] that by (simp add: fuzz_key_def FZ_KEYS_def)
  show "scan_key (fuzz_key k) = Some (of_nat k)" if "k < FZ_KEYS" for k
    using that by (intro scan_fuzz_key) (simp add: FZ_KEYS_def)
qed (simp add: FZ_KEYS_def)

section \<open>The reference and the table never differ\<close>

lemma int_cast:
  assumes "m < 2 ^ 31"
  shows "sint (ucast (of_nat m :: u64) :: u32) = int m"
proof -
  have "signed_take_bit 31 (int m) = int m"
    using assms by (intro signed_take_bit_int_eq_self) simp_all
  then show ?thesis by (simp add: ucast_low signed_of_nat)
qed

text \<open>
  After \<open>n\<close> operations. The values are at most \<open>n\<close>, so that \<open>coucal_inc()\<close> does not cut them off.
\<close>

definition fuzz_inv :: "nat \<Rightarrow> fuzz_state \<Rightarrow> bool" where
  "fuzz_inv n f \<longleftrightarrow> ref_inv fuzz_key FZ_KEYS (5 * n) f \<and>
     (\<exists>c \<le> n. counter f = of_nat c) \<and> (\<forall>k < FZ_KEYS. \<exists>v \<le> n. mval f ! k = of_nat v)"

lemma fuzz_values:
  assumes "fuzz_inv n f" and "k < FZ_KEYS" and "\<exists>x \<le> Suc n. v = of_nat x"
  shows "\<forall>j < FZ_KEYS. \<exists>x \<le> Suc n. (mval f)[k := v] ! j = of_nat x"
proof (intro allI impI)
  fix j assume "j < FZ_KEYS"
  then obtain x where "x \<le> n" "mval f ! j = of_nat x" using assms(1) by (auto simp: fuzz_inv_def)
  then show "\<exists>x \<le> Suc n. (mval f)[k := v] ! j = of_nat x"
    using assms by (cases "j = k") (auto simp: fuzz_inv_def ref_inv_def intro!: exI [of _ x])
qed

text \<open>What an operation leaves, from what it leaves of the reference.\<close>

lemma fuzz_inv_next:
  assumes "fuzz_inv n f" and "ref_inv fuzz_key FZ_KEYS (5 * n + 5) f'"
    and "counter f' = counter f \<or> counter f' = counter f + 1"
    and "mval f' = mval f \<or> (\<exists>k < FZ_KEYS. \<exists>x \<le> Suc n. mval f' = (mval f)[k := of_nat x])"
  shows "fuzz_inv (Suc n) f'"
proof -
  obtain c where "c \<le> n" "counter f = of_nat c" using assms(1) by (auto simp: fuzz_inv_def)
  then have "\<exists>c \<le> Suc n. counter f' = of_nat c"
    using assms(3) by (auto intro: exI [of _ c] exI [of _ "Suc c"])
  moreover have "\<forall>j < FZ_KEYS. \<exists>x \<le> Suc n. mval f' ! j = of_nat x"
    using assms(4)
  proof (elim disjE exE conjE)
    assume "mval f' = mval f"
    then show ?thesis using assms(1) by (auto simp: fuzz_inv_def intro: le_SucI)
  next
    fix k x assume k: "k < FZ_KEYS" "x \<le> Suc n" "mval f' = (mval f)[k := of_nat x]"
    then have "\<exists>y \<le> Suc n. (of_nat x :: u64) = of_nat y" by blast
    from fuzz_values [OF assms(1) k(1) this] show ?thesis by (simp add: k(3))
  qed
  ultimately show ?thesis using assms(2) by (simp add: fuzz_inv_def add.commute)
qed

lemma fuzz_write_sound:
  assumes inv: "fuzz_inv n f" and n: "n < 2 ^ 31" and k: "k < FZ_KEYS"
  shows "diff_sound (fuzz_inv (Suc n)) (fuzz_write f k)"
proof -
  define g where "g = f\<lparr>counter := counter f + 1\<rparr>"
  obtain c where c: "c \<le> n" "counter g = of_nat (Suc c)" using inv by (auto simp: fuzz_inv_def g_def)
  have "ref_inv fuzz_key FZ_KEYS (5 * n) g" using inv by (simp add: fuzz_inv_def ref_inv_def g_def)
  from fuzz.write_sound [OF this _ k, of "counter g"] n
  have "diff_sound (\<lambda>f'. ref_inv fuzz_key FZ_KEYS (5 * n + 5) f' \<and> mval f' = (mval g)[k := counter g] \<and>
      reference.more f' = reference.more g) (ref_write fuzz_key g k (counter g))" by simp
  then show ?thesis
    unfolding fuzz_write_def Let_def g_def [symmetric]
  proof (rule diff_sound_mono, elim conjE)
    fix f' :: fuzz_state
    assume f': "ref_inv fuzz_key FZ_KEYS (5 * n + 5) f'" "mval f' = (mval g)[k := counter g]"
      "reference.more f' = reference.more g"
    have "counter f' = counter f + 1" using f'(3) by (cases f'; cases f) (simp add: g_def)
    moreover have "mval f' = (mval f)[k := of_nat (Suc c)]" using f'(2) c(2) by (simp add: g_def add.commute)
    then have "\<exists>k < FZ_KEYS. \<exists>x \<le> Suc n. mval f' = (mval f)[k := of_nat x]"
      using c(1) k by (meson Suc_le_mono)
    ultimately show "fuzz_inv (Suc n) f'" by (intro fuzz_inv_next [OF inv f'(1)]) simp_all
  qed
qed

lemma fuzz_remove_sound:
  assumes inv: "fuzz_inv n f" and n: "n < 2 ^ 31" and k: "k < FZ_KEYS"
  shows "diff_sound (fuzz_inv (Suc n)) (ref_remove fuzz_key f k)"
proof -
  have "ref_inv fuzz_key FZ_KEYS (5 * n) f" using inv by (simp add: fuzz_inv_def)
  from fuzz.remove_sound [OF this _ k] n
  have "diff_sound (\<lambda>f'. ref_inv fuzz_key FZ_KEYS (5 * n + 5) f' \<and> mval f' = mval f \<and>
      reference.more f' = reference.more f) (ref_remove fuzz_key f k)" by simp
  then show ?thesis
  proof (rule diff_sound_mono, elim conjE)
    fix f' :: fuzz_state
    assume f': "ref_inv fuzz_key FZ_KEYS (5 * n + 5) f'" "mval f' = mval f"
      "reference.more f' = reference.more f"
    have "counter f' = counter f" using f'(3) by (cases f'; cases f) simp
    then show "fuzz_inv (Suc n) f'" using f'(2) by (intro fuzz_inv_next [OF inv f'(1)]) simp_all
  qed
qed

lemma fuzz_lookup_sound:
  assumes inv: "fuzz_inv n f" and k: "k < FZ_KEYS"
  shows "diff_sound (fuzz_inv (Suc n)) (ref_lookup fuzz_key f k)"
proof -
  have r: "ref_inv fuzz_key FZ_KEYS (5 * n) f" using inv by (simp add: fuzz_inv_def)
  have "fuzz_inv (Suc n) f" by (rule fuzz_inv_next [OF inv fuzz.ref_inv_mono [OF r]]) simp_all
  then show ?thesis by (simp add: fuzz.lookup_sound [OF r k])
qed

lemma fuzz_inc_sound:
  assumes inv: "fuzz_inv n f" and n: "Suc n < 2 ^ 31" and k: "k < FZ_KEYS"
  shows "diff_sound (fuzz_inv (Suc n)) (fuzz_inc f k)"
proof -
  have r: "ref_inv fuzz_key FZ_KEYS (5 * n) f" and room: "5 * n + 4 < (2 :: nat) ^ 62"
    using inv n by (simp_all add: fuzz_inv_def)
  note D = fuzz.ref_invD [OF r] and s = fuzz.key_room(1,2) [OF r room k]
  define v where "v = (case table_map (table f) (fuzz_key k) of None \<Rightarrow> 1 | Some v \<Rightarrow> v + 1)"
  obtain y where y: "y \<le> n" "mval f ! k = of_nat y" using inv k by (auto simp: fuzz_inv_def)
  then obtain x where x: "x \<le> Suc n" "v = of_nat x"
    using D(6) [OF k] that [of 1] that [of "Suc y"] by (cases "mpresent f ! k") (simp_all add: v_def)
  have got: "(of_int (sint (ucast v :: u32)) :: u64) = v" using int_cast [of x] x n by simp
  show ?thesis
  proof (cases "coucal_inc (table f) (KExt 0 (fuzz_key k))")
    case (Inl e)
    then show ?thesis using inc_string [OF D(1) s] by (simp add: fuzz_inc_def)
  next
    case (Inr p)
    obtain h' ret where p: "p = (h', ret)" by fastforce
    have w: "default_store h'" "table_map h' = (table_map (table f))(fuzz_key k \<mapsto> v)"
        "ret = sint (ucast v :: u32)"
        "pool_size (pool h') \<le> pool_size (pool (table f)) + Suc (length (fuzz_key k))"
      using inc_string [OF D(1) s] by (simp_all add: Inr p Let_def flip: v_def)
    have v: "v = (if mpresent f ! k then mval f ! k + 1 else 1)"
      using D(6) [OF k] by (simp add: v_def)
    have "\<exists>f'. fuzz_inc f k = Inr f' \<and> table f' = h' \<and> mval f' = (mval f)[k := v] \<and>
        mpresent f' = (mpresent f)[k := True] \<and> counter f' = counter f \<and>
        model_count f' = (if mpresent f ! k then model_count f else model_count f + 1)"
      using list_update_id [of "mpresent f" k] got D(2,3) k
      by (cases "mpresent f ! k") (simp_all add: fuzz_inc_def Let_def Inr p w(3) v)
    then obtain f' where run: "fuzz_inc f k = Inr f'" and "counter f' = counter f"
        "mval f' = (mval f)[k := v]" and "table f' = h'" "mpresent f' = (mpresent f)[k := True]"
        "model_count f' = (if mpresent f ! k then model_count f else model_count f + 1)" by blast
    moreover from this have "ref_inv fuzz_key FZ_KEYS (5 * n + Suc 4) f'"
      by (intro fuzz.set_step [OF r room k w(1,2,4)])
    ultimately have "fuzz_inv (Suc n) f'" using k x by (intro fuzz_inv_next [OF inv]) auto
    then show ?thesis by (simp add: run)
  qed
qed

lemma fuzz_step_sound:
  assumes "fuzz_inv n f" and "Suc n < 2 ^ 31"
  shows "diff_sound (fuzz_inv (Suc n)) (fuzz_step f b c)"
proof -
  have k: "unat c mod FZ_KEYS < FZ_KEYS" by (simp add: FZ_KEYS_def)
  show ?thesis
    unfolding fuzz_step_def Let_def
  proof (rule diff_sound_bind [where ok = "fuzz_inv (Suc n)"])
    show "diff_sound (fuzz_inv (Suc n))
        (if b AND 3 = 0 then fuzz_write f (unat c mod FZ_KEYS)
         else if b AND 3 = 1 then ref_remove fuzz_key f (unat c mod FZ_KEYS)
         else if b AND 3 = 2 then ref_lookup fuzz_key f (unat c mod FZ_KEYS)
         else fuzz_inc f (unat c mod FZ_KEYS))"
      using fuzz_write_sound [OF assms(1) _ k] fuzz_remove_sound [OF assms(1) _ k]
        fuzz_lookup_sound [OF assms(1) k] fuzz_inc_sound [OF assms k] assms(2) by simp
    show "diff_sound (fuzz_inv (Suc n))
        (bind_res (agree (coucal_nitems (Some (table f')) = model_count f')) (\<lambda>_. Inr f'))"
      if "fuzz_inv (Suc n) f'" for f'
      using that fuzz.nitems_agree [of _ f'] by (auto simp: fuzz_inv_def)
  qed
qed

lemma fuzz_run_sound:
  assumes "fuzz_inv n f" and "n + length data div 2 < 2 ^ 31"
  shows "diff_sound (\<lambda>f'. \<exists>n. fuzz_inv n f') (fuzz_run f data)"
  using assms
proof (induction f data arbitrary: n rule: fuzz_run.induct)
  case (1 f b c data)
  then have n: "Suc n < 2 ^ 31" "Suc n + length data div 2 < 2 ^ 31" by simp_all
  note step = fuzz_step_sound [OF "1.prems"(1) n(1), of b c]
  show ?case
  proof (cases "fuzz_step f b c")
    case (Inl stop)
    then show ?thesis using step by (simp add: diff_sound_def)
  next
    case (Inr f')
    then show ?thesis using step "1.IH" [OF Inr _ n(2)] by simp
  qed
qed auto

lemma fuzz_start_inv:
  assumes "coucal_new hp n = (Some h, hp')"
  shows "fuzz_inv 0 (fuzz_start h)"
proof -
  note new = new_table [OF assms]
  define h' where "h' = coucal_set_assert_handler h (Some fz_noop_log) None 0"
  have "coucal_inv h' = coucal_inv h \<and> table_map h' = table_map h \<and> entries h' = entries h"
    by (intro conjI; rule coucal_inv_custom) (simp_all add: h'_def coucal_set_assert_handler_def)
  then have inv: "coucal_inv h'" "table_map h' = Map.empty" using new by simp_all
  have same: "custom h' = no_custom\<lparr>error_log := Some fz_noop_log\<rparr>" "pool h' = no_pool"
    using new(4,7) by (simp_all add: h'_def coucal_set_assert_handler_def no_custom_def)
  then show ?thesis
    using inv
    by (simp add: ref_map_def fuzz_inv_def ref_inv_def fuzz_start_def default_store_def no_custom_def
        no_pool_def flip: h'_def)
qed

lemma fuzz_correct:
  assumes "length data < 2 ^ 32"
  shows "case LLVMFuzzerTestOneInput hp data of
      Inl stop \<Rightarrow> (\<exists>e. stop = Library e \<and> resource_error e) \<or> (stop = Library BadPointer \<and> heap_refuses hp)
    | Inr p \<Rightarrow> p = Some None"
proof (cases "coucal_new hp 0")
  case (Pair r hp')
  show ?thesis
  proof (cases r)
    case None
    then show ?thesis using Pair coucal_new_correct [where hp = hp and n = 0]
      by (simp add: LLVMFuzzerTestOneInput_def)
  next
    case (Some h)
    have "length data div 2 < 2 ^ 31" using assms by simp
    then have run: "diff_sound (\<lambda>f'. \<exists>n. fuzz_inv n f') (fuzz_run (fuzz_start h) data)"
      using fuzz_run_sound [OF fuzz_start_inv, of hp 0 h hp' data] Pair Some by simp
    show ?thesis
    proof (cases "fuzz_run (fuzz_start h) data")
      case (Inl stop)
      then show ?thesis using run Pair Some by (simp add: LLVMFuzzerTestOneInput_def diff_sound_def)
    next
      case (Inr f)
      then obtain n where inv: "ref_inv fuzz_key FZ_KEYS (5 * n) f" using run by (auto simp: fuzz_inv_def)
      obtain cs where "coucal_delete (Some (Some (table f))) = Inr (Some None, cs)"
        using fuzz.delete_returns [OF inv] by blast
      moreover obtain check where "ref_enum scan_key FZ_KEYS f = Inr (check, model_count f)"
        using fuzz.enum_sound [OF inv] by blast
      ultimately show ?thesis using Pair Some Inr by (simp add: LLVMFuzzerTestOneInput_def lib_def agree_def)
    qed
  qed
qed

section \<open>The driver\<close>

text \<open>A file the driver can read into memory, and what the library may stop it with.\<close>

definition replayable :: "c_heap \<times> replay_file \<Rightarrow> bool" where
  "replayable f \<longleftrightarrow> (case f of (hp, fp) \<Rightarrow>
     opens fp \<and> seeks_end fp \<and> 0 \<le> tells fp \<and> seeks_start fp \<and>
     fst (c_malloc hp (size_add (nat (tells fp)) 1)) \<noteq> None)"

definition fuzz_excused :: "c_heap \<Rightarrow> diff_stop \<Rightarrow> bool" where
  "fuzz_excused hp stop \<longleftrightarrow>
     (\<exists>e. stop = Library e \<and> resource_error e) \<or> (stop = Library BadPointer \<and> heap_refuses hp)"

text \<open>
  The driver exits with 0 when it could read every file, with 1 when it could not, and stops
  only where the library does.
\<close>

lemma fuzz_main_correct:
  assumes "\<forall>(hp, fp) \<in> set argv. tells fp < 2 ^ 32"
  shows "case fuzz_main argv of
      Inl stop \<Rightarrow> \<exists>(hp, fp) \<in> set argv. fuzz_excused hp stop
    | Inr status \<Rightarrow> status = (if \<forall>f \<in> set argv. replayable f then 0 else 1)"
  using assms
proof (induction argv)
  case (Cons f argv)
  obtain hp fp where f: "f = (hp, fp)" by fastforce
  show ?case
  proof (cases "replayable f")
    case False
    then have "fuzz_main (f # argv) = Inr 1"
      by (auto simp: f replayable_def Let_def split: prod.splits option.splits)
    then show ?thesis using False by auto
  next
    case True
    obtain buf hp' where m: "c_malloc hp (size_add (nat (tells fp)) 1) = (Some buf, hp')"
      using True by (cases "c_malloc hp (size_add (nat (tells fp)) 1)") (auto simp: f replayable_def)
    define data where "data = take (nat (tells fp)) (delivers fp)"
    have run: "fuzz_main (f # argv) = bind_res (LLVMFuzzerTestOneInput hp' data) (\<lambda>_. fuzz_main argv)"
      using True m by (simp add: f replayable_def data_def)
    have "length data < 2 ^ 32" using Cons.prems by (simp add: f data_def min_def) linarith
    note one = fuzz_correct [OF this, of hp']
    have same: "heap_refuses hp' = heap_refuses hp"
      using c_malloc_cases [OF m] by (simp add: heap_refuses_def)
    show ?thesis
    proof (cases "LLVMFuzzerTestOneInput hp' data")
      case (Inl stop)
      then have "fuzz_excused hp stop" using one same by (simp add: fuzz_excused_def)
      then show ?thesis using run Inl by (auto simp: f)
    next
      case (Inr p)
      then show ?thesis using run Cons.IH Cons.prems True by (auto split: sum.splits)
    qed
  qed
qed simp

end
