(* ===== verification/RandomTest.thy ===== *)
theory RandomTest
  imports Differential
begin

text \<open>
  The differential test of \<open>src/tests.c\<close> (\<open>coucal_test_oracle()\<close>): 20000 operations on 512 keys,
  drawn from a linear congruential generator, are applied to a table and to a reference. The
  lemmas show that it passes, for any seed and any number of operations.
\<close>

section \<open>The test\<close>

definition ORACLE_KEYS :: nat where "ORACLE_KEYS = 512"
definition ORACLE_OPS :: nat where "ORACLE_OPS = 20000"

text \<open>The generator: its state after a call, and what the call returns.\<close>

definition oracle_next :: "u32 \<Rightarrow> u32 \<times> u32" where
  "oracle_next rng = (let rng = rng * 1103515245 + 12345 in (rng, drop_bit 1 rng))"

text \<open>\<open>snprintf(key, sizeof(key), "okey_%u", id)\<close> into 24 bytes, and \<open>sscanf(name, "okey_%u", &id)\<close>\<close>

definition oracle_key :: "nat \<Rightarrow> byte list" where
  "oracle_key i = snprintf 24 (text_bytes ''okey_'' @ decimal i)"

definition scan_oracle_key :: "byte list \<Rightarrow> u32 option" where
  "scan_oracle_key s = (if take 5 s = text_bytes ''okey_'' then scan_unsigned (drop 5 s) else None)"

record oracle_state = reference +
  oracle_rng :: u32

definition oracle_step :: "oracle_state \<Rightarrow> diff_stop + oracle_state" where
  "oracle_step f =
     (let (rng, r) = oracle_next (oracle_rng f); i = unat r mod ORACLE_KEYS;
          (rng, r) = oracle_next rng; op = unat r mod 3;
          f = f\<lparr>oracle_rng := rng\<rparr>
      in bind_res
        (if op = 0 then
           let (rng, r) = oracle_next (oracle_rng f); f = f\<lparr>oracle_rng := rng\<rparr>
           in ref_write oracle_key f i (ucast (r OR 1))
         else if op = 1 then ref_remove oracle_key f i
         else ref_lookup oracle_key f i)
        (\<lambda>f. bind_res (agree (coucal_nitems (Some (table f)) = model_count f)) (\<lambda>_. Inr f)))"

fun oracle_run :: "nat \<Rightarrow> oracle_state \<Rightarrow> diff_stop + oracle_state" where
  "oracle_run 0 f = Inr f"
| "oracle_run (Suc ops) f = bind_res (oracle_step f) (oracle_run ops)"

text \<open>
  The test, for a seed and a number of operations. Of the allocator it needs, beside what the
  library does, whether \<open>calloc()\<close> gives the arrays of the reference and the one of the enumeration.
\<close>

definition oracle_test ::
  "c_heap \<Rightarrow> bool \<Rightarrow> bool \<Rightarrow> u32 \<Rightarrow> nat \<Rightarrow> diff_stop + struct_coucal option option" where
  "oracle_test hp arrays check_array seed ops =
     (let (h, hp) = coucal_new hp 0 in
      bind_res (agree arrays) (\<lambda>_.
      case h of
        None \<Rightarrow> Inl (Library BadPointer)
      | Some h \<Rightarrow>
          bind_res (oracle_run ops
            \<lparr>table = h, mval = replicate ORACLE_KEYS 0, mpresent = replicate ORACLE_KEYS False,
             model_count = 0, oracle_rng = seed\<rparr>) (\<lambda>f.
          bind_res (agree check_array) (\<lambda>_.
          bind_res (ref_enum scan_oracle_key ORACLE_KEYS f) (\<lambda>(check, seen).
          bind_res (agree (seen = model_count f)) (\<lambda>_.
          bind_res (lib (coucal_delete (Some (Some (table f))))) (\<lambda>(p, cs). Inr p)))))))"

definition coucal_test_oracle ::
  "c_heap \<Rightarrow> bool \<Rightarrow> bool \<Rightarrow> diff_stop + struct_coucal option option" where
  "coucal_test_oracle hp arrays check_array = oracle_test hp arrays check_array 0x01234567 ORACLE_OPS"

section \<open>The test passes\<close>

lemma scan_oracle_key_print:
  assumes "n < 2 ^ 32"
  shows "scan_oracle_key (oracle_key n) = Some (of_nat n)"
  using scan_unsigned_decimal [OF assms] decimal_length_32 [OF assms]
  by (simp add: scan_oracle_key_def oracle_key_def text_bytes_def)

interpretation okeys: reference_keys oracle_key ORACLE_KEYS 8 scan_oracle_key
proof
  fix k assume k: "k < ORACLE_KEYS"
  then have "length (decimal k) \<le> 3" using decimal_length_le [of k 2] by (simp add: ORACLE_KEYS_def)
  then show "0 \<notin> set (oracle_key k) \<and> length (oracle_key k) \<le> 8"
    using decimal_no_nul [of k] by (simp add: oracle_key_def text_bytes_def)
  show "scan_oracle_key (oracle_key k) = Some (of_nat k)"
    using k by (intro scan_oracle_key_print) (simp add: ORACLE_KEYS_def)
qed (simp add: ORACLE_KEYS_def)

lemma oracle_step_sound:
  assumes inv: "ref_inv oracle_key ORACLE_KEYS b f" and room: "b + 8 < 2 ^ 62"
  shows "diff_sound (ref_inv oracle_key ORACLE_KEYS (b + 9)) (oracle_step f)"
proof -
  have k: "unat r mod ORACLE_KEYS < ORACLE_KEYS" for r :: u32 by (simp add: ORACLE_KEYS_def)
  have rng: "ref_inv oracle_key ORACLE_KEYS b (g\<lparr>oracle_rng := x\<rparr>)"
    if "ref_inv oracle_key ORACLE_KEYS b g" for g :: oracle_state and x
    using that by (simp add: ref_inv_def)
  have W: "diff_sound (ref_inv oracle_key ORACLE_KEYS (b + 9)) (ref_write oracle_key g (unat r mod ORACLE_KEYS) v)"
    and R: "diff_sound (ref_inv oracle_key ORACLE_KEYS (b + 9)) (ref_remove oracle_key g (unat r mod ORACLE_KEYS))"
    and L: "diff_sound (ref_inv oracle_key ORACLE_KEYS (b + 9)) (ref_lookup oracle_key g (unat r mod ORACLE_KEYS))"
    if g: "ref_inv oracle_key ORACLE_KEYS b g" for g :: oracle_state and r :: u32 and v
    using okeys.write_sound [OF g room k, of r v] okeys.remove_sound [OF g room k, of r]
      okeys.ref_inv_mono [OF g] okeys.lookup_sound [OF g k]
    by (auto elim: diff_sound_mono)
  have N: "coucal_nitems (Some (table g)) = model_count g"
    if "ref_inv oracle_key ORACLE_KEYS c g" for c and g :: oracle_state
    using that by (rule okeys.nitems_agree)
  show ?thesis
    unfolding oracle_step_def oracle_next_def Let_def prod.case
    by (rule diff_sound_bind [where ok = "ref_inv oracle_key ORACLE_KEYS (b + 9)"])
      (use W R L rng inv N in auto)
qed

lemma oracle_run_sound:
  assumes "ref_inv oracle_key ORACLE_KEYS b f" and "b + 9 * ops < 2 ^ 62"
  shows "diff_sound (\<lambda>f. \<exists>b. ref_inv oracle_key ORACLE_KEYS b f) (oracle_run ops f)"
  using assms
proof (induction ops arbitrary: b f)
  case (Suc ops)
  have "b + 8 < 2 ^ 62" using Suc.prems(2) by simp
  from oracle_step_sound [OF Suc.prems(1) this] show ?case
    using Suc.IH [of "b + 9"] Suc.prems(2) by (auto elim!: diff_sound_bind)
qed auto

lemma oracle_test_correct:
  assumes "ops \<le> 2 ^ 58"
  shows "case oracle_test hp arrays check_array seed ops of
      Inl stop \<Rightarrow> (\<exists>e. stop = Library e \<and> resource_error e) \<or> (stop = Library BadPointer \<and> heap_refuses hp) \<or>
        (stop = Mismatch \<and> \<not> (arrays \<and> check_array))
    | Inr p \<Rightarrow> p = Some None"
proof (cases "coucal_new hp 0")
  case (Pair r hp')
  show ?thesis
  proof (cases r)
    case None
    then show ?thesis using Pair coucal_new_correct [where hp = hp and n = 0]
      by (cases arrays) (simp_all add: oracle_test_def)
  next
    case (Some h)
    define f where "f = \<lparr>table = h, mval = replicate ORACLE_KEYS 0, mpresent = replicate ORACLE_KEYS False,
        model_count = 0, oracle_rng = seed\<rparr>"
    have "ref_inv oracle_key ORACLE_KEYS 0 f"
      using coucal_new_store [OF Pair [unfolded Some]] new_table(6) [OF Pair [unfolded Some]]
      by (simp add: f_def ref_inv_def ref_map_def)
    from oracle_run_sound [OF this, of ops] assms
    have run: "diff_sound (\<lambda>f. \<exists>b. ref_inv oracle_key ORACLE_KEYS b f) (oracle_run ops f)" by simp
    have test: "oracle_test hp arrays check_array seed ops =
        bind_res (agree arrays) (\<lambda>_. bind_res (oracle_run ops f) (\<lambda>f.
          bind_res (agree check_array) (\<lambda>_.
          bind_res (ref_enum scan_oracle_key ORACLE_KEYS f) (\<lambda>(check, seen).
          bind_res (agree (seen = model_count f)) (\<lambda>_.
          bind_res (lib (coucal_delete (Some (Some (table f))))) (\<lambda>(p, cs). Inr p))))))"
      by (simp add: oracle_test_def Pair Some f_def)
    show ?thesis
    proof (cases "oracle_run ops f")
      case (Inl stop)
      then show ?thesis unfolding test using run by (cases arrays) (simp_all add: diff_sound_def)
    next
      case (Inr g)
      then obtain b where inv: "ref_inv oracle_key ORACLE_KEYS b g" using run by auto
      from okeys.enum_sound [OF inv] okeys.delete_returns [OF inv] show ?thesis
        unfolding test using Inr by (cases arrays; cases check_array) auto
    qed
  qed
qed

end
