(* ===== verification/Sample.thy ===== *)
theory Sample
  imports Strings
begin

text \<open>
  The sample program (\<open>src/sample.c\<close>): it stores its arguments as key and value pairs, reads each
  key back and enumerates the table. The values are pointers to the arguments: \<open>addr i\<close> is the
  address of \<open>argv[i]\<close>, and printing a value reads the argument behind it.
\<close>

section \<open>The program\<close>

datatype sample_out =
    Usage
  | Stored nat
  | Checking
  | Pair "byte list" "byte list"
  | Enumerating

datatype sample_end = Exit int | AssertAbort | LibraryStop coucal_error

text \<open>The string behind a pointer to an argument.\<close>

definition text_at :: "(nat \<Rightarrow> u64) \<Rightarrow> byte list list \<Rightarrow> u64 \<Rightarrow> byte list res" where
  "text_at addr argv p =
     (case find (\<lambda>i. addr i = p) [0..<length argv] of
        Some i \<Rightarrow> Inr (argv ! i) | None \<Rightarrow> Inl BadPointer)"

text \<open>The loops \<open>for(i = 1 ; i < argc ; i += 2)\<close>, by the turns left.\<close>

fun sample_fill ::
  "(nat \<Rightarrow> u64) \<Rightarrow> byte list list \<Rightarrow> struct_coucal \<Rightarrow> nat \<Rightarrow> nat \<Rightarrow> struct_coucal res" where
  "sample_fill addr argv h i 0 = Inr h"
| "sample_fill addr argv h i (Suc n) =
     bind_res (coucal_write_pvoid h (KExt 0 (argv ! i)) (addr (i + 1))) (\<lambda>(h, ret).
       sample_fill addr argv h (i + 2) n)"

text \<open>The inner failure is the assertion that the key was found.\<close>

fun sample_check ::
  "(nat \<Rightarrow> u64) \<Rightarrow> byte list list \<Rightarrow> struct_coucal \<Rightarrow> nat \<Rightarrow> nat \<Rightarrow> (sample_out list option) res" where
  "sample_check addr argv h i 0 = Inr (Some [])"
| "sample_check addr argv h i (Suc n) =
     bind_res (coucal_read_pvoid h (KExt 0 (argv ! i)) (Some 0)) (\<lambda>(ret, v).
       if ret = 0 then Inr None
       else bind_res (text_at addr argv (the v)) (\<lambda>s.
              bind_res (sample_check addr argv h (i + 2) n) (\<lambda>r.
                Inr (map_option (\<lambda>out. Pair (argv ! i) s # out) r))))"

text \<open>The enumeration: a line for an item, after what has been printed so far.\<close>

definition sample_print ::
  "(nat \<Rightarrow> u64) \<Rightarrow> byte list list \<Rightarrow> struct_coucal \<Rightarrow> location \<Rightarrow> sample_out list \<Rightarrow> sample_out list res"
where
  "sample_print addr argv h loc out =
     (let it = item_at h loc in
      bind_res (read_key h (name it)) (\<lambda>k.
      bind_res (text_at addr argv (value it)) (\<lambda>s. Inr (out @ [Pair k s]))))"

definition sample_enum :: "(nat \<Rightarrow> u64) \<Rightarrow> byte list list \<Rightarrow> struct_coucal \<Rightarrow> sample_out list res" where
  "sample_enum addr argv h =
     for_each (coucal_enum_next h) (sample_print addr argv h) Diverges (coucal_enum_new h) []
       (POW2 (lg_size h) + STASH_SIZE + 1)"

text \<open>The part of \<open>main()\<close> after the table is created; what it prints, and how it ends.\<close>

definition sample_body ::
  "(nat \<Rightarrow> u64) \<Rightarrow> byte list list \<Rightarrow> struct_coucal \<Rightarrow> coucal_error + sample_out list \<times> sample_end" where
  "sample_body addr argv h =
     (let turns = length argv div 2 in
      bind_res (sample_fill addr argv h 1 turns) (\<lambda>h.
      bind_res (sample_check addr argv h 1 turns) (\<lambda>r.
      case r of
        None \<Rightarrow> Inr ([Stored (coucal_nitems (Some h)), Checking], AssertAbort)
      | Some pairs \<Rightarrow>
          bind_res (sample_enum addr argv h) (\<lambda>all.
          bind_res (coucal_delete (Some (Some h))) (\<lambda>_.
            Inr ([Stored (coucal_nitems (Some h)), Checking] @ pairs @ [Enumerating] @ all, Exit 0))))))"

definition sample_main ::
  "c_heap \<Rightarrow> (nat \<Rightarrow> u64) \<Rightarrow> byte list list \<Rightarrow> coucal_error + sample_out list \<times> sample_end" where
  "sample_main hp addr argv =
     (if length argv = 1 \<or> length argv mod 2 \<noteq> 1 then Inr ([Usage], Exit 1)
      else case coucal_new hp 0 of
             (None, hp) \<Rightarrow> Inr ([], AssertAbort)
           | (Some h, hp) \<Rightarrow> sample_body addr argv h)"

section \<open>The map the arguments describe\<close>

text \<open>For each key the index of its last value.\<close>

fun last_value :: "byte list list \<Rightarrow> nat \<Rightarrow> nat \<Rightarrow> (byte list \<Rightarrow> nat option) \<Rightarrow> byte list \<Rightarrow> nat option" where
  "last_value argv i 0 m = m"
| "last_value argv i (Suc n) m = last_value argv (i + 2) n (m(argv ! i \<mapsto> i + 1))"

definition argument_map :: "byte list list \<Rightarrow> byte list \<Rightarrow> nat option" where
  "argument_map argv = last_value argv 1 (length argv div 2) Map.empty"

lemma last_value_range:
  assumes "i + 2 * n \<le> length argv" and "\<forall>s j. m s = Some j \<longrightarrow> j < length argv"
    and "last_value argv i n m s = Some j"
  shows "j < length argv"
  using assms
proof (induction n arbitrary: i m)
  case (Suc n)
  define m' where "m' = m(argv ! i \<mapsto> i + 1)"
  have "\<forall>s j. m' s = Some j \<longrightarrow> j < length argv" using Suc.prems(1,2) by (simp add: m'_def)
  moreover have "last_value argv (i + 2) n m' s = Some j"
    using Suc.prems(3) unfolding last_value.simps m'_def .
  ultimately show ?case using Suc.IH [of "i + 2" m'] Suc.prems(1) by simp
qed simp

lemma last_value_dom: "dom m \<subseteq> dom (last_value argv i n m)"
proof (induction n arbitrary: i m)
  case (Suc n)
  have "dom m \<subseteq> dom (m(argv ! i \<mapsto> i + 1))" by auto
  also have "\<dots> \<subseteq> dom (last_value argv (i + 2) n (m(argv ! i \<mapsto> i + 1)))" by (rule Suc.IH)
  finally show ?case by simp
qed simp

lemma last_value_keys: "j < n \<Longrightarrow> argv ! (i + 2 * j) \<in> dom (last_value argv i n m)"
proof (induction n arbitrary: i j m)
  case (Suc n)
  show ?case
  proof (cases j)
    case 0
    then show ?thesis using last_value_dom [of "m(argv ! i \<mapsto> i + 1)" argv "i + 2" n] by auto
  next
    case (Suc k)
    then show ?thesis using Suc.IH [of k "i + 2"] Suc.prems by simp
  qed
qed simp

section \<open>Filling\<close>

lemma sample_fill_correct:
  assumes "default_store h" and "table_map h = (\<lambda>s. map_option addr (m s))"
    and "i + 2 * n \<le> length argv" and "\<forall>s \<in> set argv. 0 \<notin> set s"
    and "pool_size (pool h) + (\<Sum>j<n. Suc (length (argv ! (i + 2 * j)))) < 2 ^ 62"
  shows "case sample_fill addr argv h i n of
      Inl e \<Rightarrow> resource_error e
    | Inr h' \<Rightarrow> default_store h' \<and> table_map h' = (\<lambda>s. map_option addr (last_value argv i n m s))"
  using assms
proof (induction n arbitrary: h i m)
  case (Suc n)
  have sum: "(\<Sum>j<Suc n. Suc (length (argv ! (i + 2 * j)))) =
      Suc (length (argv ! i)) + (\<Sum>j<n. Suc (length (argv ! (i + 2 + 2 * j))))"
    by (subst sum.lessThan_Suc_shift) simp
  have key: "0 \<notin> set (argv ! i)" using Suc.prems(3,4) by simp
  have room: "pool_size (pool h) + length (argv ! i) < 2 ^ 62" using Suc.prems(5) sum by simp
  note w = write_string [OF Suc.prems(1) key room, of "addr (Suc i)"]
  show ?case
  proof (cases "coucal_write h (KExt 0 (argv ! i)) (addr (Suc i))")
    case (Inl e)
    then show ?thesis using w by (simp add: coucal_write_pvoid_def coucal_write_def)
  next
    case (Inr p)
    obtain h' r where p: "p = (h', r)" by fastforce
    have h': "default_store h'" "table_map h' = (table_map h)(argv ! i \<mapsto> addr (Suc i))"
        "pool_size (pool h') \<le> pool_size (pool h) + Suc (length (argv ! i))"
      using w unfolding Inr p by simp_all
    define m' where "m' = m(argv ! i \<mapsto> i + 1)"
    have last: "last_value argv i (Suc n) m = last_value argv (i + 2) n m'"
      unfolding last_value.simps m'_def ..
    have "table_map h' = (\<lambda>s. map_option addr (m' s))"
      using h'(2) Suc.prems(2) by (simp add: fun_eq_iff m'_def)
    moreover have "pool_size (pool h') + (\<Sum>j<n. Suc (length (argv ! (i + 2 + 2 * j)))) < 2 ^ 62"
      using h'(3) Suc.prems(5) sum by simp
    ultimately show ?thesis
      using Suc.IH [of h' m' "i + 2"] Suc.prems(3,4) h'(1) Inr p unfolding last
      by (simp add: coucal_write_pvoid_def coucal_write_def)
  qed
qed simp

section \<open>Checking and enumerating\<close>

lemma text_at_addr:
  assumes "inj_on addr {..<length argv}" and "i < length argv"
  shows "text_at addr argv (addr i) = Inr (argv ! i)"
proof -
  have "addr j \<noteq> addr i" if "j < i" for j
    using inj_onD [OF assms(1), of j i] assms(2) that by auto
  then have "find (\<lambda>j. addr j = addr i) [0..<length argv] = Some i"
    unfolding find_Some_iff using assms(2) by (intro exI [of _ i]) simp
  then show ?thesis by (simp add: text_at_def)
qed

text \<open>What the program prints for a key: the last value given to it.\<close>

definition sample_line :: "byte list list \<Rightarrow> byte list \<Rightarrow> sample_out" where
  "sample_line argv k = Pair k (argv ! the (argument_map argv k))"

lemma sample_check_correct:
  assumes store: "default_store h" and map: "table_map h = (\<lambda>s. map_option addr (argument_map argv s))"
    and inj: "inj_on addr {..<length argv}" and "\<forall>s j. argument_map argv s = Some j \<longrightarrow> j < length argv"
    and "\<forall>j < n. argv ! (i + 2 * j) \<in> dom (argument_map argv)"
  shows "sample_check addr argv h i n =
    Inr (Some (map (\<lambda>j. sample_line argv (argv ! (i + 2 * j))) [0..<n]))"
  using assms(5)
proof (induction n arbitrary: i)
  case (Suc n)
  have "argv ! i \<in> dom (argument_map argv)" using Suc.prems by force
  then obtain j where j: "argument_map argv (argv ! i) = Some j" by auto
  then have str: "text_at addr argv (addr j) = Inr (argv ! j)"
    using text_at_addr [OF inj] assms(4) by blast
  have read: "coucal_read_pvoid h (KExt 0 (argv ! i)) (Some 0) = Inr (1, Some (addr j))"
    using read_value_map [OF default_store_facts(2) [OF store], of "KExt 0 (argv ! i)" "argv ! i" "Some 0"] map j
    by (simp add: coucal_read_pvoid_def)
  have "\<forall>k < n. argv ! (i + 2 + 2 * k) \<in> dom (argument_map argv)"
    using Suc.prems by (metis Suc_less_eq add.assoc mult_Suc_right)
  from Suc.IH [OF this] show ?case
    using read str j by (simp add: sample_line_def upt_conv_Cons map_Suc_upt [symmetric] del: upt_Suc)
qed simp

text \<open>The enumeration in terms of the entries it sees.\<close>

definition sample_entry ::
  "(nat \<Rightarrow> u64) \<Rightarrow> byte list list \<Rightarrow> table_entry \<Rightarrow> sample_out list \<Rightarrow> sample_out list res" where
  "sample_entry addr argv en out =
     (case fst en of
        None \<Rightarrow> Inl BadPointer
      | Some k \<Rightarrow> bind_res (text_at addr argv (fst (snd en))) (\<lambda>s. Inr (out @ [Pair k s])))"

lemma sample_print_entry:
  "sample_print addr argv h loc out = sample_entry addr argv (entry (pool h) (item_at h loc)) out"
  by (simp add: sample_print_def sample_entry_def Let_def read_key_def entry_def split: option.split)

lemma sample_entries_correct:
  assumes store: "default_store h" and map: "table_map h = (\<lambda>s. map_option addr (argument_map argv s))"
    and inj: "inj_on addr {..<length argv}" and "\<forall>s j. argument_map argv s = Some j \<longrightarrow> j < length argv"
    and "set ens \<subseteq> set_mset (entries h)"
  shows "fold_res (sample_entry addr argv) ens out =
    Inr (out @ map (\<lambda>en. sample_line argv (the (fst en))) ens)"
  using assms(5)
proof (induction ens arbitrary: out)
  case (Cons en ens)
  then have "en \<in># entries h" by simp
  then obtain s where s: "fst en = Some s" "table_map h s = Some (fst (snd en))"
    by (rule entry_in_map [OF store])
  then obtain j where j: "argument_map argv s = Some j" "fst (snd en) = addr j" using map by auto
  then have "text_at addr argv (addr j) = Inr (argv ! j)"
    using text_at_addr [OF inj] assms(4) by blast
  then show ?case using Cons s(1) j by (simp add: sample_entry_def sample_line_def)
qed simp

lemma sample_enum_correct:
  assumes store: "default_store h" and map: "table_map h = (\<lambda>s. map_option addr (argument_map argv s))"
    and inj: "inj_on addr {..<length argv}" and "\<forall>s j. argument_map argv s = Some j \<longrightarrow> j < length argv"
  shows "sample_enum addr argv h =
    Inr (map (\<lambda>en. sample_line argv (the (fst en))) (pending h (coucal_enum_new h)))"
  using enum_fold [where body = "sample_print addr argv h" and f = "sample_entry addr argv" and s = "[]",
      OF store sample_print_entry] pending_map(1) [OF store]
    sample_entries_correct [OF assms, of "pending h (coucal_enum_new h)" "[]"]
  by (simp add: sample_enum_def)

section \<open>The whole program\<close>

definition sample_output :: "byte list list \<Rightarrow> byte list list \<Rightarrow> sample_out list" where
  "sample_output argv ks =
     [Stored (card (dom (argument_map argv))), Checking] @
     map (\<lambda>j. sample_line argv (argv ! (1 + 2 * j))) [0..<length argv div 2] @
     [Enumerating] @ map (sample_line argv) ks"

lemma sample_body_correct:
  assumes store: "default_store h" "table_map h = Map.empty" "pool_size (pool h) = 0"
    and odd: "length argv mod 2 = 1" and "\<forall>s \<in> set argv. 0 \<notin> set s"
    and "(\<Sum>j<length argv div 2. Suc (length (argv ! (1 + 2 * j)))) < 2 ^ 62"
    and inj: "inj_on addr {..<length argv}"
  shows "case sample_body addr argv h of
      Inl e \<Rightarrow> resource_error e
    | Inr (out, fin) \<Rightarrow> fin = Exit 0 \<and>
        (\<exists>ks. distinct ks \<and> set ks = dom (argument_map argv) \<and> out = sample_output argv ks)"
proof -
  define n where "n = length argv div 2"
  have len: "1 + 2 * n \<le> length argv" using odd by (simp add: n_def) presburger
  have range: "\<forall>s j. argument_map argv s = Some j \<longrightarrow> j < length argv"
    using last_value_range [OF len, of Map.empty] by (simp add: argument_map_def n_def)
  have keys: "\<forall>j < n. argv ! (1 + 2 * j) \<in> dom (argument_map argv)"
    using last_value_keys [of _ n argv 1 Map.empty] by (simp add: argument_map_def n_def)
  have fill: "case sample_fill addr argv h 1 n of
      Inl e \<Rightarrow> resource_error e
    | Inr h' \<Rightarrow> default_store h' \<and> table_map h' = (\<lambda>s. map_option addr (argument_map argv s))"
    using sample_fill_correct [OF store(1) _ len assms(5), of addr Map.empty] assms(2,3,6)
    unfolding argument_map_def n_def [symmetric] by simp
  show ?thesis
  proof (cases "sample_fill addr argv h 1 n")
    case (Inl e)
    then show ?thesis using fill by (simp add: sample_body_def Let_def flip: n_def)
  next
    case (Inr h')
    then have h': "default_store h'" "table_map h' = (\<lambda>s. map_option addr (argument_map argv s))"
      using fill by simp_all
    note K = pending_keys [OF h'(1)] and F = default_store_facts [OF h'(1)]
    have dom: "dom (table_map h') = dom (argument_map argv)" by (auto simp: h'(2))
    have count: "coucal_nitems (Some h') = card (dom (argument_map argv))"
      using F(5) dom by (simp add: coucal_nitems_def)
    have enum: "sample_enum addr argv h' =
        Inr (map (sample_line argv) (map (\<lambda>en. the (fst en)) (pending h' (coucal_enum_new h'))))"
      using sample_enum_correct [OF h' inj range] by simp
    obtain cs where "coucal_delete (Some (Some h')) = Inr (Some None, cs)"
      using coucal_delete_correct [OF F(1)] by blast
    then have "sample_body addr argv h = Inr (sample_output argv
        (map (\<lambda>en. the (fst en)) (pending h' (coucal_enum_new h'))), Exit 0)"
      using Inr sample_check_correct [OF h' inj range keys] enum count
      by (simp add: sample_body_def sample_output_def Let_def flip: n_def
          del: sample_check.simps sample_fill.simps)
    then show ?thesis using K unfolding dom by (simp del: set_map) blast
  qed
qed

lemma sample_correct:
  assumes "length argv mod 2 = 1" and "1 < length argv" and "\<forall>s \<in> set argv. 0 \<notin> set s"
    and "(\<Sum>j<length argv div 2. Suc (length (argv ! (1 + 2 * j)))) < 2 ^ 62"
    and "inj_on addr {..<length argv}"
  shows "case sample_main hp addr argv of
      Inl e \<Rightarrow> resource_error e
    | Inr (out, fin) \<Rightarrow>
        (out = [] \<and> fin = AssertAbort \<and> heap_refuses hp) \<or>
        (fin = Exit 0 \<and>
          (\<exists>ks. distinct ks \<and> set ks = dom (argument_map argv) \<and> out = sample_output argv ks))"
proof (cases "coucal_new hp 0")
  case (Pair r hp')
  show ?thesis
  proof (cases r)
    case None
    then show ?thesis using Pair assms(1,2) coucal_new_correct [where hp = hp and n = 0]
      by (simp add: sample_main_def)
  next
    case (Some h)
    then have new: "coucal_new hp 0 = (Some h, hp')" using Pair by simp
    have "default_store h" "table_map h = Map.empty"
      using coucal_new_correct [where hp = hp and n = 0] new
      by (simp_all add: default_store_def no_custom_def)
    moreover have "pool_size (pool h) = 0"
      using new by (auto simp: coucal_new_def Let_def no_pool_def split: if_splits prod.splits)
    ultimately have "case sample_body addr argv h of
        Inl e \<Rightarrow> resource_error e
      | Inr (out, fin) \<Rightarrow> fin = Exit 0 \<and>
          (\<exists>ks. distinct ks \<and> set ks = dom (argument_map argv) \<and> out = sample_output argv ks)"
      using sample_body_correct assms by blast
    then show ?thesis using new assms(1,2) by (auto simp: sample_main_def split: sum.splits)
  qed
qed

end
