(* ===== verification/Benchmark.thy ===== *)
theory Benchmark
  imports Strings Decimal
begin

text \<open>
  The benchmark of \<open>src/tests.c\<close> (\<open>coucal_test()\<close>): it makes its keys from a number or reads them
  from a file, one a line, and runs a script of phases, each of which adds, deletes or checks the
  keys in one residue class, every operation repeated 32 times. The lemmas are on the keys it
  makes and on the lines it reads; \<open>BenchmarkCorrect\<close> says what it reports.
\<close>

section \<open>The keys and the script\<close>

datatype bench_type = DO_ADD | DO_DEL | DO_DRY_ADD | DO_DRY_DEL | TEST_ADD | TEST_DEL

text \<open>The entries before \<open>DO_END\<close>: what to do, the modulus and the offset.\<close>

definition bench :: "(bench_type \<times> nat \<times> nat) list" where
  "bench =
    [(DO_ADD, 4, 0), (TEST_ADD, 4, 0), (TEST_DEL, 4, 1), (TEST_DEL, 4, 2), (TEST_DEL, 4, 3),
     (DO_DRY_DEL, 4, 1), (DO_DRY_DEL, 4, 2), (DO_DRY_DEL, 4, 3), (DO_ADD, 4, 1), (DO_DRY_ADD, 4, 1),
     (TEST_ADD, 4, 0), (TEST_ADD, 4, 1), (TEST_DEL, 4, 2), (TEST_DEL, 4, 3), (DO_ADD, 4, 2),
     (DO_DRY_DEL, 4, 3), (DO_ADD, 4, 3), (DO_DEL, 4, 3), (TEST_ADD, 4, 0), (TEST_ADD, 4, 1),
     (TEST_ADD, 4, 2), (TEST_DEL, 4, 3), (DO_DEL, 4, 0), (DO_DEL, 4, 1), (DO_DEL, 4, 2),
     (TEST_DEL, 1, 0), (DO_ADD, 4, 0), (DO_ADD, 4, 1), (DO_ADD, 4, 2), (DO_DEL, 42, 0),
     (TEST_DEL, 42, 0), (TEST_ADD, 42, 2)]"

text \<open>\<open>(long) ((unsigned long) i * 1664525UL + 1013904223UL)\<close>\<close>

definition bench_value :: "nat \<Rightarrow> u64" where
  "bench_value i = of_nat i * 1664525 + 1013904223"

text \<open>\<open>%ld\<close>, and \<open>snprintf()\<close> into 256 bytes.\<close>

definition long_text :: "u64 \<Rightarrow> byte list" where
  "long_text v = (if sint v < 0 then 45 # decimal (nat (- sint v)) else decimal (nat (sint v)))"

definition bench_key :: "nat \<Rightarrow> byte list" where
  "bench_key i = take 255
     (text_bytes ''http://www.example.com/website/sample/for/hashtable/'' @ long_text (of_nat i) @
      text_bytes ''/index.html?foo='' @ long_text (bench_value i) @ text_bytes ''&bar'')"

text \<open>How the program ends early: the library fails, a value is wrong, or a check fails.\<close>

datatype bench_stop = BenchLibrary coucal_error | ValueFailed nat | CheckFailed nat nat

definition bench_lib :: "'a res \<Rightarrow> bench_stop + 'a" where
  "bench_lib r = (case r of Inl e \<Rightarrow> Inl (BenchLibrary e) | Inr x \<Rightarrow> Inr x)"

text \<open>\<open>for(k = 0 ; k < 32 ; k++)\<close>, with the results ignored.\<close>

fun repeat_op :: "(struct_coucal \<Rightarrow> (struct_coucal \<times> int) res) \<Rightarrow> nat \<Rightarrow> struct_coucal \<Rightarrow> struct_coucal res"
where
  "repeat_op f 0 h = Inr h"
| "repeat_op f (Suc k) h = bind_res (f h) (\<lambda>(h, ret). repeat_op f k h)"

definition revert :: "int \<Rightarrow> int" where
  "revert result = (if result \<noteq> 0 then 0 else 1)"

text \<open>The key of an index: made from the number, or the line read from the file.\<close>

definition bench_name :: "byte list list option \<Rightarrow> nat \<Rightarrow> byte list" where
  "bench_name strings i = (case strings of None \<Rightarrow> bench_key i | Some lines \<Rightarrow> lines ! i)"

definition bench_op ::
  "byte list list option \<Rightarrow> bench_type \<Rightarrow> nat \<Rightarrow> struct_coucal \<Rightarrow> bench_stop + struct_coucal \<times> int" where
  "bench_op strings kind i h =
     (let nm = KExt 0 (bench_name strings i); expected = bench_value i in
      if kind = DO_ADD \<or> kind = DO_DRY_ADD then
        bind_res (bench_lib (coucal_write h nm expected)) (\<lambda>(h, result).
        bind_res (bench_lib (repeat_op (\<lambda>h. coucal_write h nm expected) 32 h)) (\<lambda>h.
          Inr (h, if kind = DO_DRY_ADD then revert result else result)))
      else if kind = DO_DEL \<or> kind = DO_DRY_DEL then
        bind_res (bench_lib (coucal_remove h nm)) (\<lambda>(h, result).
        bind_res (bench_lib (repeat_op (\<lambda>h. coucal_remove h nm) 32 h)) (\<lambda>h.
          Inr (h, if kind = DO_DRY_DEL then revert result else result)))
      else
        bind_res (bench_lib (coucal_readptr h nm (Some (- 1)))) (\<lambda>(result, value).
          if kind = TEST_ADD \<and> result \<noteq> 0 \<and> value \<noteq> Some expected then Inl (ValueFailed i)
          else Inr (h, if kind = TEST_DEL then revert result else result)))"

text \<open>
  The loop over the keys of a phase, by the turns left, and the loop over the phases, for the
  body \<open>op\<close> of the loops.
\<close>

fun bench_phase ::
  "(bench_type \<Rightarrow> nat \<Rightarrow> 's \<Rightarrow> bench_stop + 's \<times> int) \<Rightarrow> nat \<Rightarrow> nat \<Rightarrow> bench_type \<Rightarrow> nat \<Rightarrow> nat \<Rightarrow> 's \<Rightarrow>
   nat \<Rightarrow> bench_stop + 's" where
  "bench_phase op cnt loop kind modulus i h 0 =
     (if i < cnt then Inl (BenchLibrary Diverges) else Inr h)"
| "bench_phase op cnt loop kind modulus i h (Suc left) =
     (if i < cnt then
        bind_res (op kind i h) (\<lambda>(h, result).
          if result = 0 then Inl (CheckFailed loop i)
          else bench_phase op cnt loop kind modulus (size_add i modulus) h left)
      else Inr h)"

fun bench_loop ::
  "(bench_type \<Rightarrow> nat \<Rightarrow> 's \<Rightarrow> bench_stop + 's \<times> int) \<Rightarrow> nat \<Rightarrow> nat \<Rightarrow> (bench_type \<times> nat \<times> nat) list \<Rightarrow> 's \<Rightarrow>
   bench_stop + 's" where
  "bench_loop op cnt loop [] h = Inr h"
| "bench_loop op cnt loop ((kind, modulus, offset) # script) h =
     bind_res (bench_phase op cnt loop kind modulus offset h cnt) (\<lambda>h.
       bench_loop op cnt (Suc loop) script h)"

datatype bench_end = Successful | MalformedNumber

text \<open>The result of \<open>coucal_new()\<close> is not checked.\<close>

definition bench_run :: "c_heap \<Rightarrow> byte list list option \<Rightarrow> nat \<Rightarrow> bench_stop + bench_end" where
  "bench_run hp strings cnt =
     (if cnt = 0 then Inr MalformedNumber
      else case coucal_new hp 0 of
             (None, hp) \<Rightarrow> Inl (BenchLibrary BadPointer)
           | (Some h, hp) \<Rightarrow>
               bind_res (bench_loop (bench_op strings) cnt 0 bench h) (\<lambda>h.
               bind_res (bench_lib (coucal_delete (Some (Some h)))) (\<lambda>_. Inr Successful)))"

section \<open>Reading the keys\<close>

text \<open>
  A file as the calls on it see it: its size if it is a regular one, whether \<open>fopen()\<close> opens it, and
  the bytes \<open>fread()\<close> can deliver.
\<close>

record bench_file =
  regular_size :: "nat option"
  readable :: bool
  file_bytes :: "byte list"

definition fsize :: "bench_file \<Rightarrow> nat" where
  "fsize f = (case regular_size f of Some n \<Rightarrow> n | None \<Rightarrow> 2 ^ 64 - 1)"

definition is_line_end :: "byte \<Rightarrow> bool" where
  "is_line_end c \<longleftrightarrow> c = 10 \<or> c = 0"

definition next_capacity :: "nat \<Rightarrow> nat" where
  "next_capacity capa = (if capa = 0 then 16 else size_mul capa 2)"

text \<open>
  The loop over the bytes: those left, those since \<open>last\<close>, the capacity, block and content of the
  array of lines. The result of \<open>realloc()\<close> is not checked before it is written through.
\<close>

fun split_lines ::
  "byte list \<Rightarrow> byte list \<Rightarrow> nat \<Rightarrow> nat option \<Rightarrow> byte list list \<Rightarrow> c_heap \<Rightarrow>
   bench_stop + byte list list \<times> c_heap" where
  "split_lines [] line capa block strings hp = Inr (strings, hp)"
| "split_lines (c # buff) line capa block strings hp =
     (if is_line_end c then
        if capa = length strings then
          case c_realloc hp block (size_mul (next_capacity capa) 8) of
            (None, hp) \<Rightarrow> Inl (BenchLibrary BadPointer)
          | (Some b, hp) \<Rightarrow> split_lines buff [] (next_capacity capa) (Some b) (strings @ [line]) hp
        else split_lines buff [] capa block (strings @ [line]) hp
      else split_lines buff (line @ [c]) capa block strings hp)"

definition read_strings :: "c_heap \<Rightarrow> bench_file \<Rightarrow> bench_stop + byte list list option \<times> nat \<times> c_heap" where
  "read_strings hp f =
     (let size = fsize f in
      if readable f then
        case c_malloc hp size of
          (None, hp) \<Rightarrow> Inr (None, 0, hp)
        | (Some buff, hp) \<Rightarrow>
            if length (take size (file_bytes f)) = size then
              bind_res (split_lines (take size (file_bytes f)) [] 0 None [] hp) (\<lambda>(strings, hp).
                Inr (if strings = [] then None else Some strings, length strings, hp))
            else Inr (None, 0, hp)
      else Inr (None, 0, hp))"

text \<open>The whole function, for the files there are: a number, or else the name of a file.\<close>

definition coucal_test ::
  "c_heap \<Rightarrow> (byte list \<Rightarrow> bench_file) \<Rightarrow> byte list \<Rightarrow> bench_stop + bench_end" where
  "coucal_test hp files snum =
     bind_res
       (case scan_ulong snum of
          Some cnt \<Rightarrow> Inr (None, unat cnt, hp)
        | None \<Rightarrow> read_strings hp (files snum))
       (\<lambda>(strings, cnt, hp). bench_run hp strings cnt)"

section \<open>The keys\<close>

lemma long_text_nat:
  assumes "n < 2 ^ 63"
  shows "long_text (of_nat n) = decimal n"
proof -
  have "sint (of_nat n :: u64) = int n"
    using assms by (simp add: signed_of_nat signed_take_bit_int_eq_self)
  then show ?thesis by (simp add: long_text_def)
qed

text \<open>The value of a key before it is narrowed: below \<open>2 ^ 63\<close> for the indices considered.\<close>

definition bench_nat :: "nat \<Rightarrow> nat" where
  "bench_nat i = i * 1664525 + 1013904223"

lemma bench_value_nat: "bench_value i = of_nat (bench_nat i)"
  by (simp add: bench_value_def bench_nat_def)

lemma bench_nat_bounds:
  assumes "i < 2 ^ 32"
  shows "bench_nat i < 10 ^ 19" and "bench_nat i < 2 ^ 63"
  using assms by (simp_all add: bench_nat_def)

lemma bench_value_nonzero:
  assumes "i < 2 ^ 43"
  shows "bench_value i \<noteq> 0"
proof -
  have small: "0 < bench_nat i" "bench_nat i < 2 ^ 64" using assms by (simp_all add: bench_nat_def)
  have "unat (bench_value i) = take_bit 64 (bench_nat i)"
    unfolding bench_value_nat by (simp only: unsigned_of_nat) simp
  also have "\<dots> = bench_nat i" using small(2) by (intro take_bit_nat_eq_self) simp
  finally have "unat (bench_value i) > 0" using small(1) by simp
  then show ?thesis by auto
qed

lemma url_lengths:
  "length (text_bytes ''http://www.example.com/website/sample/for/hashtable/'') = 52"
  "length (text_bytes ''/index.html?foo='') = 16"
  "length (text_bytes ''&bar'') = 4"
  by (simp_all add: text_bytes_def)

lemma url_no_nul:
  "0 \<notin> set (text_bytes ''http://www.example.com/website/sample/for/hashtable/'')"
  "0 \<notin> set (text_bytes ''/index.html?foo='')"
  "0 \<notin> set (text_bytes ''&bar'')"
  by (simp_all add: text_bytes_def)

lemma after_number: "text_bytes ''/index.html?foo='' = 47 # text_bytes ''index.html?foo=''"
  by (simp add: text_bytes_def)

lemma bench_key_eq:
  assumes "i < 2 ^ 32"
  shows "bench_key i = text_bytes ''http://www.example.com/website/sample/for/hashtable/'' @ decimal i @
      text_bytes ''/index.html?foo='' @ decimal (bench_nat i) @ text_bytes ''&bar''"
proof -
  have "length (decimal i) \<le> 10" using decimal_length_le [of i 9] assms by simp
  moreover have "length (decimal (bench_nat i)) \<le> 19"
    using decimal_length_le [of "bench_nat i" 18] bench_nat_bounds(1) [OF assms] by simp
  moreover have "long_text (of_nat i) = decimal i" using assms by (intro long_text_nat) simp
  moreover have "long_text (bench_value i) = decimal (bench_nat i)"
    unfolding bench_value_nat using bench_nat_bounds(2) [OF assms] by (rule long_text_nat)
  ultimately show ?thesis by (simp add: bench_key_def url_lengths)
qed

lemma bench_key_length: "length (bench_key i) \<le> 255"
  by (simp only: bench_key_def length_take min.cobounded2)

lemma bench_key_no_nul:
  assumes "i < 2 ^ 32"
  shows "0 \<notin> set (bench_key i)"
  using decimal_no_nul url_no_nul by (simp add: bench_key_eq [OF assms])

text \<open>Different indices have different keys: the digits of the index come first and end at a slash.\<close>

lemma digits_end: "takeWhile is_digit (decimal n @ 47 # rest) = decimal n"
  using decimal_digits [of n] by (simp add: is_digit_def takeWhile_append2)

lemma bench_key_inj:
  assumes "i < 2 ^ 32" and "j < 2 ^ 32" and "bench_key i = bench_key j"
  shows "i = j"
proof -
  have "decimal i @ 47 # text_bytes ''index.html?foo='' @ decimal (bench_nat i) @ text_bytes ''&bar'' =
      decimal j @ 47 # text_bytes ''index.html?foo='' @ decimal (bench_nat j) @ text_bytes ''&bar''"
    using assms(3) by (simp add: bench_key_eq [OF assms(1)] bench_key_eq [OF assms(2)] after_number)
  from arg_cong [OF this, of "takeWhile is_digit"] show ?thesis
    by (simp only: digits_end decimal_inj)
qed

section \<open>The lines\<close>

text \<open>The lines of a file are the bytes before each line end; what follows the last is no line.\<close>

fun file_lines :: "byte list \<Rightarrow> byte list \<Rightarrow> byte list list" where
  "file_lines line [] = []"
| "file_lines line (c # buff) =
     (if is_line_end c then line # file_lines [] buff else file_lines (line @ [c]) buff)"

lemma split_lines_correct:
  assumes "length strings \<le> capa" and "capa \<le> 2 * length strings + 16" and "length strings + length buff < 2 ^ 59"
  shows "case split_lines buff line capa block strings hp of
      Inl stop \<Rightarrow> stop = BenchLibrary BadPointer \<and> heap_refuses hp
    | Inr (lines, hp') \<Rightarrow> lines = strings @ file_lines line buff \<and> heap_refuses hp' = heap_refuses hp"
  using assms
proof (induction buff line capa block strings hp rule: split_lines.induct)
  case (2 c buff line capa block strings hp)
  show ?case
  proof (cases "is_line_end c \<and> capa = length strings")
    case True
    define capa' where "capa' = next_capacity capa"
    have capa': "capa' = (if capa = 0 then 16 else capa * 2)" "size_mul capa' 8 \<le> ptrdiff_max"
      using "2.prems" True by (simp_all add: capa'_def next_capacity_def size_mul_def ptrdiff_max_def)
    obtain r hp1 where m: "c_realloc hp block (size_mul capa' 8) = (r, hp1)" by fastforce
    note hp1 = c_realloc_cases [OF m]
    have same: "heap_refuses hp1 = heap_refuses hp" using hp1 by (auto simp: heap_refuses_def)
    show ?thesis
    proof (cases r)
      case None
      then show ?thesis
        using True m [unfolded capa'_def] c_realloc_refused [of hp block "size_mul capa' 8"] m capa'(2)
        by auto
    next
      case (Some b)
      have "case split_lines buff [] capa' (Some b) (strings @ [line]) hp1 of
          Inl stop \<Rightarrow> stop = BenchLibrary BadPointer \<and> heap_refuses hp1
        | Inr (lines, hp') \<Rightarrow>
            lines = (strings @ [line]) @ file_lines [] buff \<and> heap_refuses hp' = heap_refuses hp1"
        unfolding capa'_def
        by (rule "2.IH"(1) [of r hp1 b]) (use "2.prems" True m Some capa'(1) in \<open>auto simp: capa'_def Suc_le_eq\<close>)
      then show ?thesis using True Some m same by (auto simp: capa'_def split: sum.splits)
    qed
  next
    case False
    then show ?thesis using 2 by (auto split: sum.splits)
  qed
qed simp

text \<open>Lines written one after the other are read back.\<close>

lemma file_lines_line:
  assumes "\<forall>c \<in> set xs. \<not> is_line_end c"
  shows "file_lines line (xs @ ys) = file_lines (line @ xs) ys"
  using assms by (induction xs arbitrary: line) simp_all

lemma file_lines_concat:
  assumes "\<forall>xs \<in> set lines. \<forall>c \<in> set xs. \<not> is_line_end c"
  shows "file_lines [] (concat (map (\<lambda>xs. xs @ [10]) lines)) = lines"
  using assms by (induction lines) (simp_all add: file_lines_line is_line_end_def)

lemma file_lines_bounds:
  assumes "\<forall>c \<in> set line. \<not> is_line_end c"
  shows "length (file_lines line buff) \<le> length buff"
    and "xs \<in> set (file_lines line buff) \<Longrightarrow> 0 \<notin> set xs \<and> length xs < length line + length buff"
  using assms
proof (induction buff arbitrary: line)
  case (Cons c buff)
  { case 1 then show ?case using Cons.IH(1) [of "[]"] Cons.IH(1) [of "line @ [c]"] by (auto simp: le_SucI) }
  { case 2 then show ?case using Cons.IH(2) [of "[]"] Cons.IH(2) [of "line @ [c]"]
      by (fastforce simp: is_line_end_def split: if_splits) }
qed simp_all

end
