(* ===== verification/BenchmarkCorrect.thy ===== *)
theory BenchmarkCorrect
  imports Benchmark
begin

text \<open>
  What the benchmark of \<open>src/tests.c\<close> reports. The program is run on a map from keys to values
  instead of the table; the benchmark does what that run does, unless the library runs out of a
  resource, and that run succeeds exactly when the keys are distinct.
\<close>

section \<open>The benchmark on a map\<close>

type_synonym key_map = "byte list \<Rightarrow> u64 option"

text \<open>The body of the loops when the table is a map: one call has the effect of its 33.\<close>

fun map_op :: "byte list list option \<Rightarrow> bench_type \<Rightarrow> nat \<Rightarrow> key_map \<Rightarrow> bench_stop + key_map \<times> int"
where
  "map_op strings DO_ADD i m =
     Inr (m(bench_name strings i \<mapsto> bench_value i), if m (bench_name strings i) = None then 1 else 0)"
| "map_op strings DO_DRY_ADD i m =
     Inr (m(bench_name strings i \<mapsto> bench_value i), if m (bench_name strings i) = None then 0 else 1)"
| "map_op strings DO_DEL i m =
     Inr (m(bench_name strings i := None), if m (bench_name strings i) = None then 0 else 1)"
| "map_op strings DO_DRY_DEL i m =
     Inr (m(bench_name strings i := None), if m (bench_name strings i) = None then 1 else 0)"
| "map_op strings TEST_ADD i m =
     (case m (bench_name strings i) of
        None \<Rightarrow> Inr (m, 0)
      | Some v \<Rightarrow> if v = bench_value i then Inr (m, 1) else Inl (ValueFailed i))"
| "map_op strings TEST_DEL i m = Inr (m, if m (bench_name strings i) = None then 1 else 0)"

definition map_run :: "byte list list option \<Rightarrow> nat \<Rightarrow> bench_stop + bench_end" where
  "map_run strings cnt =
     (if cnt = 0 then Inr MalformedNumber
      else bind_res (bench_loop (map_op strings) cnt 0 bench Map.empty) (\<lambda>_. Inr Successful))"

section \<open>The benchmark does what its run on a map does\<close>

text \<open>The failures of the library that the benchmark cannot rule out.\<close>

definition bench_excused :: "bench_stop \<Rightarrow> bool" where
  "bench_excused stop \<longleftrightarrow> (\<exists>e. stop = BenchLibrary e \<and> resource_error e)"

text \<open>A table stands for a map without zero values, and its pool holds at most \<open>b\<close> bytes.\<close>

definition stands_for :: "nat \<Rightarrow> struct_coucal \<Rightarrow> key_map \<Rightarrow> bool" where
  "stands_for b h m \<longleftrightarrow> default_store h \<and> table_map h = m \<and> 0 \<notin> ran m \<and> pool_size (pool h) \<le> b"

definition tracks :: "nat \<Rightarrow> bench_stop + struct_coucal \<Rightarrow> bench_stop + key_map \<Rightarrow> bool" where
  "tracks b x y \<longleftrightarrow>
     (case x of
        Inl stop \<Rightarrow> bench_excused stop \<or> y = Inl stop
      | Inr h \<Rightarrow> \<exists>m. y = Inr m \<and> stands_for b h m)"

text \<open>The keys are strings; a call can add a key and its end to the pool, and an operation is 33 calls.\<close>

definition names_ok :: "byte list list option \<Rightarrow> nat \<Rightarrow> bool" where
  "names_ok strings cnt \<longleftrightarrow> cnt \<le> 2 ^ 43 \<and> (\<forall>i < cnt. 0 \<notin> set (bench_name strings i))"

definition op_cost :: "byte list list option \<Rightarrow> nat \<Rightarrow> nat" where
  "op_cost strings i = 33 * Suc (length (bench_name strings i))"

lemma ran_updates:
  "0 \<notin> ran m \<Longrightarrow> v \<noteq> 0 \<Longrightarrow> 0 \<notin> ran (m(k \<mapsto> v))" "0 \<notin> ran m \<Longrightarrow> 0 \<notin> ran (m(k := None))"
  by (auto simp: ran_def)

lemma repeat_stands_for:
  assumes step: "\<And>h c. stands_for c h m \<Longrightarrow> c + n \<le> 2 ^ 61 \<Longrightarrow>
      case f h of Inl e \<Rightarrow> resource_error e | Inr (h', r) \<Rightarrow> stands_for (c + n) h' m"
    and "stands_for b h m" and "b + k * n \<le> 2 ^ 61"
  shows "case repeat_op f k h of Inl e \<Rightarrow> resource_error e | Inr h' \<Rightarrow> stands_for (b + k * n) h' m"
  using assms(2,3)
proof (induction k arbitrary: b h)
  case (Suc k)
  have law: "case f h of Inl e \<Rightarrow> resource_error e | Inr (h', r) \<Rightarrow> stands_for (b + n) h' m"
    using Suc.prems by (intro step) simp_all
  have room: "b + n + k * n \<le> 2 ^ 61" using Suc.prems(2) by simp
  show ?case
  proof (cases "f h")
    case (Inr p)
    then show ?thesis using law Suc.IH [OF _ room] by (cases p) (simp add: add.assoc cong: sum.case_cong)
  qed (use law in simp)
qed simp

text \<open>A call and its 32 repetitions, for a call that does nothing the second time.\<close>

definition calls_33 :: "(struct_coucal \<Rightarrow> (struct_coucal \<times> int) res) \<Rightarrow> struct_coucal \<Rightarrow> (struct_coucal \<times> int) res"
where
  "calls_33 f h = bind_res (f h) (\<lambda>(h, r). bind_res (repeat_op f 32 h) (\<lambda>h. Inr (h, r)))"

lemma bench_lib_calls:
  "bind_res (bench_lib (f h)) (\<lambda>(h, r). bind_res (bench_lib (repeat_op f 32 h)) (\<lambda>h. Inr (h, g r))) =
   (case calls_33 f h of Inl e \<Rightarrow> Inl (BenchLibrary e) | Inr (h, r) \<Rightarrow> Inr (h, g r))"
  by (auto simp: bench_lib_def calls_33_def bind_res_def split: sum.splits)

lemma call_and_repeat:
  assumes step: "\<And>h c m. stands_for c h m \<Longrightarrow> c + n \<le> 2 ^ 61 \<Longrightarrow>
      case f h of Inl e \<Rightarrow> resource_error e
      | Inr (h', r) \<Rightarrow> stands_for (c + n) h' (upd m) \<and> r = res m"
    and idem: "upd (upd m) = upd m" and "stands_for b h m" and room: "b + 33 * n \<le> 2 ^ 61"
  shows "case calls_33 f h of
      Inl e \<Rightarrow> resource_error e
    | Inr (h', r) \<Rightarrow> stands_for (b + 33 * n) h' (upd m) \<and> r = res m"
proof (cases "f h")
  case (Inl e)
  then show ?thesis using step [OF assms(3)] room by (simp add: calls_33_def)
next
  case (Inr p)
  obtain h1 r where p: "p = (h1, r)" by fastforce
  have h1: "stands_for (b + n) h1 (upd m)" "r = res m"
    using step [OF assms(3)] Inr p room by simp_all
  have "case repeat_op f 32 h1 of
      Inl e \<Rightarrow> resource_error e | Inr h' \<Rightarrow> stands_for (b + n + 32 * n) h' (upd m)"
  proof (rule repeat_stands_for [OF _ h1(1)])
    fix g c assume "stands_for c g (upd m)" "c + n \<le> 2 ^ 61"
    from step [OF this] show "case f g of
        Inl e \<Rightarrow> resource_error e | Inr (h', r) \<Rightarrow> stands_for (c + n) h' (upd m)"
      unfolding idem by (auto split: sum.splits)
  qed (use room in simp)
  moreover have "b + n + 32 * n = b + 33 * n" by simp
  ultimately show ?thesis using Inr p h1(2) by (auto simp: calls_33_def add.commute split: sum.splits)
qed

lemma write_stands_for:
  assumes "names_ok strings cnt" and "i < cnt" and "stands_for b h m"
    and "b + Suc (length (bench_name strings i)) \<le> 2 ^ 61"
  shows "case coucal_write h (KExt 0 (bench_name strings i)) (bench_value i) of
      Inl e \<Rightarrow> resource_error e
    | Inr (h', r) \<Rightarrow>
        stands_for (b + Suc (length (bench_name strings i))) h' (m(bench_name strings i \<mapsto> bench_value i)) \<and>
        r = (if m (bench_name strings i) = None then 1 else 0)"
  using write_string [of h "bench_name strings i" "bench_value i"] assms bench_value_nonzero [of i]
  by (auto simp: stands_for_def names_ok_def ran_updates split: sum.splits)

lemma remove_stands_for:
  assumes "names_ok strings cnt" and "i < cnt" and "stands_for b h m"
    and "b + Suc (length (bench_name strings i)) \<le> 2 ^ 61"
  shows "case coucal_remove h (KExt 0 (bench_name strings i)) of
      Inl e \<Rightarrow> resource_error e
    | Inr (h', r) \<Rightarrow>
        stands_for (b + Suc (length (bench_name strings i))) h' (m(bench_name strings i := None)) \<and>
        r = (if m (bench_name strings i) = None then 0 else 1)"
  using remove_string [of h "bench_name strings i"] assms
  by (auto simp: stands_for_def names_ok_def ran_updates split: sum.splits)

text \<open>\<open>coucal_readptr()\<close> reports a key whose value is zero as missing; no value here is.\<close>

lemma readptr_stands_for:
  assumes "stands_for b h m"
  shows "coucal_readptr h (KExt 0 s) (Some (- 1)) =
    Inr (case m s of None \<Rightarrow> (0, Some 0) | Some v \<Rightarrow> (1, Some v))"
proof -
  have "lookup_inv h" and nz: "m s \<noteq> Some 0"
    using assms by (auto simp: stands_for_def default_store_facts ran_def)
  from read_value_map [OF this(1) deref_ext] show ?thesis
    using assms nz by (auto simp: accessor_defs stands_for_def split: option.splits)
qed

lemma bench_op_tracks:
  assumes "names_ok strings cnt" and "i < cnt" and "stands_for b h m" and "b + op_cost strings i \<le> 2 ^ 61"
  shows "case bench_op strings kind i h of
      Inl stop \<Rightarrow> bench_excused stop \<or> map_op strings kind i m = Inl stop
    | Inr (h', r) \<Rightarrow> \<exists>m'. map_op strings kind i m = Inr (m', r) \<and> stands_for (b + op_cost strings i) h' m'"
proof -
  let ?s = "bench_name strings i" let ?v = "bench_value i"
  let ?put = "\<lambda>h. coucal_write h (KExt 0 ?s) ?v" let ?del = "\<lambda>h. coucal_remove h (KExt 0 ?s)"
  note room = assms(4) [unfolded op_cost_def]
  have W: "case calls_33 ?put h of Inl e \<Rightarrow> resource_error e | Inr (h', r) \<Rightarrow>
      stands_for (b + op_cost strings i) h' (m(?s \<mapsto> ?v)) \<and> r = (if m ?s = None then 1 else 0)"
    unfolding op_cost_def
    by (rule call_and_repeat [OF write_stands_for [OF assms(1,2)] _ assms(3) room]) (auto simp: fun_eq_iff)
  have R: "case calls_33 ?del h of Inl e \<Rightarrow> resource_error e | Inr (h', r) \<Rightarrow>
      stands_for (b + op_cost strings i) h' (m(?s := None)) \<and> r = (if m ?s = None then 0 else 1)"
    unfolding op_cost_def
    by (rule call_and_repeat [OF remove_stands_for [OF assms(1,2)] _ assms(3) room]) (auto simp: fun_eq_iff)
  have same: "stands_for (b + op_cost strings i) h m" using assms(3) by (simp add: stands_for_def)
  note calls = bench_lib_calls [where f = ?put and h = h] bench_lib_calls [where f = ?del and h = h]
  note read = readptr_stands_for [OF assms(3), of ?s]
  show ?thesis
  proof (cases "kind = TEST_ADD \<or> kind = TEST_DEL")
    case True
    then show ?thesis using same read
      by (cases "m ?s") (auto simp: bench_op_def bench_lib_def revert_def Let_def)
  next
    case False
    then show ?thesis using W R
      by (cases kind; cases "m ?s") (auto simp: bench_op_def calls bench_excused_def revert_def Let_def split: sum.splits)
  qed
qed


definition turns_cost :: "byte list list option \<Rightarrow> nat \<Rightarrow> nat \<Rightarrow> nat" where
  "turns_cost strings i cnt = (\<Sum>j = i..<cnt. op_cost strings j)"

lemma turns_cost_next:
  assumes "i < cnt" and "0 < m"
  shows "op_cost strings i + turns_cost strings (i + m) cnt \<le> turns_cost strings i cnt"
proof -
  have "turns_cost strings i cnt = op_cost strings i + turns_cost strings (Suc i) cnt"
    unfolding turns_cost_def using assms(1) by (rule sum.atLeast_Suc_lessThan)
  moreover have "turns_cost strings (i + m) cnt \<le> turns_cost strings (Suc i) cnt"
    unfolding turns_cost_def by (intro sum_mono2) (use assms(2) in auto)
  ultimately show ?thesis by simp
qed

lemma tracks_mono: "tracks b x y \<Longrightarrow> b \<le> c \<Longrightarrow> tracks c x y"
  by (fastforce simp: tracks_def stands_for_def split: sum.splits)

lemma bench_phase_tracks:
  assumes names: "names_ok strings cnt" and "0 < m" and "m \<le> 84" and "stands_for b h k"
    and "cnt \<le> i + left" and "b + turns_cost strings i cnt \<le> 2 ^ 61"
  shows "tracks (b + turns_cost strings i cnt)
    (bench_phase (bench_op strings) cnt loop kind m i h left)
    (bench_phase (map_op strings) cnt loop kind m i k left)"
  using assms(4-6)
proof (induction left arbitrary: i b h k)
  case 0
  then show ?case by (auto simp: tracks_def stands_for_def)
next
  case (Suc left)
  show ?case
  proof (cases "i < cnt")
    case False
    then show ?thesis using Suc.prems(1) by (auto simp: tracks_def stands_for_def)
  next
    case True
    note cost = turns_cost_next [OF True assms(2), of strings]
    have room: "b + op_cost strings i \<le> 2 ^ 61"
      "b + op_cost strings i + turns_cost strings (i + m) cnt \<le> 2 ^ 61"
      using cost Suc.prems(3) by simp_all
    note op = bench_op_tracks [OF names True Suc.prems(1) room(1), of kind]
    show ?thesis
    proof (cases "bench_op strings kind i h")
      case (Inl stop)
      then show ?thesis using op True by (auto simp: tracks_def)
    next
      case (Inr p)
      obtain h1 r where p: "p = (h1, r)" by fastforce
      obtain k1 where k1: "map_op strings kind i k = Inr (k1, r)" "stands_for (b + op_cost strings i) h1 k1"
        using op Inr p by auto
      have "i + m < 2 ^ 64" using True names assms(3) by (simp add: names_ok_def)
      then have step: "size_add i m = i + m" by simp
      have "cnt \<le> i + m + left" using Suc.prems(2) assms(2) by simp
      from Suc.IH [OF k1(2) this room(2)] cost
      have "tracks (b + turns_cost strings i cnt)
          (bench_phase (bench_op strings) cnt loop kind m (i + m) h1 left)
          (bench_phase (map_op strings) cnt loop kind m (i + m) k1 left)"
        by (elim tracks_mono) simp
      then show ?thesis using True Inr p k1(1) step by (simp add: tracks_def cong: sum.case_cong)
    qed
  qed
qed

lemma bench_loop_tracks:
  assumes "names_ok strings cnt" and "\<forall>(kind, m, off) \<in> set script. 0 < m \<and> m \<le> 84" and "stands_for b h k"
    and "b + length script * turns_cost strings 0 cnt \<le> 2 ^ 61"
  shows "tracks (b + length script * turns_cost strings 0 cnt)
    (bench_loop (bench_op strings) cnt loop script h) (bench_loop (map_op strings) cnt loop script k)"
  using assms(2-4)
proof (induction script arbitrary: b h k loop)
  case (Cons x script)
  obtain kind m off where x: "x = (kind, m, off)" by (cases x) auto
  let ?w = "turns_cost strings 0 cnt"
  have part: "turns_cost strings off cnt \<le> ?w"
    unfolding turns_cost_def by (rule sum_mono2) auto
  have room: "b + turns_cost strings off cnt \<le> 2 ^ 61" "b + ?w + length script * ?w \<le> 2 ^ 61"
    using part Cons.prems(3) by simp_all
  have "tracks (b + turns_cost strings off cnt)
      (bench_phase (bench_op strings) cnt loop kind m off h cnt)
      (bench_phase (map_op strings) cnt loop kind m off k cnt)"
    using bench_phase_tracks [OF assms(1) _ _ Cons.prems(2) _ room(1)] Cons.prems(1) x by simp
  then have phase: "tracks (b + ?w) (bench_phase (bench_op strings) cnt loop kind m off h cnt)
      (bench_phase (map_op strings) cnt loop kind m off k cnt)"
    by (rule tracks_mono) (use part in simp)
  show ?case
  proof (cases "bench_phase (bench_op strings) cnt loop kind m off h cnt")
    case (Inl stop)
    then show ?thesis using phase x by (auto simp: tracks_def)
  next
    case (Inr h1)
    then obtain k1 where k1: "bench_phase (map_op strings) cnt loop kind m off k cnt = Inr k1"
        "stands_for (b + ?w) h1 k1"
      using phase by (auto simp: tracks_def)
    from Cons.IH [OF _ k1(2) room(2), of "Suc loop"] Cons.prems(1) show ?thesis
      using Inr k1(1) x by (simp add: add.assoc)
  qed
qed (simp add: tracks_def)

lemma bench_run_tracks:
  assumes names: "names_ok strings cnt" and room: "32 * turns_cost strings 0 cnt \<le> 2 ^ 61"
  shows "case bench_run hp strings cnt of
      Inl stop \<Rightarrow> bench_excused stop \<or> (stop = BenchLibrary BadPointer \<and> heap_refuses hp) \<or>
        map_run strings cnt = Inl stop
    | Inr r \<Rightarrow> map_run strings cnt = Inr r"
proof (cases "coucal_new hp 0")
  case (Pair r hp')
  show ?thesis
  proof (cases r)
    case None
    then show ?thesis using Pair coucal_new_correct [where hp = hp and n = 0]
      by (simp add: bench_run_def map_run_def)
  next
    case (Some h)
    have start: "stands_for 0 h Map.empty"
      using coucal_new_store [OF Pair [unfolded Some]] empty_table_map new_table [OF Pair [unfolded Some]]
      by (simp add: stands_for_def)
    have script: "\<forall>(kind, m, off) \<in> set bench. 0 < m \<and> m \<le> 84" "length bench = 32"
      by (simp_all add: bench_def)
    have run: "tracks (32 * turns_cost strings 0 cnt) (bench_loop (bench_op strings) cnt 0 bench h)
        (bench_loop (map_op strings) cnt 0 bench Map.empty)"
      using bench_loop_tracks [OF names script(1) start, of 0] room script(2) by simp
    show ?thesis
    proof (cases "bench_loop (bench_op strings) cnt 0 bench h")
      case (Inl stop)
      then show ?thesis using run Pair Some by (auto simp: bench_run_def map_run_def tracks_def)
    next
      case (Inr h')
      then obtain k where "bench_loop (map_op strings) cnt 0 bench Map.empty = Inr k" "default_store h'"
        using run by (auto simp: tracks_def stands_for_def)
      then show ?thesis using Inr Pair Some coucal_delete_correct [of h']
        by (auto simp: bench_run_def map_run_def bench_lib_def default_store_facts)
    qed
  qed
qed


section \<open>When the run on a map succeeds\<close>

text \<open>When the check of an operation passes, and whether the key is there afterwards.\<close>

fun allowed :: "bench_type \<Rightarrow> bool \<Rightarrow> bool" where
  "allowed DO_ADD p = (\<not> p)"
| "allowed DO_DRY_ADD p = p"
| "allowed DO_DEL p = p"
| "allowed DO_DRY_DEL p = (\<not> p)"
| "allowed TEST_ADD p = p"
| "allowed TEST_DEL p = (\<not> p)"

fun after :: "bench_type \<Rightarrow> bool \<Rightarrow> bool" where
  "after DO_ADD p = True"
| "after DO_DRY_ADD p = True"
| "after DO_DEL p = False"
| "after DO_DRY_DEL p = False"
| "after TEST_ADD p = p"
| "after TEST_DEL p = p"

lemma map_op_passes:
  assumes "map_op strings kind i m = Inr (m', r)" and "r \<noteq> 0"
  shows "allowed kind (bench_name strings i \<in> dom m)"
    and "dom m' = (if after kind (bench_name strings i \<in> dom m)
      then insert (bench_name strings i) (dom m) else dom m - {bench_name strings i})"
  using assms by (cases kind; auto split: if_splits option.splits)+

subsection \<open>Distinct keys\<close>

text \<open>The map holds the keys whose index \<open>P\<close> selects.\<close>

definition holds :: "byte list list option \<Rightarrow> nat \<Rightarrow> (nat \<Rightarrow> bool) \<Rightarrow> key_map \<Rightarrow> bool" where
  "holds strings cnt P m \<longleftrightarrow>
     (\<forall>j < cnt. m (bench_name strings j) = (if P j then Some (bench_value j) else None))"

lemma map_op_holds:
  assumes "inj_on (bench_name strings) {..<cnt}" and "i < cnt" and "holds strings cnt P m"
    and "allowed kind (P i)"
  shows "\<exists>m' r. map_op strings kind i m = Inr (m', r) \<and> r \<noteq> 0 \<and>
    holds strings cnt (P(i := after kind (P i))) m'"
proof -
  have "bench_name strings j = bench_name strings i \<longleftrightarrow> j = i" if "j < cnt" for j
    using assms(1,2) that by (auto simp: inj_on_def)
  then show ?thesis using assms(2-4) by (cases kind) (auto simp: holds_def)
qed

lemma next_in_class:
  assumes "i < j" and "j mod m = i mod (m :: nat)"
  shows "i + m \<le> j"
proof -
  have "m dvd j - i" using assms by (simp add: mod_eq_dvd_iff_nat)
  then have "m \<le> j - i" using assms(1) by (intro dvd_imp_le) simp_all
  then show ?thesis using assms(1) by simp
qed

text \<open>The indices at and after \<open>i\<close> in its class, and what a phase makes of the others.\<close>

definition visited :: "nat \<Rightarrow> nat \<Rightarrow> nat \<Rightarrow> bool" where
  "visited i m j \<longleftrightarrow> i \<le> j \<and> j mod m = i mod m"

lemma visited_next:
  assumes "m > 0"
  shows "visited i m j \<longleftrightarrow> j = i \<or> visited (i + m) m j"
  using next_in_class [of i j m] assms by (auto simp: visited_def)

lemma visited_update:
  assumes "m > 0"
  shows "(\<lambda>j. if visited (i + m) m j then f ((P(i := f (P i))) j) else (P(i := f (P i))) j) =
    (\<lambda>j. if visited i m j then f (P j) else P j)"
  using visited_next [OF assms, of i] assms by (auto simp: visited_def fun_eq_iff)

lemma bench_phase_holds:
  assumes inj: "inj_on (bench_name strings) {..<cnt}" and "cnt \<le> 2 ^ 43" and "0 < m" and "m \<le> 84"
    and "holds strings cnt P k" and "\<forall>j < cnt. visited i m j \<longrightarrow> allowed kind (P j)" and "cnt \<le> i + left"
  shows "\<exists>k'. bench_phase (map_op strings) cnt loop kind m i k left = Inr k' \<and>
    holds strings cnt (\<lambda>j. if visited i m j then after kind (P j) else P j) k'"
  using assms(5-7)
proof (induction left arbitrary: i P k)
  case 0
  then show ?case by (auto simp: visited_def holds_def)
next
  case (Suc left)
  show ?case
  proof (cases "i < cnt")
    case False
    then show ?thesis using Suc.prems(1) by (auto simp: visited_def holds_def)
  next
    case True
    have "allowed kind (P i)" using Suc.prems(2) True by (simp add: visited_def)
    from map_op_holds [OF inj True Suc.prems(1) this] obtain k1 r where k1:
      "map_op strings kind i k = Inr (k1, r)" "r \<noteq> 0" "holds strings cnt (P(i := after kind (P i))) k1"
      by blast
    have "i + m < 2 ^ 64" using True assms(2,4) by simp
    then have step: "size_add i m = i + m" by simp
    have "\<forall>j < cnt. visited (i + m) m j \<longrightarrow> allowed kind ((P(i := after kind (P i))) j)"
      using Suc.prems(2) visited_next [OF assms(3)] assms(3) by (auto simp: visited_def)
    moreover have "cnt \<le> i + m + left" using Suc.prems(3) assms(3) by simp
    ultimately show ?thesis
      using Suc.IH [OF k1(3), of "i + m"] True k1(1,2) step by (simp only: visited_update [OF assms(3)]) simp
  qed
qed

text \<open>
  The moduli of the script divide 84, so whether a key is present only depends on its index modulo
  84: the script is run once on the residues, with the condition of every check.
\<close>

fun residues_ok :: "(bench_type \<times> nat \<times> nat) list \<Rightarrow> bool list \<Rightarrow> bool" where
  "residues_ok [] bs = True"
| "residues_ok ((kind, m, off) # script) bs =
    (let here = zip (map (\<lambda>r. r mod m = off) [0..<84]) bs in
     m dvd 84 \<and> off < m \<and> list_all (\<lambda>(hit, p). hit \<longrightarrow> allowed kind p) here \<and>
     residues_ok script (map (\<lambda>(hit, p). if hit then after kind p else p) here))"

lemma bench_residues: "residues_ok bench (replicate 84 False)"
  by code_simp

lemma residue_class:
  assumes "m dvd 84" and "off < m"
  shows "visited off m j \<longleftrightarrow> j mod 84 mod m = off"
proof -
  have "j mod 84 mod m = j mod m" using assms(1) by (rule mod_mod_cancel)
  moreover have "off \<le> j" if "j mod m = off" using that mod_less_eq_dividend [of j m] by simp
  ultimately show ?thesis using assms(2) by (auto simp: visited_def)
qed

lemma bench_loop_holds:
  assumes inj: "inj_on (bench_name strings) {..<cnt}" and small: "cnt \<le> 2 ^ 43"
    and "holds strings cnt (\<lambda>j. bs ! (j mod 84)) k" and "length bs = 84" and "residues_ok script bs"
  shows "\<exists>k'. bench_loop (map_op strings) cnt loop script k = Inr k'"
  using assms(3-5)
proof (induction script arbitrary: bs k loop)
  case (Cons x script)
  obtain kind m off where x: "x = (kind, m, off)" by (cases x) auto
  define bs' where "bs' = map (\<lambda>(hit, p). if hit then after kind p else p)
      (zip (map (\<lambda>r. r mod m = off) [0..<84]) bs)"
  have m: "m dvd 84" "off < m" and rest: "residues_ok script bs'"
    and here: "list_all (\<lambda>(hit, p). hit \<longrightarrow> allowed kind p) (zip (map (\<lambda>r. r mod m = off) [0..<84]) bs)"
    using Cons.prems(3) by (simp_all add: x bs'_def Let_def)
  have "m \<le> 84" using m(1) by (intro dvd_imp_le) simp_all
  have now: "visited off m j \<longleftrightarrow> j mod 84 mod m = off" for j by (rule residue_class [OF m])
  have "r mod m = off \<longrightarrow> allowed kind (bs ! r)" if "r < 84" for r
    using here that Cons.prems(2) by (auto simp: list_all_length)
  then have "\<forall>j < cnt. visited off m j \<longrightarrow> allowed kind (bs ! (j mod 84))" by (simp add: now)
  from bench_phase_holds [OF inj small _ \<open>m \<le> 84\<close> Cons.prems(1) this, of cnt loop] m(2)
  obtain k1 where k1: "bench_phase (map_op strings) cnt loop kind m off k cnt = Inr k1"
      "holds strings cnt (\<lambda>j. if visited off m j then after kind (bs ! (j mod 84)) else bs ! (j mod 84)) k1"
    by fastforce
  have len: "length bs' = 84" using Cons.prems(2) by (simp add: bs'_def)
  have "(\<lambda>j. if visited off m j then after kind (bs ! (j mod 84)) else bs ! (j mod 84)) = (\<lambda>j. bs' ! (j mod 84))"
    using Cons.prems(2) by (simp add: bs'_def now)
  then show ?case
    using k1 Cons.IH [OF _ len rest, of k1 "Suc loop"] x by simp
qed simp

lemma map_run_distinct:
  assumes "inj_on (bench_name strings) {..<cnt}" and "0 < cnt" and "cnt \<le> 2 ^ 43"
  shows "map_run strings cnt = Inr Successful"
proof -
  have "holds strings cnt (\<lambda>j. replicate 84 False ! (j mod 84)) Map.empty" by (simp add: holds_def)
  from bench_loop_holds [OF assms(1,3) this _ bench_residues, of 0] assms(2)
  show ?thesis by (auto simp: map_run_def)
qed

subsection \<open>Keys that repeat\<close>

text \<open>
  The script adds the four classes of the indices modulo 4 before it deletes any key, and an addition
  has to report a new key: a script of this form that passes has seen distinct keys.
\<close>

definition holds_classes :: "byte list list option \<Rightarrow> nat \<Rightarrow> nat set \<Rightarrow> key_map \<Rightarrow> bool" where
  "holds_classes strings cnt J m \<longleftrightarrow>
     dom m = bench_name strings ` (J \<inter> {..<cnt}) \<and> inj_on (bench_name strings) (J \<inter> {..<cnt})"

lemma phase_adds:
  assumes "bench_phase (map_op strings) cnt loop kind m i k left = Inr k'"
    and "holds_classes strings cnt J k" and "kind \<noteq> DO_DEL" and "0 < m" and "m \<le> 84" and "cnt \<le> 2 ^ 43"
  shows "holds_classes strings cnt (if kind = DO_ADD then J \<union> {j. visited i m j} else J) k'"
  using assms(1,2)
proof (induction left arbitrary: i J k)
  case 0
  then have "\<not> i < cnt" "k' = k" by (simp_all split: if_splits)
  moreover from this have "{j. visited i m j} \<inter> {..<cnt} = {}" by (auto simp: visited_def)
  ultimately show ?case using 0(2) by (simp add: holds_classes_def Int_Un_distrib2)
next
  case (Suc left)
  show ?case
  proof (cases "i < cnt")
    case False
    moreover from this have "{j. visited i m j} \<inter> {..<cnt} = {}" by (auto simp: visited_def)
    ultimately show ?thesis using Suc.prems by (simp add: holds_classes_def Int_Un_distrib2)
  next
    case True
    have "i + m < 2 ^ 64" using True assms(5,6) by simp
    then have step: "size_add i m = i + m" by simp
    obtain k1 r where op: "map_op strings kind i k = Inr (k1, r)" "r \<noteq> 0"
      and rest: "bench_phase (map_op strings) cnt loop kind m (i + m) k1 left = Inr k'"
      using Suc.prems(1) True step by (auto simp: bind_res_def split: sum.splits if_splits)
    have now: "holds_classes strings cnt (if kind = DO_ADD then insert i J else J) k1"
      using map_op_passes [OF op] Suc.prems(2) True assms(3)
      by (cases kind) (auto simp: holds_classes_def Int_insert_left insert_absorb)
    have "{j. visited i m j} = insert i {j. visited (i + m) m j}"
      using visited_next [OF assms(4), of i] by auto
    then show ?thesis using Suc.IH [OF rest now] by (auto split: if_splits)
  qed
qed


lemma loop_adds:
  assumes "bench_loop (map_op strings) cnt loop script k = Inr k'" and "holds_classes strings cnt J k"
    and "\<forall>(kind, m, off) \<in> set script. kind \<noteq> DO_DEL \<and> m = 4" and "cnt \<le> 2 ^ 43"
  shows "holds_classes strings cnt
    (J \<union> {j. \<exists>off. (DO_ADD, 4, off) \<in> set script \<and> visited off 4 j}) k'"
  using assms(1-3)
proof (induction script arbitrary: J k loop)
  case (Cons x script)
  obtain kind off where x: "x = (kind, 4, off)" "kind \<noteq> DO_DEL" using Cons.prems(3) by (cases x) auto
  obtain k1 where k1: "bench_phase (map_op strings) cnt loop kind 4 off k cnt = Inr k1"
      and rest: "bench_loop (map_op strings) cnt (Suc loop) script k1 = Inr k'"
    using Cons.prems(1) x by (auto simp: bind_res_def split: sum.splits)
  define J1 where "J1 = (if kind = DO_ADD then J \<union> {j. visited off 4 j} else J)"
  have "holds_classes strings cnt J1 k1"
    using phase_adds [OF k1 Cons.prems(2) x(2)] assms(4) by (simp add: J1_def)
  from Cons.IH [OF rest this] Cons.prems(3) have "holds_classes strings cnt
      (J1 \<union> {j. \<exists>off. (DO_ADD, 4, off) \<in> set script \<and> visited off 4 j}) k'" by simp
  moreover have "J1 \<union> {j. \<exists>off. (DO_ADD, 4, off) \<in> set script \<and> visited off 4 j} =
      J \<union> {j. \<exists>off. (DO_ADD, 4, off) \<in> set (x # script) \<and> visited off 4 j}"
    by (auto simp: J1_def x(1))
  ultimately show ?case by simp
qed simp

lemma bench_loop_append:
  "bench_loop op cnt loop (s @ t) h =
     bind_res (bench_loop op cnt loop s h) (bench_loop op cnt (loop + length s) t)"
  by (induction s arbitrary: loop h) (auto simp: bind_res_def split: sum.splits)

lemma map_run_repeats:
  assumes "map_run strings cnt = Inr Successful" and "cnt \<le> 2 ^ 43"
  shows "inj_on (bench_name strings) {..<cnt}"
proof -
  obtain k' where "bench_loop (map_op strings) cnt 0 bench Map.empty = Inr k'"
    using assms(1) by (auto simp: map_run_def bind_res_def split: if_splits sum.splits)
  then have "bench_loop (map_op strings) cnt 0 (take 17 bench @ drop 17 bench) Map.empty = Inr k'"
    by (simp only: append_take_drop_id)
  then obtain k where k: "bench_loop (map_op strings) cnt 0 (take 17 bench) Map.empty = Inr k"
    unfolding bench_loop_append by (auto simp: bind_res_def split: sum.splits)
  have start: "holds_classes strings cnt {} Map.empty" by (simp add: holds_classes_def)
  have "\<forall>(kind, m, off) \<in> set (take 17 bench). kind \<noteq> DO_DEL \<and> m = 4"
    and adds: "(DO_ADD, 4, off) \<in> set (take 17 bench) \<longleftrightarrow> off \<in> {0, 1, 2, 3}" for off
    by (auto simp: bench_def)
  from loop_adds [OF k start this(1) assms(2)]
  have "inj_on (bench_name strings) ({j. \<exists>off. off \<in> {0, 1, 2, 3} \<and> visited off 4 j} \<inter> {..<cnt})"
    unfolding adds by (simp add: holds_classes_def)
  moreover have "{j. \<exists>off. off \<in> {0, 1, 2, 3} \<and> visited off 4 j} = UNIV"
  proof (intro set_eqI iffI UNIV_I CollectI exI conjI)
    fix j :: nat
    have "j mod 4 < 4" by simp
    then show "j mod 4 \<in> {0, 1, 2, 3}" by auto
    show "visited (j mod 4) 4 j" by (simp add: visited_def mod_less_eq_dividend)
  qed
  ultimately show ?thesis by simp
qed

lemma map_run_successful:
  assumes "cnt \<le> 2 ^ 43"
  shows "map_run strings cnt = Inr Successful \<longleftrightarrow> 0 < cnt \<and> inj_on (bench_name strings) {..<cnt}"
proof (cases "cnt = 0")
  case False
  then show ?thesis using map_run_distinct [OF _ _ assms] map_run_repeats [OF _ assms] by blast
qed (simp add: map_run_def)

lemma map_run_malformed: "map_run strings cnt = Inr r \<Longrightarrow> r = (if cnt = 0 then MalformedNumber else Successful)"
  by (auto simp: map_run_def bind_res_def split: if_splits sum.splits)

section \<open>The benchmark\<close>

text \<open>Given a number, within the bounds of a \<open>long\<close>'s text and of the pool.\<close>

lemma numbers_cost: "turns_cost None 0 cnt \<le> cnt * 8448"
proof -
  have "op_cost None i \<le> 8448" for i
    using bench_key_length [of i] by (simp add: op_cost_def bench_name_def)
  then have "turns_cost None 0 cnt \<le> of_nat (card {0..<cnt}) * 8448"
    unfolding turns_cost_def by (intro sum_bounded_above) simp
  then show ?thesis by simp
qed

lemma coucal_test_number:
  assumes "scan_ulong snum = Some n" and "unat n \<le> 2 ^ 32"
  shows "case coucal_test hp files snum of
      Inl stop \<Rightarrow> bench_excused stop \<or> (stop = BenchLibrary BadPointer \<and> heap_refuses hp)
    | Inr r \<Rightarrow> r = (if n = 0 then MalformedNumber else Successful)"
proof (cases "n = 0")
  case True
  then show ?thesis using assms(1) by (simp add: coucal_test_def bench_run_def)
next
  case False
  define cnt where "cnt = unat n"
  have cnt: "0 < cnt" "cnt \<le> 2 ^ 32" using False assms(2) by (simp_all add: cnt_def unat_gt_0)
  have "names_ok None cnt"
    using cnt(2) bench_key_no_nul by (simp add: names_ok_def bench_name_def)
  moreover have "32 * turns_cost None 0 cnt \<le> 2 ^ 61" using numbers_cost [of cnt] cnt(2) by simp
  moreover have "map_run None cnt = Inr Successful"
  proof (rule map_run_distinct)
    show "inj_on (bench_name None) {..<cnt}"
      using bench_key_inj cnt(2) by (auto simp: inj_on_def bench_name_def)
  qed (use cnt in simp_all)
  ultimately show ?thesis
    using bench_run_tracks [of None cnt hp] assms(1) False
    by (auto simp: coucal_test_def simp flip: cnt_def split: sum.splits)
qed

text \<open>Given a file that is a regular one, of at most eight tebibytes, which can be read.\<close>

lemma lines_cost:
  assumes "lines = file_lines [] buff"
  shows "turns_cost (Some lines) 0 (length lines) \<le> 33 * length buff"
proof -
  have "(\<Sum>xs \<leftarrow> file_lines line buff. Suc (length xs)) \<le> length line + length buff" for line
  proof (induction buff arbitrary: line)
    case (Cons c buff)
    show ?case using Cons [of "[]"] Cons [of "line @ [c]"] by simp
  qed simp
  from this [of "[]"] have "(\<Sum>xs \<leftarrow> lines. Suc (length xs)) \<le> length buff" using assms by simp
  moreover have "turns_cost (Some lines) 0 (length lines) = 33 * (\<Sum>xs \<leftarrow> lines. Suc (length xs))"
    by (simp only: turns_cost_def op_cost_def bench_name_def option.case sum_distrib_left [symmetric]
        sum_list_sum_nth length_map) (simp add: atLeast0LessThan)
  ultimately show ?thesis by simp
qed

lemma read_strings_correct:
  assumes "readable f" and "regular_size f = Some (length (file_bytes f))" and "length (file_bytes f) \<le> 2 ^ 43"
  defines "lines \<equiv> file_lines [] (file_bytes f)"
  shows "case read_strings hp f of
      Inl stop \<Rightarrow> stop = BenchLibrary BadPointer \<and> heap_refuses hp
    | Inr (strings, cnt, hp') \<Rightarrow> (heap_refuses hp' \<longleftrightarrow> heap_refuses hp) \<and>
        ((strings, cnt) = (if lines = [] then None else Some lines, length lines) \<or>
         cnt = 0 \<and> heap_refuses hp)"
proof -
  have size: "length (file_bytes f) \<le> ptrdiff_max" using assms(3) by (simp add: ptrdiff_max_def)
  obtain r hp1 where m: "c_malloc hp (length (file_bytes f)) = (r, hp1)" by fastforce
  then have "hp1 = hp\<lparr>hp_next := Suc (hp_next hp)\<rparr>" by (auto simp: c_malloc_def)
  then have same: "heap_refuses hp1 = heap_refuses hp" by (simp add: heap_refuses_def)
  show ?thesis
  proof (cases r)
    case None
    then show ?thesis using m same c_malloc_refused [of hp "length (file_bytes f)"] size assms(1,2)
      by (simp add: read_strings_def fsize_def)
  next
    case (Some b)
    then show ?thesis
      using split_lines_correct [where strings = "[]" and capa = 0 and line = "[]" and block = None and
          buff = "file_bytes f" and hp = hp1] m same assms(1-3)
      by (auto simp: read_strings_def fsize_def lines_def bind_res_def split: sum.splits)
  qed
qed

lemma coucal_test_file:
  assumes "scan_ulong snum = None" and "readable (files snum)"
    and "regular_size (files snum) = Some (length (file_bytes (files snum)))"
    and "length (file_bytes (files snum)) \<le> 2 ^ 43"
  defines "lines \<equiv> file_lines [] (file_bytes (files snum))"
  shows "case coucal_test hp files snum of
      Inl stop \<Rightarrow> bench_excused stop \<or> (stop = BenchLibrary BadPointer \<and> heap_refuses hp) \<or>
        (\<not> distinct lines \<and> map_run (Some lines) (length lines) = Inl stop)
    | Inr MalformedNumber \<Rightarrow> lines = [] \<or> heap_refuses hp
    | Inr Successful \<Rightarrow> lines \<noteq> [] \<and> distinct lines"
proof -
  note R = read_strings_correct [OF assms(2-4), of hp, folded lines_def]
  have len: "length lines \<le> 2 ^ 43"
    using file_lines_bounds(1) [of "[]" "file_bytes (files snum)"] assms(4) by (simp add: lines_def)
  have names: "names_ok (Some lines) (length lines)"
    using file_lines_bounds(2) [of "[]" _ "file_bytes (files snum)"] len
    by (simp add: names_ok_def bench_name_def flip: lines_def)
  have room: "32 * turns_cost (Some lines) 0 (length lines) \<le> 2 ^ 61"
    using lines_cost [OF lines_def [THEN meta_eq_to_obj_eq]] assms(4) by simp
  have inj: "inj_on (bench_name (Some lines)) {..<length lines} \<longleftrightarrow> distinct lines"
    by (auto simp: inj_on_def bench_name_def distinct_conv_nth)
  note M = map_run_successful [OF len, of "Some lines", unfolded inj]
  show ?thesis
  proof (cases "read_strings hp (files snum)")
    case (Inl stop)
    then show ?thesis using R assms(1) by (simp add: coucal_test_def)
  next
    case (Inr p)
    obtain strings cnt hp' where p: "p = (strings, cnt, hp')" by (cases p) auto
    consider "cnt = 0" "lines = [] \<or> heap_refuses hp" | "strings = Some lines" "cnt = length lines" "lines \<noteq> []"
      using R Inr p by (auto split: if_splits)
    then show ?thesis
    proof cases
      case 1
      then show ?thesis using Inr p assms(1) by (simp add: coucal_test_def bench_run_def)
    next
      case 2
      then show ?thesis
        using bench_run_tracks [OF names room, of hp'] R Inr p assms(1) M
          map_run_malformed [of "Some lines" "length lines"]
        by (auto simp: coucal_test_def split: sum.splits bench_end.splits)
    qed
  qed
qed

text \<open>Without a number, and without a file of its full size to read, there are no keys.\<close>

lemma coucal_test_no_keys:
  assumes "scan_ulong snum = None"
    and "\<not> readable (files snum) \<or> regular_size (files snum) = None \<or>
      length (file_bytes (files snum)) < the (regular_size (files snum))"
  shows "coucal_test hp files snum = Inr MalformedNumber"
  using assms
  by (auto simp: coucal_test_def read_strings_def bench_run_def fsize_def c_malloc_def ptrdiff_max_def Let_def
      split: prod.splits option.splits if_splits)

end
