(* ===== verification/Spec2Isabelle.thy ===== *)
theory Spec2Isabelle
  imports Examples Sizes Frames Report Config Logged Fuzz RandomTest Sample BenchmarkCorrect
begin

text \<open>
  Coucal is a hashtable library in C: cuckoo hashing with two hashes per key, a stash of 16 items
  for the collisions the cuckoo moves cannot solve, and a pool of bytes that owns the copies of
  string keys. This development models the library, the hash functions under it and the three
  programs of the repository that use it, and proves that a table behaves as a finite map.

  How the program's parts interact. \<open>coucal_write_value()\<close> hashes the key, replaces the value in
  place when the key is at one of its two positions or in the stash, and otherwise drains the
  stash, copies the key (\<open>coucal_dup_name()\<close>), adds the item (\<open>coucal_add_item_()\<close>) and, at half
  load or with a half-full stash, doubles the table and merges the stash. \<open>coucal_remove()\<close>
  detaches the item and releases its key (\<open>coucal_free_key()\<close>), which may compact the pool and so
  moves every other pooled key. Reading and enumerating change nothing. The client's handlers for
  keys, values, printing and errors are called from all of them.

  Theories, by the part of the source they model, in the order of their imports.

  \<^item> \<open>Prelude\<close>: computations that may fail (\<open>bind_res\<close>, \<open>Inl\<close> for the failure), \<open>size_t\<close> with its
    wrap-around (\<open>size_add\<close>, \<open>size_sub\<close>, \<open>size_mul\<close>), and lemmas on lists and multisets.
  \<^item> \<open>Murmur\<close> (\<open>murmurhash3.h\<close>), \<open>HashData\<close>, \<open>Md5\<close> and \<open>Hash64\<close> (\<open>coucal_hash_data()\<close> of \<open>coucal.c\<close>
    with each back end, for both values of \<open>COUCAL_HASH_SIZE\<close>). \<open>HashVectors\<close> evaluates the
    known-answer test of \<open>tests.c\<close> on Murmur and FNV-1 and shows that its two tables for MD5 are those
    of one digest; its interface \<open>hash_backend\<close> is what the library asks of a
    back end, and is interpreted on all six. The MD5 functions themselves are not in the repository:
    they are parameters, and what the code needs of them, that feeding two pieces is feeding their
    concatenation, is the hypothesis \<open>streaming\<close>.
  \<^item> \<open>Config\<close>: the builds of the library, that is the choice of the back end, the width, the verbosity
    and the linkage from the macros that are defined (the preprocessor conditions of \<open>coucal.c\<close> and
    \<open>coucal.h\<close>). A table of a build with another back end is one of the modelled build whose \<open>hash\<close>
    handler is that back end.
  \<^item> \<open>State\<close>: the structures of \<open>coucal.h\<close> and \<open>struct struct_coucal\<close>. Two fields are ghosts: \<open>heap\<close>,
    the allocator, which is a parameter (any request may fail, a \<open>realloc\<close> may or may not move the
    block), and \<open>calls\<close>, the calls made to the client's handlers. A pointer into the pool names its
    block, so reading through one kept across a relocation is the failure \<open>BadPointer\<close>. A failed
    assertion is a value naming the assertion, as \<open>coucal_assert_failed()\<close> never returns.
  \<^item> \<open>Table\<close> (\<open>coucal_add_item_()\<close>, \<open>coucal_drain_stash()\<close>), \<open>Pool\<close> with its proofs \<open>PoolCorrect\<close> (the
    string pool), \<open>Lookup\<close> (\<open>coucal_fetch_value_hashes()\<close> and the accessors), \<open>Write\<close> with its
    proofs \<open>Expand\<close> and \<open>WriteCorrect\<close>, \<open>Remove\<close>, \<open>Enumerate\<close> and \<open>Api\<close> (creation, settings,
    sizes, deletion): one definition per C function, with the loops as recursive functions.
  \<^item> \<open>Store\<close>: increments, the effect of the operations on the map, the interface \<open>string_store\<close> with
    the simulation of any sequence of operations, and its interpretation on the library.
  \<^item> \<open>Enumerate\<close> also holds the interface \<open>enumerator\<close>: a client's loop over the items is a fold over
    what is pending. It is interpreted on \<open>coucal_enum_next()\<close>; the enumerations of the fuzzing
    harness and of the sample program rest on it.
  \<^item> \<open>Reach\<close>: the life of a table as a step relation, its reachable states and their invariants.
  \<^item> \<open>PoolGrowth\<close>, \<open>Sizes\<close> and \<open>Frames\<close>: how the pool's capacity grows over a table's life and when
    the loop that computes it does not end; the bounds of the sizes in every reachable state; what a
    replacement leaves alone.
  \<^item> \<open>Log\<close> and \<open>Diag\<close>: levels, routing of messages, failed assertions, the summary and the report on
    a full stash, whose lines are given one by one in \<open>Report\<close>.
  \<^item> \<open>Messages\<close> and \<open>Trace\<close>: the operations again, with every message they log on the way. A message
    is its constructor with the arguments of the call; a key shown as a string is read when the
    message is made, so a message could fail. \<open>TraceCorrect\<close> shows that none does and that an
    operation that logs has the result of the one that does not, \<open>TraceStats\<close> that the counters
    of a table are the numbers of its messages. \<open>Logged\<close> extends the interface \<open>string_store\<close> to
    \<open>logged_store\<close>, for sequences of operations, and interprets it on the library.
  \<^item> \<open>Strings\<close> and \<open>Decimal\<close> (what clients with string keys share), \<open>Differential\<close> with the interface
    \<open>reference_keys\<close> (a table beside a reference kept in arrays), interpreted for \<open>Fuzz\<close>
    (\<open>fuzz/coucal_fuzz.c\<close>) and for \<open>RandomTest\<close> (\<open>coucal_test_oracle()\<close> of \<open>tests.c\<close>),
    \<open>Sample\<close> (\<open>sample.c\<close>) and \<open>Benchmark\<close> with its proofs \<open>BenchmarkCorrect\<close> (\<open>coucal_test()\<close> of
    \<open>tests.c\<close>, given a number or a file of keys): the clients, verified over the map the library
    presents. The body of the benchmark's loops is a parameter of the loops, which are run on the
    table and, as the specification, on a map.
  \<^item> \<open>Demo\<close> and \<open>Examples\<close>: concrete tables built by the model's own operations, on which the
    properties are applied, also with an allocator that refuses everything and with a full stash.

  What is shown. The invariant \<open>coucal_inv\<close> (structure of table and stash, ownership of the pool's
  regions, distinct keys under the client's comparison, the count of items) holds initially and
  is kept by every operation; \<open>table_map\<close> is the map a table stands for, and each operation
  refines its operation on maps, on every branch, the failures included: those are listed with
  their causes in \<open>write_failure\<close>. Around that, the lemmas cover the parts: cuckoo moves keep the
  multiset of items, doubling keeps items and places them, merging the stash cannot overflow it,
  compaction and growth of the pool keep every key's bytes, keys and values are released exactly
  once, an enumeration visits each entry once also when the client removes or replaces entries on
  the way, hashes of a key differ, the fuzzing harness and the random test never report a
  difference, the sample program prints the last value of each key, and the benchmark reports what
  its script finds on a map: success exactly when its keys are distinct. For the numbered keys the
  script is run once on the indices modulo 84, as each phase does the same to the table. The builds
  that compile are determined, and their tables stand for the same maps after the same operations.

  Bounds and fuel. Sizes are those of an LP64 platform (\<open>sizeof_coucal_item\<close>, \<open>ptrdiff_max\<close>). The
  lengths of keys are bounded by \<open>2 ^ 62\<close> where additions to the pool's size could wrap
  (\<open>fits\<close>). The cuckoo loop runs at most \<open>POW2 lg_size\<close> times, as in the code. The loop for the
  pool's capacity diverges in C for a need above \<open>2 ^ 63\<close>, so it is a partial function, and it
  is shown to end up to that bound and never to end past it. The clients' loops over
  \<open>coucal_enum_next()\<close> have one more unit of fuel than the table and the stash have slots, a phase of the benchmark has one turn for each key
  (at most \<open>2 ^ 32\<close> numbers, or a file of \<open>2 ^ 43\<close> bytes, which keeps the pool within its range);
  running out would be the failure \<open>Diverges\<close>, which the properties of the clients exclude.

  Not modelled. The rendering of a message's format with its arguments, which the C library does;
  the build with 64-bit hashes beyond the hash functions (the table is modelled with 32-bit
  hashes, the default); a client handler that calls back into the library; the identity of the
  blocks that hold the table's items and structure; big-endian hosts; concurrent use, which the
  library does not support; the other tests of \<open>tests.c\<close>, which are runs of the library on fixed
  inputs; the prototypes of \<open>ci/md5-stub/md5.h\<close> and the build files.
\<close>

section \<open>Writing, removing and reading\<close>

text \<open>
  C1. \<open>coucal_write_value()\<close> refines the update of a map. From a table that satisfies the invariant
  and for any key the caller may pass, also one that points into the table's own pool, the write
  either ends with the invariant, the map updated at every key that compares equal and the
  return value 1 exactly when the key was absent, or it stops in one of the assertions listed in
  \<open>write_failure\<close>, each for its reason: a refused allocation, a full stash, a table of \<open>2 ^ 32\<close>
  slots. In particular no bad pointer is followed and no other assertion can fail.
\<close>

theorem write_refines_map:
  assumes "coucal_inv h" and "deref (pool h) nm = Some s" and "fits h s"
  shows "case coucal_write_value h nm v of
      Inr (h', ret) \<Rightarrow> coucal_inv h' \<and> custom h' = custom h \<and>
        table_map h' = (\<lambda>u. if equals_of (custom h) s u then Some v else table_map h u) \<and>
        ret = (if table_map h s = None then 1 else 0)
    | Inl e \<Rightarrow> \<exists>a. e = AssertFailed a \<and> write_failure h a"
proof -
  consider (bad) a where "coucal_write_value h nm v = Inl (AssertFailed a)" "write_failure h a"
    | (good) h' ret where "coucal_write_value h nm v = Inr (h', ret)" "write_ok h s v h' ret"
    using write_value_correct [OF assms] by blast
  then show ?thesis
  proof cases
    case good
    then have "custom h' = custom h" by (simp add: write_ok_def)
    then show ?thesis using good(1) write_ok_map [OF assms(1) good(2)] by simp
  qed simp
qed

text \<open>A write through the stashed key's own pointer, which replaces its value.\<close>

theorem write_refines_map_witness:
  "case coucal_write_value demo3 (KPool 2 2) 5 of
      Inr (h', ret) \<Rightarrow> coucal_inv h' \<and> table_map h' [98] = Some 5 \<and> table_map h' [97] = Some 7 \<and> ret = 0
    | Inl e \<Rightarrow> False"
proof -
  have "fits demo3 [98]" by (simp add: fits_def)
  from write_refines_map [OF demo3_facts(1) demo3_key this, of 5] show ?thesis
    by (auto simp: demo3_map write_failure_def split: sum.splits)
qed

text \<open>
  C2. \<open>coucal_remove()\<close> refines the removal from a map: it returns 1 exactly when the key was
  present, takes out that key and leaves every other entry; the only failure is the allocator
  refusing the block of a compaction.
\<close>

theorem remove_refines_map:
  assumes "coucal_inv h" and "deref (pool h) nm = Some s"
  shows "case coucal_remove h nm of
      Inr (h', ret) \<Rightarrow> coucal_inv h' \<and> custom h' = custom h \<and>
        table_map h' = (\<lambda>u. if equals_of (custom h) s u then None else table_map h u) \<and>
        ret = (if table_map h s = None then 0 else 1)
    | Inl e \<Rightarrow> e = AssertFailed A_pool_compaction_error \<and> heap_refuses (heap h)"
proof -
  consider (bad) "coucal_remove h nm = Inl (AssertFailed A_pool_compaction_error)" "heap_refuses (heap h)"
    | (good) h' ret where "coucal_remove h nm = Inr (h', ret)" "remove_ok h s h' ret"
    using remove_correct [OF assms] by blast
  then show ?thesis
  proof cases
    case good
    then have "custom h' = custom h" by (simp add: remove_ok_def)
    then show ?thesis using good(1) remove_ok_map [OF assms(1) good(2)] by simp
  qed simp
qed

text \<open>The removal of the stashed key, named by its own pointer.\<close>

theorem remove_refines_map_witness:
  "case coucal_remove demo3 (KPool 2 2) of
      Inr (h', ret) \<Rightarrow> coucal_inv h' \<and> table_map h' [98] = None \<and> table_map h' [97] = Some 7 \<and> ret = 1
    | Inl e \<Rightarrow> False"
  using remove_refines_map [OF demo3_facts(1) demo3_key]
  by (auto simp: demo3_map split: sum.splits)

text \<open>
  C3. The reading functions return what the map holds: \<open>coucal_read_value()\<close> the value and 1, or 0
  with the output left alone; \<open>coucal_exists()\<close> whether there is an entry; \<open>coucal_get_intptr()\<close>
  the value or 0; and \<open>coucal_readptr()\<close> treats a present zero as absent. None of them can fail.
\<close>

theorem read_refines_map:
  assumes "lookup_inv h" and "deref (pool h) nm = Some s"
  shows "coucal_read_value h nm out =
      Inr (case table_map h s of None \<Rightarrow> (0, out) | Some v \<Rightarrow> (1, map_option (\<lambda>_. v) out)) \<and>
    coucal_exists h nm = Inr (if table_map h s = None then 0 else 1) \<and>
    coucal_get_intptr h nm = Inr (case table_map h s of None \<Rightarrow> 0 | Some v \<Rightarrow> v) \<and>
    coucal_get_pvoid h nm = Inr (case table_map h s of None \<Rightarrow> 0 | Some v \<Rightarrow> v) \<and>
    coucal_readptr h nm (Some w) =
      Inr (case table_map h s of None \<Rightarrow> (0, Some 0) | Some v \<Rightarrow> (if v = 0 then 0 else 1, Some v))"
  by (cases "table_map h s") (simp_all add: read_value_map [OF assms] accessor_defs)

theorem read_refines_map_witness:
  "coucal_read_value demo3 (KExt 5 [98]) (Some 1) = Inr (1, Some 8) \<and>
   coucal_readptr demo3 (KExt 5 [98]) (Some 1) = Inr (1, Some 8)"
  using read_refines_map [OF demo3_parts(2), of "KExt 5 [98]" "[98]" "Some 1" 1]
  by (simp add: demo3_map)

text \<open>
  C4. Any sequence of writes, removals, lookups and increments on a table just created behaves as
  on a map from strings: the results are the map's, call by call, and so is the final content
  and the number of items, unless memory or the stash runs out on the way. The keys are C
  strings, and their total length stays below \<open>2 ^ 62\<close>.
\<close>

theorem operation_sequence_refines_map:
  assumes "\<forall>x \<in> set xs. 0 \<notin> set (op_key x)"
    and "sum_list (map (\<lambda>x. Suc (length (op_key x))) xs) < 2 ^ 62"
  shows "case coucal_new hp n of
      (None, hp') \<Rightarrow> 2 ^ 32 < n \<or> heap_refuses hp
    | (Some h, hp') \<Rightarrow>
        (case run_ops coucal_step h xs of
           Inl e \<Rightarrow> resource_error e
         | Inr (h', rs) \<Rightarrow> (table_map h', rs) = spec_run Map.empty xs \<and>
             coucal_nitems (Some h') = card (dom (table_map h')))"
proof (cases "coucal_new hp n")
  case (Pair r hp')
  show ?thesis
  proof (cases r)
    case None
    then show ?thesis using Pair coucal_new_correct [where hp = hp and n = n] by simp
  next
    case (Some h)
    then have "coucal_new hp n = (Some h, hp')" using Pair by simp
    note new = new_table [OF this]
    have store: "default_store h" using new(1,7) by (simp add: default_store_def no_custom_def)
    have "pool_size (pool h) = 0" by (simp add: new(4) no_pool_def)
    then have "case run_ops coucal_step h xs of
        Inl e \<Rightarrow> resource_error e
      | Inr (t', rs) \<Rightarrow> default_store t' \<and> (table_map t', rs) = spec_run (table_map h) xs"
      using coucal_strings.run_law [OF store assms(1)] assms(2) by simp
    then show ?thesis using Pair Some new(6) used_card
      by (auto simp: coucal_nitems_def default_store_def split: sum.splits)
  qed
qed

theorem operation_sequence_witness:
  "case coucal_new demo_heap 0 of
      (None, hp') \<Rightarrow> False
    | (Some h, hp') \<Rightarrow>
        (case run_ops coucal_step h [Write [97] 7, Inc [97], Lookup [97], Remove [97], Lookup [97]] of
           Inl e \<Rightarrow> resource_error e
         | Inr (h', rs) \<Rightarrow> table_map h' [97] = None \<and>
             rs = [Wrote 1, Counted 8, Found (Some 8), Removed 1, Found None])"
proof -
  define xs where "xs = [Write [97] 7, Inc [97], Lookup [97], Remove [97], Lookup [97]]"
  have ok: "\<forall>x \<in> set xs. 0 \<notin> set (op_key x)"
    "sum_list (map (\<lambda>x. Suc (length (op_key x))) xs) < 2 ^ 62" by (simp_all add: xs_def)
  have spec: "spec_run Map.empty xs =
      (Map.empty, [Wrote 1, Counted 8, Found (Some 8), Removed 1, Found None])"
    by (simp add: xs_def fun_eq_iff)
  note sound = operation_sequence_refines_map [OF ok, of 0 demo_heap]
  show ?thesis
  proof (cases "coucal_new demo_heap 0")
    case (Pair r hp')
    show ?thesis
    proof (cases r)
      case None
      then show ?thesis using sound Pair by simp
    next
      case (Some h)
      then show ?thesis using sound Pair unfolding spec xs_def [symmetric]
        by (cases "run_ops coucal_step h xs") auto
    qed
  qed
qed

text \<open>
  C5. The invariant holds in every state the API can reach: after \<open>coucal_new()\<close>, after key
  handlers that meet their contract are set on the empty table, and after any successful
  writes, increments, removals and settings.
\<close>

theorem reachable_invariant:
  assumes "reachable h"
  shows "coucal_inv h \<and> used h = size (entries h) \<and> used h \<le> 2 ^ lg_size h + 16"
  using reachable_inv [OF assms] used_bound [of h] by (simp add: coucal_inv_def)

theorem reachable_invariant_witness:
  "\<exists>h. reachable h \<and> coucal_inv h \<and> used h \<le> 2 ^ lg_size h + 16"
proof -
  obtain h hp where "coucal_new demo_heap 0 = (Some h, hp)"
    using coucal_new_correct [where hp = demo_heap and n = 0]
    by (cases "coucal_new demo_heap 0"; cases "fst (coucal_new demo_heap 0)") auto
  then have "reachable h" by (rule reachable.new)
  then show ?thesis using reachable_invariant by blast
qed

text \<open>
  C6. The sizes of the table, the stash and the pool stay within their arrays and the range of their
  types in every state the API can reach: the exponent is between 4 and 32 and the table has that
  power of two of slots; the stash has 16 slots, its size is the number of its live items, all of them
  below its extent, and the highest size recorded in the statistics is at most 16 too; there are
  at most \<open>2 ^ 32 + 16\<close> items; the used bytes of the pool are within the bytes written, these within
  the capacity and the capacity within \<open>PTRDIFF_MAX\<close>. So none of these sums has wrapped around, and the
  memory the table reports is the exact sum of its parts. Nothing bounds the other counters of the
  statistics, which count events modulo \<open>2 ^ 64\<close>.
\<close>

theorem sizes_in_range:
  assumes "reachable h"
  shows "MIN_LG_SIZE \<le> lg_size h \<and> lg_size h \<le> COUCAL_HASH_SIZE \<and> length (items h) = 2 ^ lg_size h \<and>
    length (stash_items (stash h)) = STASH_SIZE \<and> extent (stash h) \<le> STASH_SIZE \<and>
    stash_size (stash h) = card {i. i < extent (stash h) \<and> name (stash_items (stash h) ! i) \<noteq> KNull} \<and>
    (\<forall>i. extent (stash h) \<le> i \<and> i < STASH_SIZE \<longrightarrow> name (stash_items (stash h) ! i) = KNull) \<and>
    max_stash_size (stats h) \<le> STASH_SIZE \<and> used h \<le> 2 ^ 32 + 16 \<and>
    pool_used (pool h) \<le> pool_size (pool h) \<and> pool_size (pool h) \<le> capacity (pool h) \<and>
    length (pool_bytes (pool h)) \<le> capacity (pool h) \<and> capacity (pool h) \<le> ptrdiff_max \<and>
    coucal_memory_size h = 632 + 24 * length (items h) + capacity (pool h)"
proof -
  have inv: "coucal_inv h" using reachable_inv [OF assms] by simp
  then have slots: "table_inv h" "stash_core (stash h)"
    by (simp_all add: coucal_inv_def slots_inv_def stash_inv_def)
  have lg: "lg_size h \<le> 32" using slots(1) by (simp add: table_inv_def COUCAL_HASH_SIZE_def)
  then have "(2::nat) ^ lg_size h \<le> 2 ^ 32" by (intro power_increasing) simp_all
  then have "used h \<le> 2 ^ 32 + 16" using used_bound [OF inv] by simp
  moreover note pool = pool_in_range [OF assms]
  moreover have "max_stash_size (stats h) \<le> STASH_SIZE"
    using reachable_sized [OF assms] by (simp add: sized_def STASH_SIZE_def)
  ultimately show ?thesis
    using slots stash_size_card [OF slots(2)] memory_size_exact [OF inv] by (simp add: table_inv_def stash_core_def)
qed

theorem sizes_in_range_witness:
  "\<exists>h. reachable h \<and> length (items h) = 2 ^ lg_size h \<and> max_stash_size (stats h) \<le> STASH_SIZE"
proof -
  obtain h hp where "coucal_new demo_heap 0 = (Some h, hp)"
    using coucal_new_correct [where hp = demo_heap and n = 0]
    by (cases "coucal_new demo_heap 0"; cases "fst (coucal_new demo_heap 0)") auto
  then have "reachable h" by (rule reachable.new)
  then show ?thesis using sizes_in_range by blast
qed

section \<open>The clients of the repository\<close>

text \<open>
  C7. No input makes the differential fuzzing harness abort: for every input shorter than \<open>2 ^ 32\<close>
  bytes the table and the harness's reference agree on every result, on the number of items after
  every operation and on the final enumeration, so the run ends normally, unless the library stops
  for want of memory or stash, or \<open>coucal_new()\<close> returned \<open>NULL\<close>, which the harness does not check.
\<close>

theorem fuzz_never_mismatches:
  assumes "length data < 2 ^ 32"
  shows "case LLVMFuzzerTestOneInput hp data of
      Inl stop \<Rightarrow> (\<exists>e. stop = Library e \<and> resource_error e) \<or>
        (stop = Library BadPointer \<and> heap_refuses hp)
    | Inr p \<Rightarrow> p = Some None"
  by (rule fuzz_correct [OF assms])

text \<open>A write, a lookup, an increment and a removal of the key \<open>k5\<close>.\<close>

theorem fuzz_never_mismatches_witness:
  "LLVMFuzzerTestOneInput demo_heap [0, 5, 2, 5, 3, 5, 1, 5] \<noteq> Inl Mismatch"
proof -
  have "length [0 :: byte, 5, 2, 5, 3, 5, 1, 5] < 2 ^ 32" by simp
  from fuzz_never_mismatches [OF this, of demo_heap] show ?thesis by auto
qed

text \<open>
  C8. The differential test of \<open>tests.c\<close> passes, not only with its seed and its 20000 operations:
  for any seed and up to \<open>2 ^ 58\<close> operations the table and the test's reference agree on every
  result, on the number of items and on the enumeration, unless the library stops for want of
  memory or stash, or an allocation of the test itself is refused.
\<close>

theorem random_test_passes:
  assumes "ops \<le> 2 ^ 58"
  shows "case oracle_test hp arrays check_array seed ops of
      Inl stop \<Rightarrow> (\<exists>e. stop = Library e \<and> resource_error e) \<or>
        (stop = Library BadPointer \<and> heap_refuses hp) \<or>
        (stop = Mismatch \<and> \<not> (arrays \<and> check_array))
    | Inr p \<Rightarrow> p = Some None"
  by (rule oracle_test_correct [OF assms])

theorem random_test_passes_witness: "coucal_test_oracle demo_heap True True \<noteq> Inl Mismatch"
  using random_test_passes [of ORACLE_OPS demo_heap True True "0x01234567"]
  by (auto simp: coucal_test_oracle_def ORACLE_OPS_def)

text \<open>
  C9. The sample program prints, for each key given as an argument, the last value given to it: the
  number of distinct keys, then for each pair of arguments the key with its last value, then the
  enumeration, which lists every distinct key once, in some order. Its assertion that a stored
  key is found cannot fail.
\<close>

theorem sample_prints_last_values:
  assumes "length argv mod 2 = 1" and "1 < length argv" and "\<forall>s \<in> set argv. 0 \<notin> set s"
    and "(\<Sum>j<length argv div 2. Suc (length (argv ! (1 + 2 * j)))) < 2 ^ 62"
    and "inj_on addr {..<length argv}"
  shows "case sample_main hp addr argv of
      Inl e \<Rightarrow> resource_error e
    | Inr (out, fin) \<Rightarrow>
        (out = [] \<and> fin = AssertAbort \<and> heap_refuses hp) \<or>
        (fin = Exit 0 \<and>
          (\<exists>ks. distinct ks \<and> set ks = dom (argument_map argv) \<and> out = sample_output argv ks))"
  by (rule sample_correct [OF assms])

text \<open>The arguments \<open>a 1 a 2\<close>.\<close>

theorem sample_prints_last_values_witness:
  "case sample_main demo_heap (\<lambda>i. of_nat (4096 + i)) [[115], [97], [49], [97], [50]] of
      Inl e \<Rightarrow> resource_error e
    | Inr (out, fin) \<Rightarrow> fin = Exit 0 \<and>
        out = [Stored 1, Checking, Pair [97] [50], Pair [97] [50], Enumerating, Pair [97] [50]]"
proof -
  let ?argv = "[[115], [97], [49], [97], [50]] :: byte list list"
  let ?addr = "\<lambda>i. of_nat (4096 + i) :: u64"
  have half: "length ?argv div 2 = Suc (Suc 0)" by simp
  have map: "argument_map ?argv = [[97] \<mapsto> 4]"
    unfolding argument_map_def half by (simp add: fun_eq_iff)
  have inj: "inj_on ?addr {..<length ?argv}"
  proof (rule inj_onI)
    fix x y assume xy: "x \<in> {..<length ?argv}" "y \<in> {..<length ?argv}" "?addr x = ?addr y"
    have num: "unat (?addr i) = 4096 + i" if "i < 5" for i
      using that by (simp add: unsigned_of_nat take_bit_nat_eq_self del: of_nat_add)
    have "x < 5" "y < 5" using xy(1,2) by simp_all
    have "unat (?addr x) = unat (?addr y)" by (rule arg_cong [OF xy(3)])
    then have "4096 + x = 4096 + y" unfolding num [OF \<open>x < 5\<close>] num [OF \<open>y < 5\<close>] .
    then show "x = y" by (rule add_left_imp_eq)
  qed
  have out: "sample_output ?argv ks =
      [Stored 1, Checking, Pair [97] [50], Pair [97] [50], Enumerating, Pair [97] [50]]"
    if ks: "distinct ks" "set ks = dom (argument_map ?argv)" for ks
  proof -
    have "length ks = 1" using distinct_card [OF ks(1)] ks(2) by (simp add: map)
    then obtain k where k: "ks = [k]" by (cases ks) simp_all
    have "set ks = {[97]}" unfolding ks(2) map by simp
    then have "ks = [[97]]" unfolding k by simp
    then show ?thesis unfolding sample_output_def half by (simp add: map sample_line_def)
  qed
  have "(\<Sum>j<length ?argv div 2. Suc (length (?argv ! (1 + 2 * j)))) < 2 ^ 62"
    unfolding half by simp
  from sample_prints_last_values [OF _ _ _ this inj, of demo_heap] show ?thesis
    using out by (auto split: sum.splits)
qed

text \<open>
  C10. The benchmark succeeds: for any number of keys up to \<open>2 ^ 32\<close>, no check of its 32 phases of
  additions, removals, repeated ones and lookups fails, and no value read differs from the one
  written, so it reports success, unless the library stops for want of memory or stash, or
  \<open>coucal_new()\<close> returned \<open>NULL\<close>, which the program does not check. The number 0 is malformed.
\<close>

theorem benchmark_succeeds:
  assumes "scan_ulong snum = Some n" and "unat n \<le> 2 ^ 32"
  shows "case coucal_test hp files snum of
      Inl stop \<Rightarrow> (\<exists>e. stop = BenchLibrary e \<and> resource_error e) \<or>
        (stop = BenchLibrary BadPointer \<and> heap_refuses hp)
    | Inr r \<Rightarrow> r = (if n = 0 then MalformedNumber else Successful)"
  using coucal_test_number [OF assms, of hp files] unfolding bench_excused_def .

theorem benchmark_succeeds_witness:
  "coucal_test demo_heap (\<lambda>_. undefined) (decimal 100000) \<notin>
     {Inl (CheckFailed 29 42), Inl (ValueFailed 7), Inr MalformedNumber}"
  using benchmark_succeeds [OF scan_decimal [of 100000], of demo_heap "\<lambda>_. undefined"]
  by auto

text \<open>
  C11. Given a file, the benchmark tells whether its lines are distinct. It reports success only if
  there is a line and no line occurs twice, a malformed number only if there is no line or no
  memory for the file, and otherwise it stops: for want of a resource, at a refused \<open>realloc()\<close> or
  \<open>coucal_new()\<close>, or, when a line does occur twice, at the check at which the same script stops on
  a map instead of a table.
\<close>

theorem benchmark_file_distinct:
  assumes "scan_ulong snum = None" and "readable (files snum)"
    and "regular_size (files snum) = Some (length (file_bytes (files snum)))"
    and "length (file_bytes (files snum)) \<le> 2 ^ 43"
  defines "lines \<equiv> file_lines [] (file_bytes (files snum))"
  shows "case coucal_test hp files snum of
      Inl stop \<Rightarrow> (\<exists>e. stop = BenchLibrary e \<and> resource_error e) \<or>
        (stop = BenchLibrary BadPointer \<and> heap_refuses hp) \<or>
        (\<not> distinct lines \<and> map_run (Some lines) (length lines) = Inl stop)
    | Inr MalformedNumber \<Rightarrow> lines = [] \<or> heap_refuses hp
    | Inr Successful \<Rightarrow> lines \<noteq> [] \<and> distinct lines"
  using coucal_test_file [where files = files, OF assms(1-4), of hp, folded lines_def] unfolding bench_excused_def .

text \<open>The lines \<open>a\<close>, \<open>b\<close> and the lines \<open>a\<close>, \<open>a\<close>, in files named \<open>k\<close>.\<close>

theorem benchmark_file_distinct_witness:
  "coucal_test demo_heap (\<lambda>_. \<lparr>regular_size = Some 4, readable = True, file_bytes = [97, 10, 98, 10]\<rparr>) [107] \<notin>
     {Inl (CheckFailed 2 1), Inl (ValueFailed 0), Inr MalformedNumber} \<and>
   coucal_test demo_heap (\<lambda>_. \<lparr>regular_size = Some 4, readable = True, file_bytes = [97, 10, 97, 10]\<rparr>) [107] \<notin>
     {Inr Successful, Inr MalformedNumber}"
proof -
  have name: "scan_ulong [107] = None" by (simp add: scan_ulong_def is_space_def is_digit_def)
  show ?thesis
    using benchmark_file_distinct [OF name, where files = "\<lambda>_. \<lparr>regular_size = Some 4, readable = True,
        file_bytes = [97, 10, 98, 10]\<rparr>" and hp = demo_heap]
      benchmark_file_distinct [OF name, where files = "\<lambda>_. \<lparr>regular_size = Some 4, readable = True,
        file_bytes = [97, 10, 97, 10]\<rparr>" and hp = demo_heap]
    by (auto simp: is_line_end_def)
qed

text \<open>
  C12. The keys of the harness survive printing and scanning: what \<open>sscanf()\<close> reads back from a key
  printed for a number is that number.
\<close>

theorem fuzz_keys_roundtrip:
  assumes "n < 2 ^ 32"
  shows "scan_key (fuzz_key n) = Some (of_nat n) \<and> 0 \<notin> set (fuzz_key n)"
  using scan_fuzz_key [OF assms] fuzz_key_no_nul by blast

theorem fuzz_keys_roundtrip_witness: "scan_key (fuzz_key 255) = Some 255"
  using fuzz_keys_roundtrip [of 255] by simp

section \<open>Structure of the table\<close>

text \<open>
  C13. A write fails only for want of memory or room: when the allocator grants every request, the
  stash is not full and the table has fewer than \<open>2 ^ 32\<close> slots, \<open>coucal_write_value()\<close> returns.
  No assertion of the write path can fail otherwise, and the loops of the path all end.
\<close>

theorem write_returns:
  assumes "coucal_inv h" and "deref (pool h) nm = Some s" and "fits h s"
    and "\<not> heap_refuses (heap h)" and "stash_size (stash h) < 16" and "lg_size h < 32"
  shows "\<exists>h' ret. coucal_write_value h nm v = Inr (h', ret) \<and> used h' = used h + nat ret"
proof -
  obtain h' ret where run: "coucal_write_value h nm v = Inr (h', ret)" and ok: "write_ok h s v h' ret"
    using write_value_correct [OF assms(1-3), of v] assms(4-6) by (auto simp: write_failure_def)
  have "used h' = used h + nat ret"
  proof (cases "ret = 0")
    case True
    then obtain t old E where "entries h = add_mset (Some t, old, hash_of (custom h) s) E"
        "entries h' = add_mset (Some t, v, hash_of (custom h) s) E"
      using ok by (auto simp: write_ok_def replaced_def)
    then show ?thesis using True ok assms(1) by (simp add: write_ok_def coucal_inv_def)
  next
    case False
    then obtain t where "entries h' = add_mset (Some t, v, hash_of (custom h) s) (entries h)" "ret = 1"
      using ok by (auto simp: write_ok_def added_def)
    then show ?thesis using ok assms(1) by (simp add: write_ok_def coucal_inv_def)
  qed
  then show ?thesis using run by blast
qed

theorem write_returns_witness:
  "\<exists>h' ret. coucal_write_value demo3 (KExt 4 [120, 121]) 5 = Inr (h', ret) \<and> used h' = 3 + nat ret"
  using write_returns [of demo3 "KExt 4 [120, 121]" "[120, 121]" 5] by (simp add: fits_def)

text \<open>
  C14. Replacing the value of a key that is present never fails, whatever the allocator and the stash:
  no key is copied and the table does not grow. It changes the value in the one slot that holds the
  key, and in no other slot anything; the map changes at the keys that compare equal only, and the
  pool, the allocator, the settings and the counts are those before. The old value is handed to the
  client's handler.
\<close>

theorem replace_never_fails:
  assumes "coucal_inv h" and "deref (pool h) nm = Some s" and "table_map h s \<noteq> None"
  shows "\<exists>h' i. coucal_write_value h nm v = Inr (h', 0) \<and> coucal_inv h' \<and>
    i < length (slots h) \<and> item_is h s (slots h ! i) \<and>
    slots h' = (slots h)[i := (slots h ! i)\<lparr>value := v\<rparr>] \<and>
    table_map h' = (\<lambda>t. if equals_of (custom h) s t then Some v else table_map h t) \<and>
    calls h' = calls h @ freed (custom h) (value (slots h ! i)) \<and>
    pool h' = pool h \<and> heap h' = heap h \<and> custom h' = custom h \<and> used h' = used h \<and> lg_size h' = lg_size h \<and>
    stash_size (stash h') = stash_size (stash h) \<and> extent (stash h') = extent (stash h) \<and>
    live_names h' = live_names h"
  using replace_frame [OF assms, of v] unfolding replaced_at_def by blast

text \<open>The allocator of this table refuses everything: the key's value changes, the other two stay.\<close>

theorem replace_never_fails_witness:
  "heap_refuses (heap demo_refused) \<and>
   (\<exists>h'. coucal_write_value demo_refused (KPool 2 2) 5 = Inr (h', 0) \<and>
      table_map h' [97] = Some 7 \<and> table_map h' [98] = Some 5 \<and> table_map h' [99, 100] = Some 9)"
  using replace_never_fails [of demo_refused "KPool 2 2" "[98]" 5] demo3_key by (auto simp: demo3_map)

text \<open>
  C15. Doubling the table (the rehash in \<open>coucal_write_value()\<close>) keeps every item and puts each at a
  position of the larger table: the live items are the same, the structural invariant holds at
  the new size and the stash does not grow. It stops only at \<open>2 ^ 32\<close> slots or when the allocator
  refuses; the assertions on positions inside it cannot fail.
\<close>

theorem expand_table_keeps_items:
  assumes "slots_inv h"
  shows "case expand_table h (2 ^ (lg_size h - 1)) of
      Inr h' \<Rightarrow> slots_inv h' \<and> live h' = live h \<and> lg_size h' = lg_size h + 1 \<and>
        length (items h') = 2 * length (items h) \<and> pool h' = pool h \<and>
        stash_size (stash h') \<le> stash_size (stash h)
    | Inl e \<Rightarrow> e = AssertFailed A_acceptable_pow2 \<and> lg_size h = 32 \<or>
        e = AssertFailed A_hashtable_allocation_error \<and> heap_refuses (heap h)"
proof -
  have "length (items h') = 2 ^ lg_size h'" if "slots_inv h'" for h'
    using that by (simp add: slots_inv_def table_inv_def)
  then show ?thesis using expand_table_correct [OF assms] assms by (auto simp: expanded_def)
qed

theorem expand_table_keeps_items_witness:
  "case expand_table demo3 8 of
      Inr h' \<Rightarrow> slots_inv h' \<and> live h' = live demo3 \<and> lg_size h' = 5 | Inl e \<Rightarrow> False"
  using expand_table_keeps_items [OF demo3_parts(1)] by (auto split: sum.splits)

text \<open>
  C16. Cuckoo insertion loses nothing: adding an item to a table, through however many
  displacements, leaves exactly the old items and the new one in table and stash, each where a
  lookup finds it; it fails only when the stash is full.
\<close>

theorem add_item_keeps_items:
  assumes "slots_inv h" and "name item \<noteq> KNull"
  shows "case coucal_add_item_i h item of
      Inr (h', ret) \<Rightarrow> ret = 1 \<and> slots_inv h' \<and> live h' = add_mset item (live h) \<and>
        stash_size (stash h') \<le> stash_size (stash h) + 1 \<and> lg_size h' = lg_size h
    | Inl e \<Rightarrow> e = AssertFailed A_cuckoo_stash_collision \<and> stash_size (stash h) = 16"
  using coucal_add_item_correct [OF assms] by (auto simp: slots_frame_def)

theorem add_item_keeps_items_witness:
  "case coucal_add_item_i demo3 \<lparr>name = KEmpty, value = 1, hashes = \<lparr>hash1 = 1, hash2 = 2\<rparr>\<rparr> of
      Inr (h', ret) \<Rightarrow> ret = 1 \<and> slots_inv h' \<and> size (live h') = size (live demo3) + 1
    | Inl e \<Rightarrow> False"
  using add_item_keeps_items [OF demo3_parts(1),
      of "\<lparr>name = KEmpty, value = 1, hashes = \<lparr>hash1 = 1, hash2 = 2\<rparr>\<rparr>"]
  by (auto split: sum.splits)

text \<open>
  C17. Draining the stash keeps every item and moves all that can move: afterwards an item is in
  the stash only if both of its positions in the table are taken.
\<close>

theorem drain_stash_settles:
  assumes "slots_inv h"
  shows "let h' = coucal_drain_stash h in
    slots_inv h' \<and> live h' = live h \<and> stash_size (stash h') \<le> stash_size (stash h) \<and>
    (\<forall>j < 16. name (stash_items (stash h') ! j) \<noteq> KNull \<longrightarrow> settled h' (stash_items (stash h') ! j))"
  using coucal_drain_stash_correct [OF assms] coucal_drain_stash_settles [OF assms]
  by (simp add: Let_def)

theorem drain_stash_settles_witness:
  "slots_inv (coucal_drain_stash demo3) \<and> live (coucal_drain_stash demo3) = live demo3"
  using drain_stash_settles [OF demo3_parts(1)] by (simp add: Let_def)

section \<open>Enumerating\<close>

text \<open>
  C18. An enumeration of a table that is not changed meanwhile visits every entry exactly once:
  the entries seen are those of the table, with their multiplicity, the slots visited are
  distinct, every one holds a key, and the cursor is at its end after one call more than items.
\<close>

theorem enumeration_visits_each_once:
  assumes "coucal_inv h"
  shows "mset (map (\<lambda>loc. entry (pool h) (item_at h loc)) (enum_all h)) = entries h \<and>
    distinct (enum_all h) \<and> (\<forall>loc \<in> set (enum_all h). name (item_at h loc) \<noteq> KNull) \<and>
    length (enum_all h) = coucal_nitems (Some h)"
proof -
  note all = enum_all_correct [OF assms]
  have "length (enum_all h) = size (entries h)" using arg_cong [OF all(1), of size] by simp
  then show ?thesis using all assms by (simp add: coucal_nitems_def coucal_inv_def)
qed

theorem enumeration_visits_each_once_witness:
  "length (enum_all demo3) = 3 \<and> distinct (enum_all demo3)"
  using enumeration_visits_each_once [OF demo3_facts(1)] by (simp add: coucal_nitems_def)

text \<open>
  C19. Removing an entry while enumerating is safe: whatever the cursor, the entries it has still
  to visit after \<open>coucal_remove()\<close> are those it had before, in the same order, without the removed
  one, although the removal may compact the pool and change every key's address.
\<close>

theorem remove_during_enumeration:
  assumes "coucal_inv h" and "deref (pool h) nm = Some s" and "coucal_remove h nm = Inr (h', ret)"
  shows "pending h' e = filter (\<lambda>en. \<not> equals_of (custom h) (the (fst en)) s) (pending h e)"
proof -
  have inv: "keys_ok (custom h)" "content_ok (custom h) (entries h)"
    using assms(1) by (simp_all add: coucal_inv_def)
  have ok: "remove_ok h s h' ret" using remove_correct [OF assms(1,2)] assms(3) by auto
  show ?thesis
  proof (cases "ret = 0")
    case False
    then have "removed h s h'" using ok by (simp add: remove_ok_def)
    then show ?thesis using pending_remove [OF inv, of s h' e] by simp
  next
    case True
    then have none: "h' = h" "table_map h s = None" using ok by (simp_all add: remove_ok_def)
    have "\<not> equals_of (custom h) (the (fst en)) s" if "en \<in> set (pending h e)" for en
    proof
      assume eq: "equals_of (custom h) (the (fst en)) s"
      have "en \<in># entries h"
        using that by (auto simp: pending_def live_list_def entries_def live_def live_of_def slots_def
            dest: in_set_dropD)
      then have "has_entry (custom h) (entries h) s (fst (snd en))"
        using eq by (auto simp: has_entry_def)
      then show False
        using table_map_has [OF coucal_inv_map [OF assms(1)], of s "fst (snd en)"] none(2) by simp
    qed
    then show ?thesis using none(1) by (simp add: filter_id_conv)
  qed
qed

theorem remove_during_enumeration_witness:
  "case coucal_remove demo3 (KPool 2 2) of
      Inr (h', ret) \<Rightarrow> pending h' (coucal_enum_new h') =
        filter (\<lambda>en. the (fst en) \<noteq> [98]) (pending demo3 (coucal_enum_new demo3))
    | Inl e \<Rightarrow> False"
proof -
  obtain h' ret where run: "coucal_remove demo3 (KPool 2 2) = Inr (h', ret)"
    using remove_correct [OF demo3_facts(1) demo3_key] by auto
  from remove_during_enumeration [OF demo3_facts(1) demo3_key run, of "coucal_enum_new demo3"]
  show ?thesis using run by (simp add: coucal_enum_new_def)
qed

text \<open>
  C20. Replacing values while enumerating is safe: a write to a key that is present leaves what the
  cursor has still to visit as it was, but for the new value.
\<close>

theorem replace_during_enumeration:
  assumes "coucal_inv h" and "deref (pool h) nm = Some s" and "fits h s"
    and "table_map h s \<noteq> None" and "coucal_write_value h nm v = Inr (h', ret)"
  shows "pending h' e =
    map (\<lambda>(k, w, hk). (k, if equals_of (custom h) (the k) s then v else w, hk)) (pending h e)"
proof -
  have inv: "keys_ok (custom h)" "content_ok (custom h) (entries h)"
    using assms(1) by (simp_all add: coucal_inv_def)
  have ok: "write_ok h s v h' ret" using write_value_correct [OF assms(1-3), of v] assms(5) by auto
  then have "ret = 0" using write_ok_map(2) [OF assms(1) ok] assms(4) by simp
  then have "replaced h s v h'" using ok by (simp add: write_ok_def)
  then show ?thesis using pending_replace [OF inv] by blast
qed

theorem replace_during_enumeration_witness:
  "case coucal_write_value demo3 (KPool 2 2) 5 of
      Inr (h', ret) \<Rightarrow> pending h' (coucal_enum_new h') = map (\<lambda>(k, w, hk).
          (k, if the k = [98] then 5 else w, hk)) (pending demo3 (coucal_enum_new demo3))
    | Inl e \<Rightarrow> False"
proof -
  have fits: "fits demo3 [98]" by (simp add: fits_def)
  obtain h' ret where run: "coucal_write_value demo3 (KPool 2 2) 5 = Inr (h', ret)"
    using write_value_correct [OF demo3_facts(1) demo3_key fits, of 5] by (auto simp: write_failure_def)
  have "table_map demo3 [98] \<noteq> None" by (simp add: demo3_map)
  from replace_during_enumeration [OF demo3_facts(1) demo3_key fits this run,
      of "coucal_enum_new demo3"]
  show ?thesis using run by (simp add: coucal_enum_new_def)
qed

section \<open>The string pool\<close>

text \<open>
  C21. Compacting the pool keeps every key's bytes: the entries of the table are the same, the keys'
  strings lie without overlap in the new block, and the dead bytes are gone.
\<close>

theorem compact_pool_keeps_keys:
  assumes "pool_ok h" and "pool_used (pool h) \<le> cap"
  shows "case coucal_compact_pool h cap of
      Inr h' \<Rightarrow> pool_ok h' \<and> entries h' = entries h \<and> capacity (pool h') = cap \<and>
        pool_size (pool h') = pool_used (pool h) \<and> pool_used (pool h') = pool_used (pool h)
    | Inl e \<Rightarrow> e = AssertFailed A_pool_compaction_error \<and>
        (ptrdiff_max < cap \<or> heap_refuses (heap h))"
proof -
  have pinv: "regions_ok (pool h) (live_names h)"
      "pool_used (pool h) = (\<Sum>k \<in># live_names h. stored_len (pool h) k)"
    using assms(1) by (simp_all add: pool_inv_def)
  consider (bad) "coucal_compact_pool h cap = Inl (AssertFailed A_pool_compaction_error)"
      "cap \<le> ptrdiff_max \<longrightarrow> heap_refuses (heap h)"
    | (good) h' where "coucal_compact_pool h cap = Inr h'" "pool_frame h h'"
      "pool_inv (pool h') (heap h') (live_names h')" "capacity (pool h') = cap"
      "pool_size (pool h') = pool_used (pool h)" "pool_used (pool h') = pool_size (pool h')"
    using compact_pool_correct [of h cap] assms pinv slots_inv_shape [of h] by auto
  then show ?thesis
  proof cases
    case good
    then show ?thesis using pool_frame_pool_ok [OF _ _ good(2,3)] pool_frame_entries assms(1) by auto
  qed auto
qed

theorem compact_pool_keeps_keys_witness:
  "case coucal_compact_pool demo3 128 of
      Inr h' \<Rightarrow> entries h' = entries demo3 \<and> capacity (pool h') = 128 \<and> pool_size (pool h') = 7
    | Inl e \<Rightarrow> False"
  using compact_pool_keeps_keys [OF demo3_parts(3), of 128]
  by (auto simp: ptrdiff_max_def split: sum.splits)

text \<open>
  C22. Growing the pool keeps every key's bytes, whether the code compacts, or \<open>realloc()\<close> moves
  the block and every key pointer is recomputed, or it extends the block where it is.
\<close>

theorem realloc_pool_keeps_keys:
  assumes "pool_ok h" and "pool_size (pool h) \<le> cap" and "cap \<le> ptrdiff_max"
  shows "case coucal_realloc_pool h cap of
      Inr h' \<Rightarrow> pool_ok h' \<and> entries h' = entries h \<and> capacity (pool h') = cap
    | Inl e \<Rightarrow> e \<in> AssertFailed ` {A_pool_compaction_error, A_pool_allocation_error} \<and>
        heap_refuses (heap h)"
proof -
  have ok: "slots_inv h" "key_dup (custom h) = None" "pool_inv (pool h) (heap h) (live_names h)"
    using assms(1) by simp_all
  from realloc_pool_correct [OF ok assms(2,3)] show ?thesis
  proof (elim disjE bexE exE conjE)
    fix e assume "e \<in> {A_pool_compaction_error, A_pool_allocation_error}"
      "coucal_realloc_pool h cap = Inl (AssertFailed e)" "heap_refuses (heap h)"
    then show ?thesis by simp
  next
    fix h' assume run: "coucal_realloc_pool h cap = Inr h'" and frame: "pool_frame h h'"
      and pool: "pool_inv (pool h') (heap h') (live_names h')" "capacity (pool h') = cap"
    have "pool_ok h'" by (rule pool_frame_pool_ok [OF ok(1,2) frame pool(1)])
    then show ?thesis using pool_frame_entries [OF frame] pool(2) unfolding run by simp
  qed
qed

theorem realloc_pool_keeps_keys_witness:
  "case coucal_realloc_pool demo3 512 of
      Inr h' \<Rightarrow> entries h' = entries demo3 \<and> capacity (pool h') = 512 | Inl e \<Rightarrow> False"
  using realloc_pool_keeps_keys [OF demo3_parts(3), of 512]
  by (auto simp: ptrdiff_max_def split: sum.splits)

text \<open>
  C23. Copying a key into the pool is safe when the key is itself a pointer into the pool, even if
  the pool is compacted or moved to make room: the copy has the key's bytes, overlaps no other
  key, and the table's entries are as before. Every failure is a refused allocation.
\<close>

theorem dup_name_copies_key:
  assumes "pool_ok h" and "deref (pool h) k = Some s" and "0 \<notin> set s"
    and "pool_size (pool h) + length s < 2 ^ 62"
  shows "case coucal_dup_name_internal h k of
      Inr (h', k') \<Rightarrow> deref (pool h') k' = Some s \<and> entries h' = entries h \<and> slots_inv h' \<and>
        pool_inv (pool h') (heap h') (add_mset k' (live_names h'))
    | Inl e \<Rightarrow> e \<in> AssertFailed ` pool_errors \<and> heap_refuses (heap h)"
proof -
  consider (bad) e where "e \<in> pool_errors"
      "coucal_dup_name_internal h k = Inl (AssertFailed e)" "heap_refuses (heap h)"
    | (good) h' k' where "coucal_dup_name_internal h k = Inr (h', k')" "pool_frame h h'"
      "pool_inv (pool h') (heap h') (add_mset k' (live_names h'))" "deref (pool h') k' = Some s"
    using dup_name_internal_correct [OF assms] by blast
  then show ?thesis
  proof cases
    case good
    then show ?thesis using pool_frame_entries pool_frame_slots_inv assms(1) by auto
  qed auto
qed

text \<open>The key copied is the pooled key of the stashed item.\<close>

theorem dup_name_copies_key_witness:
  "case coucal_dup_name_internal demo3 (KPool 2 2) of
      Inr (h', k') \<Rightarrow> deref (pool h') k' = Some [98] \<and> entries h' = entries demo3
    | Inl e \<Rightarrow> False"
  using dup_name_copies_key [OF demo3_parts(3) demo3_key] by (auto split: sum.splits)

text \<open>
  C24. Releasing a key that no item holds any more keeps the other keys: the entries are the same,
  the pool accounts for exactly the keys that are left, and a compaction to half the capacity
  always has room for them; the check against a double release cannot fail.
\<close>

theorem free_key_keeps_others:
  assumes "slots_inv h" and "key_dup (custom h) = None"
    and "pool_inv (pool h) (heap h) (add_mset k (live_names h))"
  shows "case coucal_free_key_internal h k of
      Inr h' \<Rightarrow> pool_ok h' \<and> entries h' = entries h \<and>
        pool_used (pool h') = pool_used (pool h) - stored_len (pool h) k \<and>
        pool_size (pool h') \<le> pool_size (pool h)
    | Inl e \<Rightarrow> e = AssertFailed A_pool_compaction_error \<and> heap_refuses (heap h)"
proof -
  consider (bad) "coucal_free_key_internal h k = Inl (AssertFailed A_pool_compaction_error)"
      "heap_refuses (heap h)"
    | (good) h' where "coucal_free_key_internal h k = Inr h'" "pool_frame h h'"
      "pool_inv (pool h') (heap h') (live_names h')" "pool_size (pool h') \<le> pool_size (pool h)"
    using free_key_internal_correct [OF slots_inv_shape [OF assms(1)] assms(2,3)] by blast
  then show ?thesis
  proof cases
    case good
    have "pool_used (pool h) = stored_len (pool h) k + (\<Sum>k \<in># live_names h. stored_len (pool h) k)"
      using assms(3) by (simp add: pool_inv_def)
    moreover have "(\<Sum>k \<in># live_names h'. stored_len (pool h') k) = (\<Sum>k \<in># live_names h. stored_len (pool h) k)"
      using pool_frame_stored [OF good(2)] good(3) assms(3) by (simp add: pool_inv_def regions_ok_add)
    ultimately have "pool_used (pool h') = pool_used (pool h) - stored_len (pool h) k"
      using good(3) assms(3) by (simp add: pool_inv_def)
    then show ?thesis using good pool_frame_pool_ok [OF assms(1,2) good(2,3)] pool_frame_entries by auto
  qed auto
qed

text \<open>The stashed item is detached from its slot; its key is released.\<close>

theorem free_key_keeps_others_witness:
  "case coucal_free_key_internal (demo3\<lparr>stash := empty_stash\<rparr>) (KPool 2 2) of
      Inr h' \<Rightarrow> pool_ok h' \<and> pool_used (pool h') = 5 | Inl e \<Rightarrow> False"
proof -
  let ?h = "demo3\<lparr>stash := empty_stash\<rparr>"
  have names: "live_names demo3 = add_mset (KPool 2 2) (live_names ?h)"
    using demo3_fields by (simp add: live_names_eq empty_stash_def names_def)
  have inv: "slots_inv ?h"
    using demo3_parts(1) by (simp add: slots_inv_def table_inv_def stash_inv_def stash_core_def empty_stash_def)
  have "pool_inv (pool ?h) (heap ?h) (add_mset (KPool 2 2) (live_names ?h))"
    using demo3_parts(3) names by simp
  from free_key_keeps_others [OF inv _ this] show ?thesis
    by (auto simp: stored_len_def demo3_key split: sum.splits)
qed

text \<open>
  C25. The pool of an emptied table still grows. When the only key of a table is removed, its bytes
  are no longer used but \<open>pool.size\<close> keeps its value, because the code compacts the pool only while
  some key is used. So the next write whose key does not fit behind the dead bytes doubles the
  capacity, although the pool holds no key and the old capacity had room for the new one. This is
  for a capacity that is a power of two from 256 to \<open>2 ^ 60\<close>, an allocator that grants every request
  and a table below \<open>2 ^ 32\<close> slots.
\<close>

theorem emptied_pool_doubles:
  assumes "coucal_inv h" and "key_dup (custom h) = None" and "\<not> heap_refuses (heap h)" and "lg_size h < 32"
    and "used h = 1" and "deref (pool h) nm = Some t" and "table_map h t \<noteq> None" and "0 < pool_used (pool h)"
    and "capacity (pool h) = 2 ^ k" and "8 \<le> k" and "k \<le> 60"
    and "s \<noteq> []" and "0 \<notin> set s" and "Suc (length s) \<le> capacity (pool h)"
    and "capacity (pool h) - pool_size (pool h) < Suc (length s)"
  shows "\<exists>h1 h2. coucal_remove h nm = Inr (h1, 1) \<and> used h1 = 0 \<and> table_map h1 = Map.empty \<and>
    live_names h1 = {#} \<and> pool_used (pool h1) = 0 \<and> pool_size (pool h1) = pool_size (pool h) \<and>
    capacity (pool h1) = capacity (pool h) \<and>
    coucal_write h1 (KExt a s) v = Inr (h2, 1) \<and> capacity (pool h2) = 2 * capacity (pool h)"
proof -
  obtain h1 where rem: "coucal_remove h nm = Inr (h1, 1)" "remove_ok h t h1 1" "pool_used (pool h1) = 0"
      "pool_size (pool h1) = pool_size (pool h)" "capacity (pool h1) = capacity (pool h)"
    using remove_last [OF assms(1,2,6,7,5,8)] by blast
  then have h1: "coucal_inv h1" "custom h1 = custom h" "lg_size h1 = lg_size h" "\<not> heap_refuses (heap h1)"
    using assms(3) by (simp_all add: remove_ok_def)
  have used: "used h1 = 0" using rem(2) assms(1,5) by (auto simp: remove_ok_def removed_def coucal_inv_def)
  note empty = emptied_map [OF h1(1) used]
  have le: "pool_size (pool h1) \<le> capacity (pool h1)"
    using h1(1,2) assms(2) by (simp add: coucal_inv_def storage_inv_def pool_inv_def)
  have "(2::nat) ^ k \<le> 2 ^ 60" using assms(11) by (intro power_increasing) simp_all
  then have fits: "fits h1 s" using le rem(4,5) assms(9,13,14) by (simp add: fits_def)
  have nm: "deref (pool h1) (KExt a s) = Some s" and none: "table_map h1 s = None"
    by (simp_all add: deref_def empty(1))
  obtain h2 ret where run: "coucal_write_value h1 (KExt a s) v = Inr (h2, ret)"
    using write_value_correct [OF h1(1) nm fits, of v] h1(3,4) assms(4) empty(3) by (auto simp: write_failure_def)
  have "ret = 1" by (rule write_new_pool [OF h1(1) nm none fits run])
  moreover have "capacity (pool h2) = 2 * capacity (pool h)"
    using capacity_step_doubles [OF write_capacity_step [OF h1(1) _ nm none assms(12) fits run] _ assms(10,11) le]
      h1(2) assms(2,9,14,15) rem(4,5) by simp
  ultimately show ?thesis using rem used empty run by (auto simp: coucal_write_def)
qed

text \<open>One key of one byte in a pool of 256 bytes is removed; a key of 254 bytes then takes 512.\<close>

theorem emptied_pool_doubles_witness:
  "\<exists>h1 h2. coucal_remove demo1 (KExt 0 [97]) = Inr (h1, 1) \<and> live_names h1 = {#} \<and>
    coucal_write h1 (KExt 9 (replicate 254 98)) 4 = Inr (h2, 1) \<and> capacity (pool h2) = 512"
proof -
  have "deref (pool demo1) (KExt 0 [97]) = Some [97]" by (simp add: deref_def)
  moreover have "key_dup (custom demo1) = None" by (simp add: demo1_facts)
  ultimately show ?thesis
    using emptied_pool_doubles [of demo1 "KExt 0 [97]" "[97]" 8 "replicate 254 98" 9 4] demo1_facts by auto
qed

section \<open>Ownership of keys and values\<close>

text \<open>
  C26. \<open>coucal_delete()\<close> hands every value and every key of the table to its handler exactly once, in
  slot order, and nothing else; the caller's pointer is null afterwards. It cannot fail.
\<close>

theorem delete_releases_everything:
  assumes "coucal_inv h" and "cs = concat (map (release_calls (custom h)) (slots h))"
  shows "coucal_delete (Some (Some h)) = Inr (Some None, calls h @ cs) \<and>
    freed_values cs = (if value_free (custom h) = None then {#} else live_values h) \<and>
    freed_keys cs = (if key_free (custom h) = None then {#} else live_names h)"
proof -
  show ?thesis
    using coucal_delete_correct [OF assms(1)] release_values release_keys
    by (simp add: assms(2) live_values_slots live_names_slots)
qed

theorem delete_releases_everything_witness:
  "\<exists>cs. coucal_delete (Some (Some demo3)) = Inr (Some None, cs) \<and> freed_values cs = {#7, 8, 9#}"
proof -
  have "live_values demo3 = {#7, 8, 9#}"
    using demo3_fields by (simp add: live_values_slots slots_def)
  then show ?thesis using delete_releases_everything [OF demo3_facts(1) refl] by simp
qed

text \<open>
  C27. Each key the client's \<open>dup\<close> handler returned is, in every reachable state, either the key of
  one live item or was handed back to the client's \<open>free\<close> handler, exactly once.
\<close>

theorem client_keys_balance:
  assumes "reachable h" and "key_dup (custom h) \<noteq> None"
  shows "dup_keys (calls h) = freed_keys (calls h) + live_names h"
  using reachable_inv [OF assms(1)] assms(2) by (simp add: balanced_def)

text \<open>A table with a \<open>dup\<close> handler that returns a fresh object for each call, after one write.\<close>

theorem client_keys_balance_witness:
  "\<exists>h. reachable h \<and> dup_keys (calls h) = {#KExt 0 [97]#} \<and>
     dup_keys (calls h) = freed_keys (calls h) + live_names h"
proof -
  obtain h0 hp where new: "coucal_new demo_heap 0 = (Some h0, hp)"
    using coucal_new_correct [where hp = demo_heap and n = 0]
    by (cases "coucal_new demo_heap 0"; cases "fst (coucal_new demo_heap 0)") auto
  note fresh = new_table [OF new]
  have lg: "lg_size h0 = 4" "\<not> heap_refuses (heap h0)"
    using coucal_new_correct [where hp = demo_heap and n = 0] new by simp_all
  define dup where "dup = (\<lambda>(a :: coucal_opaque) cs s. KExt (length (cs :: handler_call list)) s)"
  obtain h1 where set: "coucal_value_set_key_handler h0 (Some dup) (Some 1) None None 0 = Inr h1"
    by (simp add: coucal_value_set_key_handler_def)
  then have h1: "custom h1 = (custom h0)\<lparr>key_dup := Some dup, key_free := Some 1, key_hash := None,
      key_equals := None, key_arg := 0\<rparr>" "calls h1 = []" "lg_size h1 = 4" "stash h1 = stash h0"
      "heap h1 = heap h0"
    using fresh(3) lg by (auto simp: coucal_value_set_key_handler_def)
  have dup_ok: "dup_ok (custom h1)" and keys: "keys_ok (custom h1)"
    using h1(1) by (simp_all add: dup_ok_def dup_def equals_of_def keys_ok_default)
  have reach: "reachable h1" by (rule reachable.new_with_handlers [OF new set keys dup_ok])
  then have inv: "coucal_inv h1" using reachable_inv by blast
  have fits: "fits h1 [97]" by (simp add: fits_def h1(1))
  have "stash_inv (stash h0)" using fresh(1) by (simp add: coucal_inv_def slots_inv_def)
  then have "stash_size (stash h1) = 0"
    using fresh(2) stash_invD(3) [of "stash h0"] h1(4) by (simp add: entries_def live_def)
  then obtain h2 ret where run: "coucal_write_value h1 (KExt 5 [97]) 1 = Inr (h2, ret)"
      and ok: "write_ok h1 [97] 1 h2 ret"
    using write_value_correct [OF inv _ fits, of "KExt 5 [97]" 1] lg h1 by (auto simp: write_failure_def)
  have "items h1 = items h0"
    using set by (auto simp: coucal_value_set_key_handler_def)
  then have "entries h1 = {#}" using fresh(2) h1(4) by (simp add: entries_def live_def)
  then have "\<not> replaced h1 [97] 1 h2" by (auto simp: replaced_def)
  then have "added h1 [97] 1 h2" and same: "custom h2 = custom h1"
    using ok by (auto simp: write_ok_def split: if_splits)
  then have "calls h2 = [CallDup 0 [97] (KExt 0 [97])]"
    by (auto simp: added_def dup_calls_def h1 dup_def)
  moreover have "reachable h2"
    by (rule reachable.step [OF reach api_step.do_write [OF _ fits run]]) simp
  moreover have "key_dup (custom h2) \<noteq> None" by (simp add: same h1(1))
  ultimately show ?thesis using client_keys_balance [of h2] by (auto simp: dup_keys_def)
qed

text \<open>
  C28. Values are freed exactly once: a write hands over to the \<open>free\<close> handler the value it replaces,
  a removal the value it removes, and neither any other, so the values freed and the values live
  are together those the client wrote.
\<close>

theorem values_balance:
  assumes "coucal_inv h" and "value_free (custom h) \<noteq> None" and "deref (pool h) nm = Some s"
    and "fits h s"
  shows "(\<forall>h' ret. coucal_write_value h nm v = Inr (h', ret) \<longrightarrow>
      freed_values (calls h') + live_values h' =
        freed_values (calls h) + live_values h + (if v = 0 then {#} else {#v#})) \<and>
    (\<forall>h' ret. coucal_remove h nm = Inr (h', ret) \<longrightarrow>
      freed_values (calls h') + live_values h' = freed_values (calls h) + live_values h)"
proof (intro conjI allI impI)
  fix h' ret assume "coucal_write_value h nm v = Inr (h', ret)"
  then have "write_ok h s v h' ret" using write_value_correct [OF assms(1,3,4), of v] by auto
  then show "freed_values (calls h') + live_values h' =
      freed_values (calls h) + live_values h + (if v = 0 then {#} else {#v#})"
    using write_values [OF _ assms(2)] by (simp add: nonnull_def)
next
  fix h' ret assume "coucal_remove h nm = Inr (h', ret)"
  then have "remove_ok h s h' ret" using remove_correct [OF assms(1,3)] by auto
  then show "freed_values (calls h') + live_values h' = freed_values (calls h) + live_values h"
    using remove_values [OF _ assms(2)] by simp
qed

theorem values_balance_witness:
  "\<exists>h' ret. coucal_write_value demo3 (KPool 2 2) 5 = Inr (h', ret) \<and>
     freed_values (calls h') + live_values h' = {#5, 7, 8, 9#}"
proof -
  have fits: "fits demo3 [98]" by (simp add: fits_def)
  obtain h' ret where run: "coucal_write_value demo3 (KPool 2 2) 5 = Inr (h', ret)"
    using write_value_correct [OF demo3_facts(1) demo3_key fits, of 5] by (auto simp: write_failure_def)
  have "value_free (custom demo3) \<noteq> None" by simp
  note values_balance [OF demo3_facts(1) this demo3_key fits, of 5]
  moreover have "live_values demo3 = {#7, 8, 9#}"
    using demo3_fields by (simp add: live_values_slots slots_def)
  ultimately show ?thesis using run by simp
qed

section \<open>Creating and sizing\<close>

text \<open>
  C29. \<open>coucal_new()\<close> makes an empty table with the invariant and the smallest power of two of slots that
  is at least the size asked for, and at least 16. Every setting has its default: no handler of the
  client's, no name, null arguments; the stash and the pool are empty, the pool without a block; the
  statistics are zero and no handler was called. It returns \<open>NULL\<close> only for more than \<open>2 ^ 32\<close> slots
  or when the allocator refuses.
\<close>

theorem coucal_new_empty:
  "case coucal_new hp n of
     (Some h, hp') \<Rightarrow> coucal_inv h \<and> table_map h = Map.empty \<and> coucal_nitems (Some h) = 0 \<and>
       length (items h) = 2 ^ lg_size h \<and> max 16 n \<le> length (items h) \<and>
       (\<forall>k. max 16 n \<le> 2 ^ k \<longrightarrow> length (items h) \<le> 2 ^ k) \<and>
       value_free (custom h) = None \<and> key_dup (custom h) = None \<and> key_free (custom h) = None \<and>
       key_hash (custom h) = None \<and> key_equals (custom h) = None \<and> error_log (custom h) = None \<and>
       error_fatal (custom h) = None \<and> error_name (custom h) = None \<and> print_key (custom h) = None \<and>
       print_value (custom h) = None \<and> value_arg (custom h) = 0 \<and> key_arg (custom h) = 0 \<and>
       error_arg (custom h) = 0 \<and> print_arg (custom h) = 0 \<and>
       stash_size (stash h) = 0 \<and> extent (stash h) = 0 \<and>
       buffer (pool h) = None \<and> pool_size (pool h) = 0 \<and> capacity (pool h) = 0 \<and> pool_used (pool h) = 0 \<and>
       write_count (stats h) = 0 \<and> add_count (stats h) = 0 \<and> cuckoo_moved (stats h) = 0 \<and>
       stash_added (stats h) = 0 \<and> max_stash_size (stats h) = 0 \<and> rehash_count (stats h) = 0 \<and>
       pool_compact_count (stats h) = 0 \<and> pool_realloc_count (stats h) = 0 \<and> calls h = []
   | (None, hp') \<Rightarrow> 2 ^ 32 < n \<or> heap_refuses hp"
proof (cases "coucal_new hp n")
  case (Pair r hp')
  note new = coucal_new_correct [where hp = hp and n = n]
  show ?thesis
  proof (cases r)
    case None
    then show ?thesis using new Pair by simp
  next
    case (Some h)
    then have h: "coucal_inv h" "table_map h = Map.empty" "entries h = {#}" "n \<le> 2 ^ lg_size h"
        "lg_size h = 4 \<or> 2 ^ (lg_size h - 1) < n"
      using new Pair by simp_all
    then have t: "4 \<le> lg_size h" "length (items h) = 2 ^ lg_size h" "used h = 0"
      by (simp_all add: coucal_inv_def slots_inv_def table_inv_def MIN_LG_SIZE_def)
    have sixteen: "(16::nat) \<le> 2 ^ lg_size h" using power_increasing [OF t(1), of "2::nat"] by simp
    have "lg_size h \<le> k" if k: "max 16 n \<le> 2 ^ k" for k
    proof (rule ccontr)
      assume "\<not> lg_size h \<le> k"
      then have less: "k \<le> lg_size h - 1" by simp
      have "(2::nat) ^ 4 \<le> 2 ^ k" using k by simp
      then have "4 \<le> k" by (rule power_le_imp_le_exp [rotated]) simp
      then have "2 ^ (lg_size h - 1) < n" using h(5) less by auto
      moreover have "n \<le> 2 ^ (lg_size h - 1)"
        by (rule order_trans [OF _ power_increasing [OF less]]) (use k in simp_all)
      ultimately show False by simp
    qed
    then have "\<forall>k. max 16 n \<le> 2 ^ k \<longrightarrow> length (items h) \<le> 2 ^ k" by (simp add: t(2) power_increasing)
    moreover have "coucal_new hp n = (Some h, hp')" using Pair Some by simp
    note new_fields [OF this, unfolded no_custom_def no_stats_def no_pool_def empty_stash_def]
    ultimately show ?thesis using Pair Some h t sixteen by (simp add: coucal_nitems_def)
  qed
qed

text \<open>A table created for 100 items has 128 slots.\<close>

theorem coucal_new_empty_witness:
  "case coucal_new demo_heap 100 of
     (Some h, hp') \<Rightarrow> length (items h) = 128 \<and> value_free (custom h) = None | (None, hp') \<Rightarrow> False"
proof -
  note new = coucal_new_empty [where hp = demo_heap and n = 100]
  obtain h hp' where h: "coucal_new demo_heap 100 = (Some h, hp')"
    using new by (cases "coucal_new demo_heap 100"; cases "fst (coucal_new demo_heap 100)") auto
  note made = new [unfolded h prod.case option.case]
  have "length (items h) = 2 ^ lg_size h" and ge: "100 \<le> length (items h)"
    and least: "\<forall>k. max 16 100 \<le> (2::nat) ^ k \<longrightarrow> length (items h) \<le> 2 ^ k" and free: "value_free (custom h) = None"
    using made by (blast, linarith, blast, blast)
  then have len: "length (items h) = 2 ^ lg_size h" by blast
  have "length (items h) \<le> 2 ^ 7" using least by (elim allE [of _ 7]) simp
  then have "lg_size h \<le> 7" unfolding len by (rule power_le_imp_le_exp [rotated]) simp
  moreover have "\<not> lg_size h \<le> 6"
  proof
    assume "lg_size h \<le> 6"
    then have "(2::nat) ^ lg_size h \<le> 2 ^ 6" by (rule power_increasing) simp
    then show False using ge len by simp
  qed
  ultimately have "lg_size h = 7" by simp
  then show ?thesis using h len free by simp
qed

text \<open>
  C30. The loop that doubles the pool's capacity ends exactly for the sizes up to \<open>2 ^ 63\<close>. For those the
  shift does not wrap around: the capacity is a power of two of at least 256 with room for the size
  asked for, and less than twice that unless it is 256. From \<open>2 ^ 63 + 1\<close> bytes on the loop does not
  end: the capacity is shifted out to 0 and stays there.
\<close>

theorem pool_capacity_terminates:
  "if n \<le> 2 ^ 63
    then \<exists>j. 8 \<le> j \<and> j \<le> 63 \<and> pool_capacity_for MIN_POOL_CAPACITY n = Some (2 ^ j) \<and>
      n \<le> 2 ^ j \<and> (j = 8 \<or> 2 ^ j < 2 * n)
    else pool_capacity_for MIN_POOL_CAPACITY n = None"
proof (cases "n = 0")
  case True
  then show ?thesis by (simp add: pool_capacity_for_ge MIN_POOL_CAPACITY_def)
next
  case False
  have start: "MIN_POOL_CAPACITY = 2 ^ 8" by (simp add: MIN_POOL_CAPACITY_def)
  have "loop_capacity (2 ^ 8)" unfolding loop_capacity_def by (intro disjI2 exI [of _ 8]) simp
  then show ?thesis
    using pool_capacity_for_pow2 [of 8 n] pool_capacity_for_none [of n "2 ^ 8"] False unfolding start
    by (simp only: not_le split: if_split) auto
qed

theorem pool_capacity_terminates_witness:
  "(\<exists>j. pool_capacity_for MIN_POOL_CAPACITY 1000 = Some (2 ^ j) \<and> 1000 \<le> (2::nat) ^ j \<and> (2::nat) ^ j < 2000) \<and>
   pool_capacity_for MIN_POOL_CAPACITY (2 ^ 63 + 1) = None"
proof
  obtain j where "8 \<le> j" "pool_capacity_for MIN_POOL_CAPACITY 1000 = Some (2 ^ j)" "1000 \<le> (2::nat) ^ j"
      "j = 8 \<or> (2::nat) ^ j < 2 * 1000"
    using pool_capacity_terminates [of 1000] by auto
  then show "\<exists>j. pool_capacity_for MIN_POOL_CAPACITY 1000 = Some (2 ^ j) \<and> 1000 \<le> (2::nat) ^ j \<and> (2::nat) ^ j < 2000"
    by (intro exI [of _ j]) auto
  show "pool_capacity_for MIN_POOL_CAPACITY (2 ^ 63 + 1) = None"
    using pool_capacity_terminates [of "2 ^ 63 + 1"] by simp
qed

text \<open>
  C31. \<open>coucal_inc()\<close> adds one to the stored 64-bit value, or stores 1, and returns the low 32 bits of
  the new value read as a signed number: the value itself as long as it fits an \<open>int\<close>, but \<open>- 2 ^ 31\<close> at
  \<open>2 ^ 31\<close>, although the table then holds the right value.
\<close>

theorem inc_counts:
  assumes "coucal_inv h" and "deref (pool h) nm = Some s" and "fits h s"
  shows "case coucal_inc h nm of
      Inr (h', r) \<Rightarrow>
        (let v = (case table_map h s of None \<Rightarrow> 1 | Some v \<Rightarrow> v + 1) in
          coucal_inv h' \<and> table_map h' = (\<lambda>u. if equals_of (custom h) s u then Some v else table_map h u) \<and>
          r = signed_take_bit 31 (sint v) \<and>
          (- (2 ^ 31) \<le> sint v \<and> sint v < 2 ^ 31 \<longrightarrow> r = sint v))
    | Inl e \<Rightarrow> \<exists>a. e = AssertFailed a \<and> write_failure h a"
proof -
  have cast: "sint (ucast v :: 32 word) = signed_take_bit 31 (sint v)" for v :: u64
    by (rule bit_eqI) (auto simp: bit_simps min_def)
  have fit: "signed_take_bit 31 k = k" if "- (2 ^ 31) \<le> k" "k < 2 ^ 31" for k :: int
    using that by (simp add: signed_take_bit_int_eq_self)
  consider (bad) a where "coucal_inc_i h nm 1 = Inl (AssertFailed a)" "write_failure h a"
    | (good) h' where "coucal_inv h'"
      "coucal_inc_i h nm 1 = Inr (h', case table_map h s of None \<Rightarrow> 1 | Some v \<Rightarrow> v + 1)"
      "table_map h' = (\<lambda>u. if equals_of (custom h) s u
         then Some (case table_map h s of None \<Rightarrow> 1 | Some v \<Rightarrow> v + 1) else table_map h u)"
    using inc_i_correct [OF assms, of 1] unfolding inc_ok_def by blast
  then show ?thesis
  proof cases
    case good
    then show ?thesis using cast fit by (simp add: coucal_inc_def Let_def)
  qed (simp add: coucal_inc_def)
qed

text \<open>The stashed key's value 8 grows to 9.\<close>

theorem inc_counts_witness:
  "case coucal_inc demo3 (KPool 2 2) of
      Inr (h', r) \<Rightarrow> table_map h' [98] = Some 9 \<and> r = 9 | Inl e \<Rightarrow> False"
proof -
  have "fits demo3 [98]" by (simp add: fits_def)
  from inc_counts [OF demo3_facts(1) demo3_key this] show ?thesis
    by (auto simp: demo3_map write_failure_def split: sum.splits)
qed

section \<open>Hashing\<close>

text \<open>
  C32. The two hashes of a key differ in every build: the cuckoo moves depend on the two not being
  equal. A build fails only if it asks for Murmur and for MD5, because the choice of the header
  tests for Murmur first and the code tests for MD5 first; in any other one, of either width, the
  hashes of every key differ, or OpenSSL could not allocate its state.
\<close>

theorem two_hashes_differ:
  "(case build_backend m of
      Inl e \<Rightarrow> e = UndeclaredFunctions \<and> ''HTS_INTHASH_USES_MURMUR'' \<in> m \<and>
        (''HTS_INTHASH_USES_MD5'' \<in> m \<or> ''HTS_INTHASH_USES_OPENSSL_MD5'' \<in> m)
    | Inr b \<Rightarrow>
        (case coucal_hash_data_of b dig data of
           None \<Rightarrow> b = OpensslMd5 \<and> \<not> digest_allocates dig
         | Some k \<Rightarrow> hash1 k \<noteq> hash2 k) \<and>
        (case coucal_hash_data64_of b dig data of
           None \<Rightarrow> b = OpensslMd5 \<and> \<not> digest_allocates dig
         | Some k \<Rightarrow> wide1 k \<noteq> wide2 k)) \<and>
   hash1 (coucal_hash_data data) \<noteq> hash2 (coucal_hash_data data) \<and>
   hash1 (coucal_hash_data_fnv1 data) \<noteq> hash2 (coucal_hash_data_fnv1 data)"
proof (intro conjI)
  show "case build_backend m of
      Inl e \<Rightarrow> e = UndeclaredFunctions \<and> ''HTS_INTHASH_USES_MURMUR'' \<in> m \<and>
        (''HTS_INTHASH_USES_MD5'' \<in> m \<or> ''HTS_INTHASH_USES_OPENSSL_MD5'' \<in> m)
    | Inr b \<Rightarrow>
        (case coucal_hash_data_of b dig data of
           None \<Rightarrow> b = OpensslMd5 \<and> \<not> digest_allocates dig
         | Some k \<Rightarrow> hash1 k \<noteq> hash2 k) \<and>
        (case coucal_hash_data64_of b dig data of
           None \<Rightarrow> b = OpensslMd5 \<and> \<not> digest_allocates dig
         | Some k \<Rightarrow> wide1 k \<noteq> wide2 k)"
    using build_error_iff [of m] backend_hashes_differ [of _ dig data] hashes_missing [of _ dig data]
    by (auto split: sum.split option.split)
qed (simp_all only: coucal_hash_data_def coucal_hash_data_fnv1_def Let_def distinct_hashkeys_neq not_False_eq_True)

text \<open>
  C33. Under the default back end the second hash carries nothing for a key of at most four bytes:
  it is 0, or all ones when the first hash is 0 too. So all short keys share one second position,
  and a short key has in effect a single position of its own.
\<close>

theorem short_keys_share_second_hash:
  assumes "length key \<le> 4"
  shows "hash2 (coucal_hash_string key) =
    (if hash1 (coucal_hash_string key) = 0 then NOT 0 else 0)"
  using murmur_short_lanes [OF assms, of 42]
  by (simp add: coucal_hash_string_def coucal_hash_data_def distinct_hashkeys_def Let_def)

theorem short_keys_share_second_hash_witness:
  "hash2 (coucal_hash_string [107, 49]) \<in> {0, NOT 0}"
  using short_keys_share_second_hash [of "[107, 49]"] by simp

text \<open>
  C34. The known-answer test of the hash functions. On the ten lengths it tries, which take the block
  loop and every lane of the tail, Murmur and FNV-1 have the hashes the test pins, in both widths.
  The MD5 functions are not in the repository, but the two tables pinned for them are those of one
  and the same digest: whatever the functions are, when the build with 64-bit hashes passes its
  vectors then so does the build with 32-bit hashes.
\<close>

theorem known_answers_hold:
  "coucal_test_hash_vectors (Some kat_murmur_32) (\<lambda>data. widen (coucal_hash_data data)) \<and>
   coucal_test_hash_vectors (Some kat_murmur_64) (\<lambda>data. wide_pair (coucal_hash_data64 data)) \<and>
   coucal_test_hash_vectors (Some kat_fnv1_32) (\<lambda>data. widen (coucal_hash_data_fnv1 data)) \<and>
   coucal_test_hash_vectors (Some kat_fnv1_64) (\<lambda>data. wide_pair (coucal_hash_data_fnv1_64 data)) \<and>
   (coucal_test_hash_vectors (Some kat_md5_64) (\<lambda>data. wide_pair (coucal_hash_data_md5_64 init upd fin data)) \<longrightarrow>
    coucal_test_hash_vectors (Some kat_md5_32) (\<lambda>data. widen (coucal_hash_data_md5 init upd fin data)))"
  by (intro conjI impI murmur_vectors_32 murmur_vectors_64 fnv1_vectors_32 fnv1_vectors_64 md5_vectors_agree)

text \<open>A digest with the bytes that the 64-bit vectors pin passes the 32-bit ones.\<close>

theorem known_answers_hold_witness:
  "coucal_test_hash_vectors (Some kat_md5_32) (\<lambda>data. widen (coucal_hash_data_md5 [] (@) kat_digest data))"
  using known_answers_hold [where init = "[]" and upd = "(@)" and fin = kat_digest] kat_digest_passes by blast

text \<open>
  C35. The MD5 back ends feed the key by chunks of at most \<open>2 ^ 28\<close> bytes, so that the size of a chunk
  fits the \<open>unsigned int\<close> it is passed in. The loop ends and is the same as feeding the key at
  once, for a digest that depends only on the bytes fed; and the two hashes differ.
\<close>

theorem md5_chunks_feed_the_key:
  assumes "streaming upd"
  shows "coucal_hash_data_md5 init upd fin data = md5_mix (fin (upd init data)) \<and>
    coucal_hash_data_openssl (Some init) upd fin data = Some (md5_mix (fin (upd init data))) \<and>
    hash1 (coucal_hash_data_md5 init upd fin data) \<noteq> hash2 (coucal_hash_data_md5 init upd fin data)"
  by (simp add: coucal_hash_data_md5_def coucal_hash_data_openssl_def md5_loop_streaming [OF assms]
      md5_mix_neq)

text \<open>A digest that keeps the bytes fed and returns the first sixteen.\<close>

theorem md5_chunks_feed_the_key_witness:
  "coucal_hash_data_md5 [] (@) (\<lambda>c. take 16 (c @ replicate 16 0)) [1, 2, 3] =
     md5_mix (1 # 2 # 3 # replicate 13 0)"
proof -
  have "streaming ((@) :: byte list \<Rightarrow> _)" by (simp add: streaming_def)
  from md5_chunks_feed_the_key [OF this, of "[]" "\<lambda>c. take 16 (c @ replicate 16 0)" "[1, 2, 3]"]
  show ?thesis by (simp add: numeral_eq_Suc)
qed

text \<open>
  C36. Operations on keys cannot tell the builds apart. Run any sequence of writes, removals, lookups and
  increments on a new table of each of two builds, with any back ends whose digest allocates: if
  neither runs out of a resource, the results are equal, and the two tables stand for the same map
  and count the same items, those of the sequence on maps.
\<close>

theorem builds_agree:
  assumes "\<And>data. coucal_hash_data_of b dig data = Some (f data)"
    and "\<And>data. coucal_hash_data_of c dig2 data = Some (g data)"
    and "coucal_new hp n = (Some h, hp')" and "coucal_new hq k = (Some h2, hq')"
    and "\<forall>x \<in> set xs. 0 \<notin> set (op_key x)"
    and "sum_list (map (\<lambda>x. Suc (length (op_key x))) xs) < 2 ^ 62"
  shows "case run_ops coucal_step (built f h) xs of
      Inl e \<Rightarrow> resource_error e
    | Inr (t, rs) \<Rightarrow>
        (case run_ops coucal_step (built g h2) xs of
           Inl e \<Rightarrow> resource_error e
         | Inr (u, qs) \<Rightarrow> (table_map t, rs) = spec_run Map.empty xs \<and> rs = qs \<and>
             table_map t = table_map u \<and> used t = used u)"
  using built_refines_map [OF assms(3,5,6), of f] built_refines_map [OF assms(4,5,6), of g]
  by (auto simp: default_store_facts(5) dest: sym split: sum.splits)

theorem builds_agree_witness:
  "\<exists>h hp'. coucal_new demo_heap 0 = (Some h, hp') \<and>
    (case run_ops coucal_step (built coucal_hash_data_fnv1 h) [Write [97] 7, Remove [98], Lookup [97]] of
       Inl e \<Rightarrow> resource_error e
     | Inr (t, rs) \<Rightarrow>
         (case run_ops coucal_step (built coucal_hash_data h) [Write [97] 7, Remove [98], Lookup [97]] of
            Inl e \<Rightarrow> resource_error e
          | Inr (u, qs) \<Rightarrow> rs = qs \<and> used t = used u))"
proof -
  obtain h hp' where new: "coucal_new demo_heap 0 = (Some h, hp')"
    using coucal_new_correct [where hp = demo_heap and n = 0]
    by (cases "coucal_new demo_heap 0"; cases "fst (coucal_new demo_heap 0)") auto
  have backends: "coucal_hash_data_of Fnv1 dig data = Some (coucal_hash_data_fnv1 data)"
    "coucal_hash_data_of Murmur dig data = Some (coucal_hash_data data)" for dig :: "nat digest_lib" and data
    by (simp_all add: coucal_hash_data_of_def)
  show ?thesis
    using builds_agree [OF backends new new, of "[Write [97] 7, Remove [98], Lookup [97]]"] new
    by (intro exI [of _ h] exI [of _ hp'] conjI new) (auto split: sum.splits)
qed

section \<open>Logging and assertions\<close>

text \<open>
  C37. Logging is passive. For any sequence of writes, removals, lookups and increments on a table
  just created, in a build with any \<open>COUCAL_LOG_LEVEL\<close>, the table and the results are those of the
  same sequence without messages: no message reads a key that is not there, although the trace
  messages print keys as strings while items and the pool move. The log is the full trace
  without the messages whose level has a larger number than the build's.
\<close>

theorem logging_is_passive:
  assumes "\<forall>x \<in> set xs. 0 \<notin> set (op_key x)"
    and "sum_list (map (\<lambda>x. Suc (length (op_key x))) xs) < 2 ^ 62"
    and "valid_log_level n" and "coucal_new hp sz = (Some h, hp')"
  shows "snd (run_ops_log (coucal_step_log n) h xs) = run_ops coucal_step h xs \<and>
    fst (run_ops_log (coucal_step_log n) h xs) =
      filter (\<lambda>msg. level_number (message_level msg) \<le> n) (fst (run_ops_log (coucal_step_log 5) h xs))"
proof -
  note new = new_table [OF assms(4)]
  have store: "default_store h" using new(1,7) by (simp add: default_store_def no_custom_def)
  have "pool_size (pool h) = 0" by (simp add: new(4) no_pool_def)
  then have "logs (\<lambda>n. run_ops_log (coucal_step_log n) h xs) (run_ops coucal_step h xs)"
    using coucal_logged.run_logs [OF store assms(1)] assms(2) by simp
  note run = logsD [OF this assms(3)]
  have "compiled n = (\<lambda>msg. level_number (message_level msg) \<le> n)"
    by (simp add: fun_eq_iff compiled_def compiled_in_level [OF assms(3)])
  then show ?thesis using run(1,2) by simp
qed

theorem logging_is_passive_witness:
  "\<exists>h hp'. coucal_new demo_heap 0 = (Some h, hp') \<and>
     snd (run_ops_log (coucal_step_log 4) h [Write [97] 7, Inc [97], Remove [97]]) =
       run_ops coucal_step h [Write [97] 7, Inc [97], Remove [97]]"
proof -
  obtain h hp' where new: "coucal_new demo_heap 0 = (Some h, hp')"
    using coucal_new_correct [where hp = demo_heap and n = 0]
    by (cases "coucal_new demo_heap 0"; cases "fst (coucal_new demo_heap 0)") auto
  have ok: "\<forall>x \<in> set [Write [97] 7, Inc [97], Remove [97]]. 0 \<notin> set (op_key x)"
    "sum_list (map (\<lambda>x. Suc (length (op_key x))) [Write [97] 7, Inc [97], Remove [97]]) < 2 ^ 62"
    "valid_log_level 4" by (simp_all add: valid_log_level_def)
  show ?thesis using logging_is_passive [OF ok new] new by blast
qed

text \<open>
  C38. The log tells how a write or a removal ended, at every level and for any handlers. On success
  no critical message was logged and the process goes on; when an assertion fails, its message
  is the last and the only one of its kind, the fatal handler is called once after it, and the
  process aborts. The result is that of the operation without messages.
\<close>

theorem log_reports_outcome:
  assumes inv: "coucal_inv h" and nm: "deref (pool h) nm = Some s" and fits: "fits h s"
    and n: "valid_log_level n"
  shows "snd (coucal_write_value_log n h nm v) = coucal_write_value h nm v \<and>
    reported g h (coucal_write_value_log n h nm v) \<and>
    snd (coucal_remove_log n h nm) = coucal_remove h nm \<and>
    reported g h (coucal_remove_log n h nm)"
proof (intro conjI)
  note W = logs_write_value [OF inv nm fits, of v] and R = logs_remove [of h nm]
  show "snd (coucal_write_value_log n h nm v) = coucal_write_value h nm v" by (rule logsD(1) [OF W n])
  show "snd (coucal_remove_log n h nm) = coucal_remove h nm" by (rule logsD(1) [OF R n])
  show "reported g h (coucal_write_value_log n h nm v)"
    using write_value_correct [OF inv nm fits, of v] by (intro reported_logs [OF W n]) auto
  show "reported g h (coucal_remove_log n h nm)"
    using remove_correct [OF inv nm] by (intro reported_logs [OF R n]) auto
qed

theorem log_reports_outcome_witness:
  "reported no_globals demo3 (coucal_write_value_log 3 demo3 (KPool 2 2) 5) \<and>
   snd (coucal_remove_log 5 demo3 (KPool 2 2)) = coucal_remove demo3 (KPool 2 2)"
proof -
  have "fits demo3 [98]" "valid_log_level 3" "valid_log_level 5" by (simp_all add: fits_def valid_log_level_def)
  then show ?thesis
    using log_reports_outcome [OF demo3_facts(1) demo3_key] by blast
qed

text \<open>
  C39. The statistics of a table are what its log tells. In a build that compiles every message in,
  a successful write moves each counter by the number of messages of its kind: an item moved for
  each \<open>position 1\<close> and \<open>position 2\<close>, a stashing, a rehash, a compaction and a reallocation of the
  pool for each of theirs, and the maximal size of the stash by the sizes told; beside that it
  counts one write, and one addition when it returns 1. A removal moves them likewise.
\<close>

theorem log_accounts_for_statistics:
  assumes inv: "coucal_inv h" and nm: "deref (pool h) nm = Some s" and fits: "fits h s"
  shows "(\<forall>h' ret. coucal_write_value h nm v = Inr (h', ret) \<longrightarrow>
      told_by (fst (coucal_write_value_log 5 h nm v))
        ((stats h)\<lparr>write_count := write_count (stats h) + 1,
                    add_count := add_count (stats h) + (if ret = 0 then 0 else 1)\<rparr>) (stats h')) \<and>
    (\<forall>h' ret. coucal_remove h nm = Inr (h', ret) \<longrightarrow>
      told_by (fst (coucal_remove_log 5 h nm)) (stats h) (stats h'))"
proof (intro conjI allI impI)
  fix h' ret assume "coucal_write_value h nm v = Inr (h', ret)"
  then have "snd (coucal_write_value_log 5 h nm v) = Inr (h', ret)"
    using logsD(1) [OF logs_write_value [OF inv nm fits] valid_trace_level] by simp
  from write_told [OF this] show "told_by (fst (coucal_write_value_log 5 h nm v))
      ((stats h)\<lparr>write_count := write_count (stats h) + 1,
                  add_count := add_count (stats h) + (if ret = 0 then 0 else 1)\<rparr>) (stats h')"
    by (simp add: counted_def count_write_def count_add_def split: if_splits)
next
  fix h' ret assume "coucal_remove h nm = Inr (h', ret)"
  then show "told_by (fst (coucal_remove_log 5 h nm)) (stats h) (stats h')"
    using remove_told logsD(1) [OF logs_remove valid_trace_level] by simp
qed

text \<open>A key that collides with both table slots of \<open>demo3\<close>: the third key in the stash's two.\<close>

theorem log_accounts_for_statistics_witness:
  "\<exists>h'. coucal_write_value demo3 (KExt 0 [101]) 10 = Inr (h', 1) \<and>
     told_by (fst (coucal_write_value_log 5 demo3 (KExt 0 [101]) 10))
       ((stats demo3)\<lparr>write_count := write_count (stats demo3) + 1,
                       add_count := add_count (stats demo3) + 1\<rparr>) (stats h')"
proof -
  have nm: "deref (pool demo3) (KExt 0 [101]) = Some [101]" and fits: "fits demo3 [101]"
    by (simp_all add: fits_def)
  have "\<not> write_failure demo3 a" for a by (simp add: write_failure_def)
  then obtain h' ret where run: "coucal_write_value demo3 (KExt 0 [101]) 10 = Inr (h', ret)"
      "write_ok demo3 [101] 10 h' ret"
    using write_value_correct [OF demo3_facts(1) nm fits, of 10] by blast
  have "table_map demo3 [101] = None"
    using demo3_fields by (simp add: table_map_def item_is_def deref_def c_string_at_def)
  then have "ret = 1" using write_ok_map(2) [OF demo3_facts(1) run(2)] by simp
  then show ?thesis
    using log_accounts_for_statistics [OF demo3_facts(1) nm fits, of 10] run(1) by simp
qed

text \<open>
  C40. When an item finds no room, that is when both its positions are taken, the displacements end
  with an item in hand and the stash is full, the critical messages are the report and the failed
  assertion, and nothing else. The report has three lines for each of the sixteen stashed items, in
  the order of the stash: the item, then what is at the position of its first hash, then what is
  at the position of its second, the colliding item or the free position. All stashed items are
  live and a free slot is shown as a position, so the client's printing handlers get no \<open>NULL\<close> key;
  no slot outside the table is read; and the last thing the report does is to abort.
\<close>

theorem full_stash_report:
  assumes "slots_inv h" and "name item \<noteq> KNull" and "valid_log_level n"
    and "coucal_add_item_i h item = Inl (AssertFailed A_cuckoo_stash_collision)"
    and "print_key (custom h) = Some f" and "print_value (custom h) = Some g"
  shows "stash_size (stash h) = STASH_SIZE \<and> (\<forall>i < STASH_SIZE. name (stash_items (stash h) ! i) \<noteq> KNull) \<and>
    \<not> coucal_is_free h (coucal_hash_to_pos h (hash1 (hashes item))) \<and>
    \<not> coucal_is_free h (coucal_hash_to_pos h (hash2 (hashes item))) \<and>
    (\<exists>h1 it. cuckoo_loop (POW2 (lg_size h)) h item (hash1 (hashes item)) (hash1 (hashes item)) = Inr (h1, Some it) \<and>
      length (items h1) = 2 ^ lg_size h \<and>
      filter critical (fst (coucal_add_item_log n h item)) =
        map DumpMessage (concat (map (\<lambda>i.
          let s = stash_items (stash h) ! i;
              place = (\<lambda>p. if name (items h1 ! p) = KNull then FreeLine (c_int p)
                           else CollidingLine (print_item h f g (items h1 ! p)))
          in [StashLine (int i) (print_item h f g s), place (unat (hash1 (hashes s)) mod 2 ^ lg_size h),
              place (unat (hash2 (hashes s)) mod 2 ^ lg_size h)]) [0..<STASH_SIZE])) @
        [AssertionMessage A_cuckoo_stash_collision] \<and>
      fst (last (report_full_stash n gl h1)) = Aborted)"
proof -
  obtain h1 it where full: "cuckoo_loop (POW2 (lg_size h)) h item (hash1 (hashes item)) (hash1 (hashes item)) = Inr (h1, Some it)"
      "slots_inv h1" "slots_frame h h1" "stash h1 = stash h" "stash_size (stash h) = 16"
      "\<not> coucal_is_free h (coucal_hash_to_pos h (hash1 (hashes item)))"
      "\<not> coucal_is_free h (coucal_hash_to_pos h (hash2 (hashes item)))"
    using add_item_full [OF assms(1,2,4)] by blast
  have "stash_core (stash h)" using assms(1) by (simp add: slots_inv_def stash_inv_def)
  then have live: "\<forall>i < 16. name (stash_items (stash h) ! i) \<noteq> KNull" using stash_full(2) full(5) by blast
  have "stash_size (stash h1) = 16" using full(4,5) by simp
  then have log: "filter critical (fst (coucal_add_item_log n h item)) =
      map DumpMessage (stash_dump h1) @ [AssertionMessage A_cuckoo_stash_collision]"
    using full_stash_log [OF assms(1,2) _ assms(3) full(1)] full(6,7) assms(5) by simp
  have "length (items h1) = 2 ^ lg_size h"
    using full(2) slots_frameD(1) [OF full(3)] by (simp add: slots_inv_def table_inv_def)
  then show ?thesis
    using full live log stash_dump_spelled [OF full(2-5) assms(5,6)] report_ends_aborted [of n gl h1]
    unfolding STASH_SIZE_def by auto
qed

text \<open>A seventeenth item for a stash of sixteen that all have the positions 1 and 2.\<close>

theorem full_stash_report_witness:
  "\<exists>h1 :: struct_coucal. filter critical (fst (coucal_add_item_log 5 demo_full (demo_item 16))) =
    map DumpMessage (concat (map (\<lambda>i.
      let place = (\<lambda>p. if name (items h1 ! p) = KNull then FreeLine (c_int p)
                       else CollidingLine (print_item demo_full 1 2 (items h1 ! p)))
      in [StashLine (int i) (print_item demo_full 1 2 (demo_item i)), place 1, place 2]) [0..<16])) @
    [AssertionMessage A_cuckoo_stash_collision]"
proof -
  let ?place = "\<lambda>(h1 :: struct_coucal) p. if name (items h1 ! p) = KNull then FreeLine (c_int p)
      else CollidingLine (print_item demo_full 1 2 (items h1 ! p))"
  let ?lines = "\<lambda>(h1 :: struct_coucal) i. let s = stash_items (stash demo_full) ! i; place = ?place h1
      in [StashLine (int i) (print_item demo_full 1 2 s), place (unat (hash1 (hashes s)) mod 2 ^ lg_size demo_full),
          place (unat (hash2 (hashes s)) mod 2 ^ lg_size demo_full)]"
  have lines: "map (?lines h1) [0..<STASH_SIZE] = map (\<lambda>i. let place = ?place h1
      in [StashLine (int i) (print_item demo_full 1 2 (demo_item i)), place 1, place 2]) [0..<16]" for h1
    unfolding STASH_SIZE_def by (rule map_cong [OF refl]) (simp add: Let_def)
  note full_stash_report [OF demo_full_inv demo_item_simps(1) valid_trace_level demo_full_refuses
      demo_full_simps(6,7), of no_globals]
  then have "\<exists>h1 :: struct_coucal. filter critical (fst (coucal_add_item_log 5 demo_full (demo_item 16))) =
      map DumpMessage (concat (map (?lines h1) [0..<STASH_SIZE])) @ [AssertionMessage A_cuckoo_stash_collision]"
    by blast
  then show ?thesis unfolding lines .
qed

end
